(* ===== verification/Prelude.thy ===== *)
theory Prelude
  imports Main "HOL-Library.Monad_Syntax" "HOL-Library.Char_ord" "HOL-Library.List_Lexorder"
    "HOL-Library.Signed_Division"
begin

text \<open>
  Shared vocabulary of the development.

  Go code is translated in two styles.
  \<^item> A pure function that may panic returns an \<open>'a option\<close>; \<^term>\<open>None\<close> is the panic
    (integer overflow, index out of range, explicit \<open>panic\<close>).
  \<^item> A keeper or handler method works on a state and is a function into \<open>outcome\<close>: it
    returns a value with the new state (\<open>Ret\<close>), returns a Go error with the state as it was
    left when the error was returned (\<open>Err\<close>; Go does not undo the writes made before an
    error), or panics (\<open>Panic\<close>).
  A transaction is delivered by \<open>deliver\<close>, which keeps the old state when the handler
  returns an error or panics, as the message runner of \<open>libs/cosmos-sdk/baseapp\<close> does
  by writing its cache only after a successful run.
\<close>

named_theorems run_simps "rewrite rules that run the outcome monad"
named_theorems frame_intros "state components an operation leaves alone"

section \<open>Errors and outcomes\<close>

text \<open>An error of the SDK is registered under a codespace and a code.\<close>

datatype error = Error (codespace: string) (code: int)

datatype ('s, 'a) outcome = Ret 'a 's | Err error 's | Panic

type_synonym ('s, 'a) action = "'s \<Rightarrow> ('s, 'a) outcome"

definition returnM :: "'a \<Rightarrow> ('s, 'a) action" where
  "returnM a = (\<lambda>s. Ret a s)"

definition failM :: "error \<Rightarrow> ('s, 'a) action" where
  "failM e = (\<lambda>s. Err e s)"

definition panicM :: "('s, 'a) action" where
  "panicM = (\<lambda>s. Panic)"

definition bindM :: "('s, 'a) action \<Rightarrow> ('a \<Rightarrow> ('s, 'b) action) \<Rightarrow> ('s, 'b) action" where
  "bindM m f = (\<lambda>s. case m s of Ret a s' \<Rightarrow> f a s' | Err e s' \<Rightarrow> Err e s' | Panic \<Rightarrow> Panic)"

definition seqM :: "('s, 'a) action \<Rightarrow> ('s, 'b) action \<Rightarrow> ('s, 'b) action" where
  "seqM m n = bindM m (\<lambda>_. n)"

definition getM :: "('s \<Rightarrow> 'a) \<Rightarrow> ('s, 'a) action" where
  "getM f = (\<lambda>s. Ret (f s) s)"

definition modifyM :: "('s \<Rightarrow> 's) \<Rightarrow> ('s, unit) action" where
  "modifyM f = (\<lambda>s. Ret () (f s))"

text \<open>A pure computation that may panic, used inside an action.\<close>

definition liftM :: "'a option \<Rightarrow> ('s, 'a) action" where
  "liftM x = (case x of None \<Rightarrow> panicM | Some a \<Rightarrow> returnM a)"

text \<open>\<open>if cond { return err }\<close>.\<close>

definition failIf :: "bool \<Rightarrow> error \<Rightarrow> ('s, unit) action" where
  "failIf b e = (if b then failM e else returnM ())"

definition panicIf :: "bool \<Rightarrow> ('s, unit) action" where
  "panicIf b = (if b then panicM else returnM ())"

text \<open>\<open>if err := m(); err != nil { return e }\<close>: the callee's error is replaced.\<close>

definition wrapM :: "error \<Rightarrow> ('s, 'a) action \<Rightarrow> ('s, 'a) action" where
  "wrapM e m = (\<lambda>s. case m s of Ret a s' \<Rightarrow> Ret a s' | Err _ s' \<Rightarrow> Err e s' | Panic \<Rightarrow> Panic)"

text \<open>\<open>err := m()\<close> where the caller looks at the error itself: the error becomes a value.\<close>

definition attemptM :: "('s, 'a) action \<Rightarrow> ('s, error + 'a) action" where
  "attemptM m = (\<lambda>s. case m s of Ret a s' \<Rightarrow> Ret (Inr a) s' | Err e s' \<Rightarrow> Ret (Inl e) s' | Panic \<Rightarrow> Panic)"

text \<open>A loop over a slice that stops at the first error.\<close>

fun forM :: "'x list \<Rightarrow> ('x \<Rightarrow> ('s, unit) action) \<Rightarrow> ('s, unit) action" where
  "forM [] f = returnM ()"
| "forM (x # xs) f = seqM (f x) (forM xs f)"

text \<open>Delivery of one message: state is written only on success.\<close>

definition deliver :: "('s, 'a) action \<Rightarrow> 's \<Rightarrow> 's" where
  "deliver m s = (case m s of Ret _ s' \<Rightarrow> s' | Err _ _ \<Rightarrow> s | Panic \<Rightarrow> s)"

lemma bindM_Ret_iff [run_simps]:
  "bindM m f s = Ret b s' \<longleftrightarrow> (\<exists>a s1. m s = Ret a s1 \<and> f a s1 = Ret b s')"
  by (auto simp: bindM_def split: outcome.splits)

lemma seqM_Ret_iff [run_simps]:
  "seqM m n s = Ret b s' \<longleftrightarrow> (\<exists>a s1. m s = Ret a s1 \<and> n s1 = Ret b s')"
  by (auto simp: seqM_def run_simps)

lemma returnM_Ret_iff [run_simps]: "returnM a s = Ret b s' \<longleftrightarrow> b = a \<and> s' = s"
  by (auto simp: returnM_def)

lemma failM_Ret_iff [run_simps]: "failM e s = Ret b s' \<longleftrightarrow> False"
  by (simp add: failM_def)

lemma panicM_Ret_iff [run_simps]: "panicM s = Ret b s' \<longleftrightarrow> False"
  by (simp add: panicM_def)

lemma getM_Ret_iff [run_simps]: "getM f s = Ret b s' \<longleftrightarrow> b = f s \<and> s' = s"
  by (auto simp: getM_def)

lemma modifyM_Ret_iff [run_simps]: "modifyM f s = Ret b s' \<longleftrightarrow> s' = f s"
  by (auto simp: modifyM_def)

lemma liftM_Ret_iff [run_simps]: "liftM x s = Ret b s' \<longleftrightarrow> x = Some b \<and> s' = s"
  by (auto simp: liftM_def panicM_def returnM_def split: option.splits)

lemma failIf_Ret_iff [run_simps]: "failIf c e s = Ret b s' \<longleftrightarrow> \<not> c \<and> s' = s"
  by (auto simp: failIf_def failM_def returnM_def)

lemma panicIf_Ret_iff [run_simps]: "panicIf c s = Ret b s' \<longleftrightarrow> \<not> c \<and> s' = s"
  by (auto simp: panicIf_def panicM_def returnM_def)

lemma wrapM_Ret_iff [run_simps]: "wrapM e m s = Ret b s' \<longleftrightarrow> m s = Ret b s'"
  by (auto simp: wrapM_def split: outcome.splits)

lemma attemptM_Ret_iff [run_simps]:
  "attemptM m s = Ret r s' \<longleftrightarrow>
     (\<exists>a. r = Inr a \<and> m s = Ret a s') \<or> (\<exists>e. r = Inl e \<and> m s = Err e s')"
  by (auto simp: attemptM_def split: outcome.splits)

lemma outcome_if_Ret [run_simps]:
  "(if c then m else n) s = Ret b s' \<longleftrightarrow> (if c then m s = Ret b s' else n s = Ret b s')"
  by simp

text \<open>Evaluation rules: they run an action forwards on a given state.\<close>

lemma bindM_run [simp]:
  "m s = Ret a s1 \<Longrightarrow> bindM m f s = f a s1"
  "m s = Err e s1 \<Longrightarrow> bindM m f s = Err e s1"
  "m s = Panic \<Longrightarrow> bindM m f s = Panic"
  by (simp_all add: bindM_def)

lemma seqM_run [simp]:
  "m s = Ret a s1 \<Longrightarrow> seqM m n s = n s1"
  "m s = Err e s1 \<Longrightarrow> seqM m n s = Err e s1"
  "m s = Panic \<Longrightarrow> seqM m n s = Panic"
  by (simp_all add: seqM_def)

lemma basic_run [simp]:
  "returnM a s = Ret a s"
  "failM e s = Err e s"
  "panicM s = Panic"
  "getM f s = Ret (f s) s"
  "modifyM g s = Ret () (g s)"
  by (simp_all add: returnM_def failM_def panicM_def getM_def modifyM_def)

lemma liftM_run [simp]:
  "liftM (Some a) s = Ret a s"
  "liftM None s = Panic"
  by (simp_all add: liftM_def)

lemma failIf_run [simp]:
  "c \<Longrightarrow> failIf c e s = Err e s"
  "\<not> c \<Longrightarrow> failIf c e s = Ret () s"
  by (simp_all add: failIf_def)

lemma panicIf_run [simp]:
  "c \<Longrightarrow> panicIf c s = Panic"
  "\<not> c \<Longrightarrow> panicIf c s = Ret () s"
  by (simp_all add: panicIf_def)

lemma wrapM_run [simp]:
  "m s = Ret a s1 \<Longrightarrow> wrapM e m s = Ret a s1"
  "m s = Err e' s1 \<Longrightarrow> wrapM e m s = Err e s1"
  "m s = Panic \<Longrightarrow> wrapM e m s = Panic"
  by (simp_all add: wrapM_def)

lemma attemptM_run [simp]:
  "m s = Ret a s1 \<Longrightarrow> attemptM m s = Ret (Inr a) s1"
  "m s = Err e s1 \<Longrightarrow> attemptM m s = Ret (Inl e) s1"
  "m s = Panic \<Longrightarrow> attemptM m s = Panic"
  by (simp_all add: attemptM_def)

lemma deliver_Ret [simp]: "m s = Ret a s' \<Longrightarrow> deliver m s = s'"
  by (simp add: deliver_def)

lemma deliver_Err [simp]: "m s = Err e s' \<Longrightarrow> deliver m s = s"
  by (simp add: deliver_def)

lemma deliver_Panic [simp]: "m s = Panic \<Longrightarrow> deliver m s = s"
  by (simp add: deliver_def)

definition succeeds :: "('s, 'a) outcome \<Rightarrow> bool" where
  "succeeds r = (case r of Ret _ _ \<Rightarrow> True | Err _ _ \<Rightarrow> False | Panic \<Rightarrow> False)"

lemma succeedsE: "succeeds r \<Longrightarrow> (\<And>a s. r = Ret a s \<Longrightarrow> P) \<Longrightarrow> P"
  by (cases r) (simp_all add: succeeds_def)

text \<open>What a message does to an invariant it keeps whenever it succeeds.\<close>

lemma deliver_invariant:
  assumes "I s" and "\<And>a s'. m s = Ret a s' \<Longrightarrow> I s'"
  shows "I (deliver m s)"
  using assms by (cases "m s") auto

text \<open>A loop keeps what its body keeps.\<close>

lemma forM_invariant:
  assumes "forM xs f s = Ret u s'" and "I s"
    and "\<And>x s1 s2 v. x \<in> set xs \<Longrightarrow> I s1 \<Longrightarrow> f x s1 = Ret v s2 \<Longrightarrow> I s2"
  shows "I s'"
  using assms
proof (induction xs arbitrary: s)
  case Nil
  then show ?case by (simp add: run_simps)
next
  case (Cons x xs)
  from Cons.prems(1) obtain v s1 where 1: "f x s = Ret v s1" and 2: "forM xs f s1 = Ret u s'"
    by (auto simp: run_simps)
  from Cons.prems(2,3) 1 have "I s1" by auto
  with Cons.IH [OF 2] Cons.prems(3) show ?case by auto
qed

section \<open>Generic lemmas\<close>

lemma sum_list_nonneg_int: "(\<And>x. x \<in> set xs \<Longrightarrow> 0 \<le> (x::int)) \<Longrightarrow> 0 \<le> sum_list xs"
  by (induction xs) auto

lemma option_bind_Some_iff [simp]:
  "Option.bind m f = Some y \<longleftrightarrow> (\<exists>x. m = Some x \<and> f x = Some y)"
  by (cases m) auto

lemma sum_fun_upd:
  fixes f :: "'a \<Rightarrow> int"
  assumes "finite A" and "a \<in> A"
  shows "(\<Sum>x\<in>A. (f(a := v)) x) = (\<Sum>x\<in>A. f x) - f a + v"
proof -
  have "(\<Sum>x\<in>A. (f(a := v)) x) = v + (\<Sum>x\<in>A - {a}. (f(a := v)) x)"
    using assms by (simp add: sum.remove)
  also have "(\<Sum>x\<in>A - {a}. (f(a := v)) x) = (\<Sum>x\<in>A - {a}. f x)"
    by (intro sum.cong) auto
  also have "\<dots> = (\<Sum>x\<in>A. f x) - f a"
    using assms by (simp add: sum.remove)
  finally show ?thesis by simp
qed

section \<open>Machine integers\<close>

text \<open>The value of a two's complement integer of \<open>w\<close> bits after an operation with exact result \<open>x\<close>.\<close>

definition wrapInt :: "nat \<Rightarrow> int \<Rightarrow> int" where
  "wrapInt w x = (x + 2 ^ (w - 1)) mod 2 ^ w - 2 ^ (w - 1)"

lemma wrapInt_id:
  assumes "0 < w" "- (2 ^ (w - 1)) \<le> x" "x < 2 ^ (w - 1)"
  shows "wrapInt w x = x"
proof -
  have "(2 :: int) ^ w = 2 * 2 ^ (w - 1)" using assms(1) by (simp add: power_eq_if)
  then show ?thesis using assms(2,3) by (simp add: wrapInt_def)
qed

lemma wrapInt_range:
  assumes "0 < w"
  shows "- (2 ^ (w - 1)) \<le> wrapInt w x \<and> wrapInt w x < 2 ^ (w - 1)"
proof -
  have "(2 :: int) ^ w = 2 * 2 ^ (w - 1)" using assms by (simp add: power_eq_if)
  moreover have "(x + 2 ^ (w - 1)) mod 2 ^ w < 2 ^ w" by simp
  ultimately show ?thesis unfolding wrapInt_def by (smt (verit) pos_mod_sign zero_less_power)
qed

end
