(* ===== verification/Decimal.thy ===== *)
theory Decimal
  imports Prelude
begin

text \<open>
  The numbers of the chain: \<open>libs/cosmos-sdk/types/int.go\<close> (integers bounded to 255 bits)
  and \<open>libs/cosmos-sdk/types/decimal.go\<close> (fixed-point decimals with 18 places).

  A Go \<open>Int\<close> and the \<open>big.Int\<close> inside a \<open>Dec\<close> are both HOL integers; a decimal \<open>d\<close>
  stands for the rational \<open>d / 10 ^ 18\<close>. An operation that panics returns \<^term>\<open>None\<close>.
  \<open>big.Int\<close>'s \<open>Quo\<close> and \<open>QuoRem\<close> truncate towards zero: they are \<open>sdiv\<close> and \<open>smod\<close>.
\<close>

type_synonym SdkInt = int
type_synonym Dec = int

section \<open>Definitions\<close>

subsection \<open>Bit length of a big integer\<close>

fun bitLenNat :: "nat \<Rightarrow> nat" where
  "bitLenNat n = (if n = 0 then 0 else Suc (bitLenNat (n div 2)))"

declare bitLenNat.simps [simp del]

definition BitLen :: "int \<Rightarrow> nat" where
  "BitLen i = bitLenNat (nat \<bar>i\<bar>)"

definition IsInt64 :: "int \<Rightarrow> bool" where
  "IsInt64 i \<longleftrightarrow> - (2 ^ 63) \<le> i \<and> i < 2 ^ 63"

definition IsUint64 :: "int \<Rightarrow> bool" where
  "IsUint64 i \<longleftrightarrow> 0 \<le> i \<and> i < 2 ^ 64"

subsection \<open>Bounded integers\<close>

definition maxBitLen :: nat where
  "maxBitLen = 255"

definition NewIntFromBigInt :: "int \<Rightarrow> SdkInt option" where
  "NewIntFromBigInt i = (if BitLen i > maxBitLen then None else Some i)"

definition NewIntWithDecimal :: "int \<Rightarrow> int \<Rightarrow> SdkInt option" where
  "NewIntWithDecimal n dec =
     (if dec < 0 then None
      else let i = n * 10 ^ nat dec in if BitLen i > maxBitLen then None else Some i)"

definition IntInt64 :: "SdkInt \<Rightarrow> int option" where
  "IntInt64 i = (if \<not> IsInt64 i then None else Some i)"

definition IntUint64 :: "SdkInt \<Rightarrow> int option" where
  "IntUint64 i = (if \<not> IsUint64 i then None else Some i)"

definition IntAdd :: "SdkInt \<Rightarrow> SdkInt \<Rightarrow> SdkInt option" where
  "IntAdd i i2 = (let res = i + i2 in if BitLen res > maxBitLen then None else Some res)"

definition IntSub :: "SdkInt \<Rightarrow> SdkInt \<Rightarrow> SdkInt option" where
  "IntSub i i2 = (let res = i - i2 in if BitLen res > maxBitLen then None else Some res)"

definition IntMul :: "SdkInt \<Rightarrow> SdkInt \<Rightarrow> SdkInt option" where
  "IntMul i i2 =
     (if int (BitLen i) + int (BitLen i2) - 1 > int maxBitLen then None
      else let res = i * i2 in if BitLen res > maxBitLen then None else Some res)"

definition IntQuo :: "SdkInt \<Rightarrow> SdkInt \<Rightarrow> SdkInt option" where
  "IntQuo i i2 = (if i2 = 0 then None else Some (i sdiv i2))"

text \<open>\<open>big.Int.Mod\<close> is the Euclidean remainder: never negative.\<close>

definition IntMod :: "SdkInt \<Rightarrow> SdkInt \<Rightarrow> SdkInt option" where
  "IntMod i i2 = (if i2 = 0 then None else Some (i mod \<bar>i2\<bar>))"

definition MinInt :: "SdkInt \<Rightarrow> SdkInt \<Rightarrow> SdkInt" where
  "MinInt i i2 = (if i > i2 then i2 else i)"

definition MaxInt :: "SdkInt \<Rightarrow> SdkInt \<Rightarrow> SdkInt" where
  "MaxInt i i2 = (if i < i2 then i2 else i)"

subsection \<open>Decimals\<close>

definition Precision :: nat where
  "Precision = 18"

definition DecimalPrecisionBits :: nat where
  "DecimalPrecisionBits = 60"

definition maxApproxRootIterations :: nat where
  "maxApproxRootIterations = 100"

definition precisionReuse :: int where
  "precisionReuse = 10 ^ Precision"

definition fivePrecision :: int where
  "fivePrecision = precisionReuse sdiv 2"

definition ZeroDec :: Dec where
  "ZeroDec = 0"

definition OneDec :: Dec where
  "OneDec = precisionReuse"

definition SmallestDec :: Dec where
  "SmallestDec = 1"

definition precisionMultiplier :: "int \<Rightarrow> int option" where
  "precisionMultiplier prec =
     (if prec > int Precision then None
      else if prec < 0 then None
      else Some (10 ^ (Precision - nat prec)))"

definition NewDecFromBigIntWithPrec :: "int \<Rightarrow> int \<Rightarrow> Dec option" where
  "NewDecFromBigIntWithPrec i prec = do { m \<leftarrow> precisionMultiplier prec; Some (i * m) }"

definition NewDecWithPrec :: "int \<Rightarrow> int \<Rightarrow> Dec option" where
  "NewDecWithPrec i prec = do { m \<leftarrow> precisionMultiplier prec; Some (i * m) }"

text \<open>With precision 0 the multiplier is \<open>10 ^ 18\<close> and the constructors cannot panic.\<close>

definition NewDec :: "int \<Rightarrow> Dec" where
  "NewDec i = i * precisionReuse"

definition NewDecFromInt :: "SdkInt \<Rightarrow> Dec" where
  "NewDecFromInt i = i * precisionReuse"

definition ToDec :: "SdkInt \<Rightarrow> Dec" where
  "ToDec i = NewDecFromInt i"

definition checkDec :: "int \<Rightarrow> Dec option" where
  "checkDec res = (if BitLen res > 255 + DecimalPrecisionBits then None else Some res)"

definition DecAdd :: "Dec \<Rightarrow> Dec \<Rightarrow> Dec option" where
  "DecAdd d d2 = checkDec (d + d2)"

definition DecSub :: "Dec \<Rightarrow> Dec \<Rightarrow> Dec option" where
  "DecSub d d2 = checkDec (d - d2)"

text \<open>Banker's rounding of the last 18 digits; the negative case recurses on the opposite.\<close>

definition chopRoundNonNeg :: "int \<Rightarrow> int" where
  "chopRoundNonNeg d =
     (let quo = d sdiv precisionReuse; rem = d smod precisionReuse in
      if rem = 0 then quo
      else if rem < fivePrecision then quo
      else if rem > fivePrecision then quo + 1
      else if even quo then quo
      else quo + 1)"

definition chopPrecisionAndRound :: "int \<Rightarrow> int" where
  "chopPrecisionAndRound d = (if d < 0 then - chopRoundNonNeg (- d) else chopRoundNonNeg d)"

definition chopPrecisionAndTruncate :: "int \<Rightarrow> int" where
  "chopPrecisionAndTruncate d = d sdiv precisionReuse"

definition chopPrecisionAndRoundUp :: "int \<Rightarrow> int" where
  "chopPrecisionAndRoundUp d =
     (if d < 0 then - chopPrecisionAndTruncate (- d)
      else let quo = d sdiv precisionReuse; rem = d smod precisionReuse in
           if rem = 0 then quo else quo + 1)"

definition DecMul :: "Dec \<Rightarrow> Dec \<Rightarrow> Dec option" where
  "DecMul d d2 = checkDec (chopPrecisionAndRound (d * d2))"

definition DecMulTruncate :: "Dec \<Rightarrow> Dec \<Rightarrow> Dec option" where
  "DecMulTruncate d d2 = checkDec (chopPrecisionAndTruncate (d * d2))"

definition DecMulInt :: "Dec \<Rightarrow> SdkInt \<Rightarrow> Dec option" where
  "DecMulInt d i = checkDec (d * i)"

definition DecMulInt64 :: "Dec \<Rightarrow> int \<Rightarrow> Dec option" where
  "DecMulInt64 d i = checkDec (d * i)"

definition DecQuo :: "Dec \<Rightarrow> Dec \<Rightarrow> Dec option" where
  "DecQuo d d2 =
     (if d2 = 0 then None
      else checkDec (chopPrecisionAndRound ((d * precisionReuse * precisionReuse) sdiv d2)))"

definition DecQuoTruncate :: "Dec \<Rightarrow> Dec \<Rightarrow> Dec option" where
  "DecQuoTruncate d d2 =
     (if d2 = 0 then None
      else checkDec (chopPrecisionAndTruncate ((d * precisionReuse * precisionReuse) sdiv d2)))"

definition DecQuoRoundUp :: "Dec \<Rightarrow> Dec \<Rightarrow> Dec option" where
  "DecQuoRoundUp d d2 =
     (if d2 = 0 then None
      else checkDec (chopPrecisionAndRoundUp ((d * precisionReuse * precisionReuse) sdiv d2)))"

definition DecQuoInt :: "Dec \<Rightarrow> SdkInt \<Rightarrow> Dec option" where
  "DecQuoInt d i = (if i = 0 then None else Some (d sdiv i))"

definition DecQuoInt64 :: "Dec \<Rightarrow> int \<Rightarrow> Dec option" where
  "DecQuoInt64 d i = (if i = 0 then None else Some (d sdiv i))"

text \<open>\<open>Power\<close>: square and multiply, \<open>i\<close> halves in every round.\<close>

fun powerLoop :: "nat \<Rightarrow> Dec \<Rightarrow> Dec \<Rightarrow> (Dec \<times> Dec) option" where
  "powerLoop i tmp d =
     (if i \<le> 1 then Some (tmp, d)
      else if i mod 2 = 0
      then do { d' \<leftarrow> DecMul d d; powerLoop (i div 2) tmp d' }
      else do { tmp' \<leftarrow> DecMul tmp d; d' \<leftarrow> DecMul d d; powerLoop ((i - 1) div 2) tmp' d' })"

declare powerLoop.simps [simp del]

definition DecPower :: "Dec \<Rightarrow> nat \<Rightarrow> Dec option" where
  "DecPower d n =
     (if n = 0 then Some OneDec
      else do { (tmp, d') \<leftarrow> powerLoop n OneDec d; DecMul d' tmp })"

text \<open>
  The Newton iteration of \<open>ApproxRoot\<close>; the first argument is the number of iterations left.
  \<open>ApproxRoot\<close> recovers from a panic inside it and returns an error, here \<^term>\<open>None\<close>.
\<close>

fun approxRootLoop :: "nat \<Rightarrow> Dec \<Rightarrow> nat \<Rightarrow> Dec \<Rightarrow> Dec \<Rightarrow> Dec option" where
  "approxRootLoop 0 d root guess delta = Some guess"
| "approxRootLoop (Suc n) d root guess delta =
     (if \<bar>delta\<bar> > SmallestDec
      then do {
        prev0 \<leftarrow> DecPower guess (root - 1);
        let prev = (if prev0 = 0 then SmallestDec else prev0);
        q \<leftarrow> DecQuo d prev;
        dlt \<leftarrow> DecSub q guess;
        dlt' \<leftarrow> DecQuoInt dlt (int root);
        guess' \<leftarrow> DecAdd guess dlt';
        approxRootLoop n d root guess' dlt' }
      else Some guess)"

definition approxRootNonNeg :: "Dec \<Rightarrow> nat \<Rightarrow> Dec option" where
  "approxRootNonNeg d root =
     (if root = 1 \<or> d = 0 \<or> d = OneDec then Some d
      else if root = 0 then Some OneDec
      else approxRootLoop maxApproxRootIterations d root OneDec OneDec)"

definition ApproxRoot :: "Dec \<Rightarrow> nat \<Rightarrow> Dec option" where
  "ApproxRoot d root =
     (if d < 0
      then do { d' \<leftarrow> DecMulInt64 d (- 1); r \<leftarrow> approxRootNonNeg d' root; DecMulInt64 r (- 1) }
      else approxRootNonNeg d root)"

definition ApproxSqrt :: "Dec \<Rightarrow> Dec option" where
  "ApproxSqrt d = ApproxRoot d 2"

definition IsInteger :: "Dec \<Rightarrow> bool" where
  "IsInteger d \<longleftrightarrow> d smod precisionReuse = 0"

definition RoundInt64 :: "Dec \<Rightarrow> int option" where
  "RoundInt64 d = (let c = chopPrecisionAndRound d in if \<not> IsInt64 c then None else Some c)"

definition RoundInt :: "Dec \<Rightarrow> SdkInt option" where
  "RoundInt d = NewIntFromBigInt (chopPrecisionAndRound d)"

definition TruncateInt64 :: "Dec \<Rightarrow> int option" where
  "TruncateInt64 d = (let c = chopPrecisionAndTruncate d in if \<not> IsInt64 c then None else Some c)"

definition TruncateInt :: "Dec \<Rightarrow> SdkInt option" where
  "TruncateInt d = NewIntFromBigInt (chopPrecisionAndTruncate d)"

definition TruncateWithPrec :: "Dec \<Rightarrow> int \<Rightarrow> SdkInt option" where
  "TruncateWithPrec d prec =
     do { u \<leftarrow> NewDecWithPrec 1 prec; NewIntFromBigInt (d sdiv u) }"

definition TruncateDec :: "Dec \<Rightarrow> Dec" where
  "TruncateDec d = chopPrecisionAndTruncate d * precisionReuse"

definition Ceil :: "Dec \<Rightarrow> Dec" where
  "Ceil d =
     (let quo = d sdiv precisionReuse; rem = d smod precisionReuse in
      if rem = 0 then quo * precisionReuse
      else if rem < 0 then quo * precisionReuse
      else (quo + 1) * precisionReuse)"

definition MinDec :: "Dec \<Rightarrow> Dec \<Rightarrow> Dec" where
  "MinDec d1 d2 = (if d1 < d2 then d1 else d2)"

definition MaxDec :: "Dec \<Rightarrow> Dec \<Rightarrow> Dec" where
  "MaxDec d1 d2 = (if d1 < d2 then d2 else d1)"

fun DecsEqual :: "Dec list \<Rightarrow> Dec list \<Rightarrow> bool" where
  "DecsEqual [] [] = True"
| "DecsEqual (a # as) (b # bs) = (a = b \<and> DecsEqual as bs)"
| "DecsEqual _ _ = False"

text \<open>
  \<open>RoundDecimal\<close>; Go's \<open>Exp(10, precision)\<close> with a negative exponent and no modulus is 1.
\<close>

definition RoundDecimal :: "Dec \<Rightarrow> int \<Rightarrow> Dec option" where
  "RoundDecimal d precision =
     do { m \<leftarrow> NewIntFromBigInt (if precision < 0 then 1 else 10 ^ nat precision);
          x \<leftarrow> DecMulInt d m;
          r \<leftarrow> RoundInt x;
          DecQuoInt (NewDecFromInt r) m }"


section \<open>Range checks\<close>

lemma bitLenNat_gt: "k < bitLenNat n \<longleftrightarrow> 2 ^ k \<le> n"
proof (induction n arbitrary: k rule: bitLenNat.induct)
  case (1 n)
  show ?case
  proof (cases "n = 0")
    case True
    then show ?thesis by (simp add: bitLenNat.simps)
  next
    case False
    show ?thesis
    proof (cases k)
      case 0
      with False show ?thesis by (simp add: bitLenNat.simps [of n])
    next
      case (Suc k')
      have "(2 ^ k' \<le> n div 2) = (2 ^ Suc k' \<le> n)"
        by (simp add: less_eq_div_iff_mult_less_eq mult.commute)
      with False Suc "1.IH" [OF False, of k'] show ?thesis
        by (simp add: bitLenNat.simps [of n])
    qed
  qed
qed

lemma BitLen_gt: "k < BitLen i \<longleftrightarrow> 2 ^ k \<le> \<bar>i\<bar>"
proof -
  have "k < BitLen i \<longleftrightarrow> 2 ^ k \<le> nat \<bar>i\<bar>"
    by (simp add: BitLen_def bitLenNat_gt)
  also have "\<dots> \<longleftrightarrow> int (2 ^ k) \<le> int (nat \<bar>i\<bar>)"
    by linarith
  also have "\<dots> \<longleftrightarrow> 2 ^ k \<le> \<bar>i\<bar>"
    by simp
  finally show ?thesis .
qed

lemma BitLen_le: "BitLen i \<le> k \<longleftrightarrow> \<bar>i\<bar> < 2 ^ k"
  using BitLen_gt [of k i] by linarith

text \<open>The two magnitude limits: 255 bits for an integer, 315 for a decimal.\<close>

definition intLimit :: int where
  "intLimit = 2 ^ 255"

definition decLimit :: int where
  "decLimit = 2 ^ 315"

lemma intLimit_pos [simp]: "0 < intLimit"
  by (simp add: intLimit_def)

lemma decLimit_pos [simp]: "0 < decLimit"
  by (simp add: decLimit_def)

lemma intLimit_le_decLimit: "intLimit \<le> decLimit"
  by (simp add: intLimit_def decLimit_def)

lemma BitLen_int [simp]: "maxBitLen < BitLen i \<longleftrightarrow> intLimit \<le> \<bar>i\<bar>"
  unfolding BitLen_gt by (simp add: maxBitLen_def intLimit_def)

lemma BitLen_dec [simp]: "255 + DecimalPrecisionBits < BitLen i \<longleftrightarrow> decLimit \<le> \<bar>i\<bar>"
  unfolding BitLen_gt by (simp add: DecimalPrecisionBits_def decLimit_def)

text \<open>Evaluation compares with the limits instead of counting bits.\<close>

lemma limits_code [code]:
  "intLimit = 57896044618658097711785492504343953926634992332820282019728792003956564819968"
  "decLimit = 66749594872528440074844428317798503581334516323645399060845050244444366430645017188217565216768"
  by (simp_all add: intLimit_def decLimit_def)

lemma range_code [code]:
  "checkDec res = (if decLimit \<le> \<bar>res\<bar> then None else Some res)"
  "NewIntFromBigInt i = (if intLimit \<le> \<bar>i\<bar> then None else Some i)"
  "IntAdd i j = (let res = i + j in if intLimit \<le> \<bar>res\<bar> then None else Some res)"
  "IntSub i j = (let res = i - j in if intLimit \<le> \<bar>res\<bar> then None else Some res)"
  by (simp_all add: checkDec_def NewIntFromBigInt_def IntAdd_def IntSub_def del: One_nat_def)

lemma checkDec_Some [simp]: "checkDec x = Some y \<longleftrightarrow> y = x \<and> \<bar>x\<bar> < decLimit"
  unfolding checkDec_def BitLen_dec by auto

lemma NewIntFromBigInt_Some [simp]:
  "NewIntFromBigInt x = Some y \<longleftrightarrow> y = x \<and> \<bar>x\<bar> < intLimit"
  by (auto simp: NewIntFromBigInt_def)

lemma DecAdd_Some [simp]: "DecAdd a b = Some c \<longleftrightarrow> c = a + b \<and> \<bar>a + b\<bar> < decLimit"
  by (simp add: DecAdd_def)

lemma DecSub_Some [simp]: "DecSub a b = Some c \<longleftrightarrow> c = a - b \<and> \<bar>a - b\<bar> < decLimit"
  by (simp add: DecSub_def)

lemma DecMulInt_Some [simp]: "DecMulInt a b = Some c \<longleftrightarrow> c = a * b \<and> \<bar>a * b\<bar> < decLimit"
  by (simp add: DecMulInt_def)

lemma DecQuoInt_Some [simp]: "DecQuoInt a b = Some c \<longleftrightarrow> b \<noteq> 0 \<and> c = a sdiv b"
  by (auto simp: DecQuoInt_def)

lemma DecMul_Some:
  "DecMul a b = Some c \<longleftrightarrow>
     c = chopPrecisionAndRound (a * b) \<and> \<bar>chopPrecisionAndRound (a * b)\<bar> < decLimit"
  by (simp add: DecMul_def)

lemma DecMulTruncate_Some:
  "DecMulTruncate a b = Some c \<longleftrightarrow>
     c = chopPrecisionAndTruncate (a * b) \<and> \<bar>chopPrecisionAndTruncate (a * b)\<bar> < decLimit"
  by (simp add: DecMulTruncate_def)

lemmas dec_Some = DecAdd_Some DecSub_Some DecMul_Some DecMulTruncate_Some DecMulInt_Some
  DecQuoInt_Some

lemma ZeroDec_0 [simp]: "ZeroDec = 0"
  by (simp add: ZeroDec_def)

lemma precisionReuse_pos [simp]: "0 < precisionReuse"
  by (simp add: precisionReuse_def)

lemma precisionReuse_nonneg [simp]: "0 \<le> precisionReuse" "precisionReuse \<noteq> 0"
  by (simp_all add: precisionReuse_def)

lemma precisionReuse_val: "precisionReuse = 1000000000000000000"
  by (simp add: precisionReuse_def Precision_def)

lemma fivePrecision_val: "fivePrecision = 500000000000000000"
  by (simp add: fivePrecision_def precisionReuse_val)

lemma precisionReuse_twice: "precisionReuse = 2 * fivePrecision"
  by (simp add: precisionReuse_val fivePrecision_val)

lemma MinDec_min [simp]: "MinDec a b = min a b"
  by (simp add: MinDec_def min_def)

lemma MaxDec_max [simp]: "MaxDec a b = max a b"
  by (simp add: MaxDec_def max_def)

lemma NewDecWithPrec_0: "NewDecWithPrec i 0 = Some (NewDec i)"
  by (simp add: NewDecWithPrec_def precisionMultiplier_def NewDec_def precisionReuse_def)

lemma NewDecFromBigIntWithPrec_0: "NewDecFromBigIntWithPrec i 0 = Some (NewDecFromInt i)"
  by (simp add: NewDecFromBigIntWithPrec_def precisionMultiplier_def NewDecFromInt_def
      precisionReuse_def)

section \<open>Truncating division\<close>

lemma sdiv_nonneg: "0 \<le> a \<Longrightarrow> 0 < b \<Longrightarrow> a sdiv b = a div (b :: int)"
  by (cases "a = 0") (simp_all add: signed_divide_int_def)

lemma smod_nonneg: "0 \<le> a \<Longrightarrow> 0 < b \<Longrightarrow> a smod b = a mod (b :: int)"
  by (cases "a = 0") (simp_all add: signed_modulo_int_def)

lemma abs_sdiv: "\<bar>a sdiv b\<bar> = \<bar>a\<bar> div \<bar>b :: int\<bar>"
proof -
  have "0 \<le> \<bar>a\<bar> div \<bar>b\<bar>"
    by (cases "b = 0") (simp_all add: pos_imp_zdiv_nonneg_iff)
  then show ?thesis
    by (auto simp: signed_divide_int_def abs_mult abs_sgn_eq)
qed

lemma sdiv_nonneg_sign: "0 \<le> a \<Longrightarrow> 0 \<le> b \<Longrightarrow> 0 \<le> a sdiv (b :: int)"
  by (simp add: signed_divide_int_def sgn_if pos_imp_zdiv_nonneg_iff)


lemma sdiv_abs_bounds:
  assumes "b \<noteq> 0"
  shows "\<bar>a sdiv b\<bar> * \<bar>b\<bar> \<le> \<bar>a\<bar>" and "\<bar>a\<bar> < (\<bar>a sdiv b\<bar> + 1) * \<bar>b :: int\<bar>"
proof -
  let ?q = "\<bar>a\<bar> div \<bar>b\<bar>" and ?r = "\<bar>a\<bar> mod \<bar>b\<bar>"
  have a: "\<bar>a\<bar> = ?q * \<bar>b\<bar> + ?r" by (rule div_mult_mod_eq [symmetric])
  have r: "0 \<le> ?r" "?r < \<bar>b\<bar>" using assms by simp_all
  from a r have "?q * \<bar>b\<bar> \<le> \<bar>a\<bar>" by linarith
  then show "\<bar>a sdiv b\<bar> * \<bar>b\<bar> \<le> \<bar>a\<bar>" by (simp add: abs_sdiv)
  from a r have "\<bar>a\<bar> < ?q * \<bar>b\<bar> + \<bar>b\<bar>" by linarith
  then show "\<bar>a\<bar> < (\<bar>a sdiv b\<bar> + 1) * \<bar>b\<bar>" by (simp add: abs_sdiv distrib_right)
qed

text \<open>Truncating twice is truncating once by the product of the divisors.\<close>

lemma sdiv_sdiv: "0 < c \<Longrightarrow> a sdiv b sdiv c = a sdiv (b * c :: int)"
proof -
  assume c: "0 < c"
  have *: "x div y div c = x div (y * c)" for x y :: int
    using c by (simp add: zdiv_zmult2_eq)
  have "sgn (a sdiv b) * (\<bar>a\<bar> div \<bar>b\<bar> div c) = sgn a * sgn b * (\<bar>a\<bar> div \<bar>b\<bar> div c)"
  proof (cases "\<bar>a\<bar> div \<bar>b\<bar> = 0")
    case True
    then show ?thesis by simp
  next
    case False
    moreover have "0 \<le> \<bar>a\<bar> div \<bar>b\<bar>"
      by (cases "b = 0") (simp_all add: pos_imp_zdiv_nonneg_iff)
    ultimately have "sgn (\<bar>a\<bar> div \<bar>b\<bar>) = 1" by simp
    then show ?thesis by (simp add: signed_divide_int_def sgn_mult)
  qed
  moreover have "(a sdiv b) sdiv c = sgn (a sdiv b) * (\<bar>a\<bar> div \<bar>b\<bar> div c)"
    using c by (simp add: signed_divide_int_def [of "a sdiv b"] abs_sdiv)
  moreover have "a sdiv (b * c) = sgn a * sgn b * (\<bar>a\<bar> div \<bar>b\<bar> div c)"
    using c by (simp add: signed_divide_int_def sgn_mult abs_mult *)
  ultimately show ?thesis by simp
qed

lemma sdiv_mult_cancel: "0 < c \<Longrightarrow> (a * c) sdiv (b * c) = a sdiv (b :: int)"
  by (simp add: signed_divide_int_def sgn_mult abs_mult)

section \<open>Rounding\<close>

text \<open>The reference: nearest multiple, a tie goes to the even one.\<close>

definition halfEven :: "int \<Rightarrow> int \<Rightarrow> bool" where
  "halfEven x q \<longleftrightarrow>
     2 * \<bar>q * precisionReuse - x\<bar> \<le> precisionReuse \<and>
     (2 * \<bar>q * precisionReuse - x\<bar> = precisionReuse \<longrightarrow> even q)"

lemma chopRoundNonNeg_halfEven:
  assumes "0 \<le> x"
  shows "halfEven x (chopRoundNonNeg x)"
proof -
  let ?q = "x div precisionReuse" and ?r = "x mod precisionReuse"
  have x: "x = ?q * precisionReuse + ?r" by (rule div_mult_mod_eq [symmetric])
  have r: "0 \<le> ?r" "?r < precisionReuse" by simp_all
  have q: "x sdiv precisionReuse = ?q" "x smod precisionReuse = ?r"
    using assms by (simp_all add: sdiv_nonneg smod_nonneg)
  have down: "\<bar>?q * precisionReuse - x\<bar> = ?r" using x r by linarith
  have "(?q + 1) * precisionReuse = ?q * precisionReuse + precisionReuse"
    by (simp add: distrib_right)
  with x r have up: "\<bar>(?q + 1) * precisionReuse - x\<bar> = precisionReuse - ?r"
    by linarith
  consider "?r < fivePrecision" | "?r > fivePrecision" | "?r = fivePrecision" by linarith
  then show ?thesis
  proof cases
    case 1
    then have "chopRoundNonNeg x = ?q" by (simp add: chopRoundNonNeg_def Let_def q)
    with 1 down precisionReuse_twice show ?thesis by (simp add: halfEven_def)
  next
    case 2
    with r have "chopRoundNonNeg x = ?q + 1"
      by (simp add: chopRoundNonNeg_def Let_def q fivePrecision_val)
    with 2 up precisionReuse_twice show ?thesis by (simp add: halfEven_def)
  next
    case 3
    have "?r \<noteq> 0" using 3 by (simp add: fivePrecision_val)
    then have "chopRoundNonNeg x = (if even ?q then ?q else ?q + 1)"
      by (simp add: chopRoundNonNeg_def Let_def q 3)
    with 3 down up precisionReuse_twice show ?thesis by (simp add: halfEven_def)
  qed
qed

lemma halfEven_minus: "halfEven (- x) (- q) = halfEven x q"
proof -
  have "\<bar>(- q) * precisionReuse - (- x)\<bar> = \<bar>q * precisionReuse - x\<bar>" by simp
  then show ?thesis by (simp add: halfEven_def)
qed

lemma chopPrecisionAndRound_halfEven: "halfEven x (chopPrecisionAndRound x)"
proof (cases "x < 0")
  case True
  then have "halfEven (- x) (chopRoundNonNeg (- x))"
    by (intro chopRoundNonNeg_halfEven) simp
  then have "halfEven (- (- x)) (- chopRoundNonNeg (- x))"
    by (simp only: halfEven_minus)
  with True show ?thesis by (simp add: chopPrecisionAndRound_def)
next
  case False
  then show ?thesis
    by (simp add: chopPrecisionAndRound_def chopRoundNonNeg_halfEven)
qed

lemma half_sum: "a \<le> b + c \<Longrightarrow> 2 * b \<le> p \<Longrightarrow> 2 * c \<le> p \<Longrightarrow> a \<le> (p :: int)"
  by simp

lemma halfEven_bounds:
  assumes "halfEven x q"
  shows "2 * (q * precisionReuse - x) \<le> precisionReuse"
    and "2 * (x - q * precisionReuse) \<le> precisionReuse"
proof -
  have "e \<le> \<bar>e\<bar> \<and> - e \<le> \<bar>e\<bar>" for e :: int by linarith
  then have "2 * e \<le> p \<and> 2 * (- e) \<le> p" if "2 * \<bar>e\<bar> \<le> p" for e p :: int
    using that by presburger
  from this [of "q * precisionReuse - x" precisionReuse] assms
  show "2 * (q * precisionReuse - x) \<le> precisionReuse"
    and "2 * (x - q * precisionReuse) \<le> precisionReuse"
    by (simp_all add: halfEven_def)
qed

lemma halfEven_unique:
  assumes "halfEven x q" and "halfEven x q'"
  shows "q = q'"
proof -
  let ?P = precisionReuse
  have "\<bar>(q - q') * ?P\<bar> \<le> \<bar>q * ?P - x\<bar> + \<bar>q' * ?P - x\<bar>"
    by (simp add: left_diff_distrib)
  moreover have "2 * \<bar>q * ?P - x\<bar> \<le> ?P" "2 * \<bar>q' * ?P - x\<bar> \<le> ?P"
    using assms by (simp_all add: halfEven_def)
  ultimately have "\<bar>(q - q') * ?P\<bar> \<le> ?P"
    by (rule half_sum)
  then have "\<bar>q - q'\<bar> * ?P \<le> 1 * ?P"
    by (simp add: abs_mult)
  then have "\<bar>q - q'\<bar> \<le> 1"
    by (rule mult_right_le_imp_le) simp
  moreover have "q = q'" if d: "\<bar>q - q'\<bar> = 1"
  proof -
    from d have "\<bar>(q - q') * ?P\<bar> = ?P" by (simp add: abs_mult)
    then have "?P \<le> \<bar>q * ?P - x\<bar> + \<bar>q' * ?P - x\<bar>"
      by (simp add: left_diff_distrib)
    moreover have "2 * \<bar>q * ?P - x\<bar> \<le> ?P" "2 * \<bar>q' * ?P - x\<bar> \<le> ?P"
      using assms by (simp_all add: halfEven_def)
    moreover have "2 * b = p \<and> 2 * c = p" if "p \<le> b + c" "2 * b \<le> p" "2 * c \<le> p"
      for b c p :: int using that by arith
    ultimately have "2 * \<bar>q * ?P - x\<bar> = ?P" "2 * \<bar>q' * ?P - x\<bar> = ?P"
      by blast+
    with assms have "even q" "even q'" by (simp_all add: halfEven_def)
    with d show ?thesis by presburger
  qed
  ultimately show ?thesis by linarith
qed

lemma chopPrecisionAndRound_eq: "halfEven x q \<Longrightarrow> chopPrecisionAndRound x = q"
  by (rule halfEven_unique [OF chopPrecisionAndRound_halfEven])

lemma chopPrecisionAndRound_exact [simp]: "chopPrecisionAndRound (q * precisionReuse) = q"
  by (rule chopPrecisionAndRound_eq) (simp add: halfEven_def)

lemma chopPrecisionAndRound_nonneg: "0 \<le> x \<Longrightarrow> 0 \<le> chopPrecisionAndRound x"
  using sdiv_nonneg_sign [of x precisionReuse]
  by (simp add: chopPrecisionAndRound_def chopRoundNonNeg_def Let_def)

lemma chopPrecisionAndRound_minus:
  "chopPrecisionAndRound (- x) = - chopPrecisionAndRound x"
  by (rule chopPrecisionAndRound_eq) (simp add: halfEven_minus chopPrecisionAndRound_halfEven)

lemma gap_antisym:
  "x \<le> y \<Longrightarrow> 2 * (y - q) \<le> P \<Longrightarrow> 2 * (p - x) \<le> P \<Longrightarrow> q + P \<le> p \<Longrightarrow> x = y"
  for x y q p P :: int
  by presburger

lemma chopPrecisionAndRound_mono:
  assumes "x \<le> y"
  shows "chopPrecisionAndRound x \<le> chopPrecisionAndRound y"
proof (rule ccontr)
  let ?P = precisionReuse and ?p = "chopPrecisionAndRound x" and ?q = "chopPrecisionAndRound y"
  assume "\<not> ?p \<le> ?q"
  then have "(?q + 1) * ?P \<le> ?p * ?P" by (intro mult_right_mono) simp_all
  then have gap: "?q * ?P + ?P \<le> ?p * ?P" by (simp add: algebra_simps)
  have hx: "halfEven x ?p" and hy: "halfEven y ?q"
    by (rule chopPrecisionAndRound_halfEven)+
  from gap_antisym [OF assms halfEven_bounds(2) [OF hy] halfEven_bounds(1) [OF hx] gap]
  have "x = y" .
  with \<open>\<not> ?p \<le> ?q\<close> show False by simp
qed

lemma sdiv_error: "b \<noteq> 0 \<Longrightarrow> \<bar>a sdiv b * b - a\<bar> < \<bar>b :: int\<bar>"
proof -
  assume b: "b \<noteq> 0"
  have "a sdiv b * b - a = - (a smod b)" using sdiv_mult_smod_eq [of a b] by linarith
  then show ?thesis using smod_int_range [OF b, of a] by auto
qed

subsection \<open>Products\<close>

text \<open>
  C25. \<open>Dec.Mul\<close> returns \<open>c\<close> exactly when \<open>c\<close> is the exact product rounded half-even to 18 places
  and has at most 315 bits; otherwise it panics.
\<close>

theorem DecMul_halfEven: "DecMul a b = Some c \<longleftrightarrow> halfEven (a * b) c \<and> \<bar>c\<bar> < decLimit"
  by (auto simp: DecMul_Some chopPrecisionAndRound_halfEven dest: chopPrecisionAndRound_eq)

lemma DecQuoTruncate_exact:
  "b \<noteq> 0 \<Longrightarrow> DecQuoTruncate a b = checkDec ((a * precisionReuse) sdiv b)"
proof -
  assume b: "b \<noteq> 0"
  have "(a * precisionReuse * precisionReuse) sdiv b sdiv precisionReuse
      = (a * precisionReuse * precisionReuse) sdiv (b * precisionReuse)"
    by (simp add: sdiv_sdiv)
  also have "\<dots> = (a * precisionReuse) sdiv b" by (simp add: sdiv_mult_cancel)
  finally show ?thesis using b by (simp add: DecQuoTruncate_def chopPrecisionAndTruncate_def)
qed

text \<open>
  C26. \<open>Dec.QuoTruncate\<close> truncates the exact quotient towards zero although it divides twice:
  its result \<open>c\<close> satisfies \<open>|c| \<cdot> |b| \<le> |a| \<cdot> 10^18 < (|c| + 1) \<cdot> |b|\<close>, and it is the floor of the
  quotient for arguments of positive sign.
\<close>

theorem DecQuoTruncate_bounds:
  assumes "DecQuoTruncate a b = Some c"
  shows "\<bar>c\<bar> * \<bar>b\<bar> \<le> \<bar>a\<bar> * precisionReuse \<and> \<bar>a\<bar> * precisionReuse < (\<bar>c\<bar> + 1) * \<bar>b\<bar>
    \<and> (0 \<le> a \<and> 0 < b \<longrightarrow> c = a * precisionReuse div b)"
proof -
  from assms have b: "b \<noteq> 0" by (auto simp: DecQuoTruncate_def)
  with assms have c: "c = (a * precisionReuse) sdiv b" by (simp add: DecQuoTruncate_exact)
  then show ?thesis
    using sdiv_abs_bounds [OF b, of "a * precisionReuse"]
    by (simp add: abs_mult sdiv_nonneg)
qed

theorem DecQuoTruncate_bounds_witness:
  "DecQuoTruncate (NewDec 2) (NewDec 3) = Some 666666666666666666 \<and>
   (666666666666666666 :: int) = NewDec 2 * precisionReuse div NewDec 3"
proof -
  have *: "DecQuoTruncate (NewDec 2) (NewDec 3) = Some 666666666666666666"
    by (simp add: DecQuoTruncate_exact NewDec_def precisionReuse_val decLimit_def sdiv_nonneg)
  from DecQuoTruncate_bounds [OF *] * show ?thesis by (simp add: NewDec_def)
qed

text \<open>
  C27. \<open>Dec.Quo\<close> truncates to 36 places and then rounds half-even to 18: its error is below half a
  unit of the last place plus one unit of the 36th.
\<close>

theorem DecQuo_error:
  assumes "DecQuo a b = Some c"
  shows "2 * \<bar>c * b - a * precisionReuse\<bar> * precisionReuse < \<bar>b\<bar> * (precisionReuse + 2)"
proof -
  let ?P = precisionReuse and ?t = "(a * precisionReuse * precisionReuse) sdiv b"
  from assms have b: "b \<noteq> 0" and c: "c = chopPrecisionAndRound ?t"
    by (auto simp: DecQuo_def split: if_splits)
  have "2 * \<bar>c * ?P - ?t\<bar> \<le> ?P"
    using chopPrecisionAndRound_halfEven [of ?t] by (simp add: halfEven_def c)
  then have 1: "2 * \<bar>(c * ?P - ?t) * b\<bar> \<le> \<bar>b\<bar> * ?P"
    using b by (simp add: abs_mult)
  have 2: "\<bar>?t * b - a * ?P * ?P\<bar> < \<bar>b\<bar>"
    using b by (rule sdiv_error)
  have "(c * b - a * ?P) * ?P = (c * ?P - ?t) * b + (?t * b - a * ?P * ?P)"
    by (simp add: algebra_simps)
  then have "\<bar>c * b - a * ?P\<bar> * ?P \<le> \<bar>(c * ?P - ?t) * b\<bar> + \<bar>?t * b - a * ?P * ?P\<bar>"
    by (metis abs_mult abs_of_pos abs_triangle_ineq precisionReuse_pos)
  with 1 2 show ?thesis by (simp add: distrib_left)
qed

theorem DecQuo_error_witness:
  "DecQuo (NewDec 2) (NewDec 3) = Some 666666666666666667 \<and>
   2 * \<bar>666666666666666667 * NewDec 3 - NewDec 2 * precisionReuse\<bar> * precisionReuse
     < \<bar>NewDec 3\<bar> * (precisionReuse + 2)"
proof -
  have *: "DecQuo (NewDec 2) (NewDec 3) = Some 666666666666666667"
    by (simp add: DecQuo_def NewDec_def precisionReuse_val decLimit_def sdiv_nonneg
        chopPrecisionAndRound_def chopRoundNonNeg_def smod_nonneg fivePrecision_val)
  from DecQuo_error [OF *] * show ?thesis by simp
qed

subsection \<open>Integer products, ceilings and powers\<close>

lemma BitLen_lower: "a \<noteq> 0 \<Longrightarrow> 2 ^ (BitLen a - 1) \<le> \<bar>a\<bar> \<and> 0 < BitLen a"
  using BitLen_gt [of 0 a] BitLen_gt [of "BitLen a - 1" a] by auto

lemma IntMul_precheck:
  assumes "a \<noteq> 0" "b \<noteq> 0" "int (BitLen a) + int (BitLen b) - 1 > int maxBitLen"
  shows "intLimit \<le> \<bar>a * b\<bar>"
proof -
  have "(2::int) ^ (BitLen a - 1) * 2 ^ (BitLen b - 1) \<le> \<bar>a\<bar> * \<bar>b\<bar>"
    using BitLen_lower assms(1,2) by (intro mult_mono) auto
  moreover have "255 \<le> (BitLen a - 1) + (BitLen b - 1)"
    using assms BitLen_lower [of a] BitLen_lower [of b] by (auto simp: maxBitLen_def)
  then have "(2::int) ^ 255 \<le> 2 ^ ((BitLen a - 1) + (BitLen b - 1))"
    by (rule power_increasing) simp
  ultimately show ?thesis by (simp add: intLimit_def power_add abs_mult)
qed

lemma BitLen_0 [simp]: "BitLen 0 = 0"
  by (simp add: BitLen_def bitLenNat.simps)

text \<open>
  C28. \<open>Int.Mul\<close> on valid integers (at most 255 bits) panics exactly when the product needs more
  than 255 bits: the bit-length test it makes before multiplying never rejects a product that fits,
  and otherwise the exact product is returned.
\<close>

theorem IntMul_exact:
  assumes "\<bar>a\<bar> < intLimit" "\<bar>b\<bar> < intLimit"
  shows "IntMul a b = (if \<bar>a * b\<bar> < intLimit then Some (a * b) else None)"
proof (cases "a = 0 \<or> b = 0")
  case True
  have "BitLen a \<le> maxBitLen" "BitLen b \<le> maxBitLen"
    using assms BitLen_int [of a] BitLen_int [of b] by linarith+
  with True show ?thesis by (auto simp: IntMul_def Let_def)
next
  case False
  then show ?thesis
    using IntMul_precheck [of a b] by (auto simp: IntMul_def Let_def)
qed

theorem IntMul_exact_witness:
  "\<bar>3 :: int\<bar> < intLimit \<and> \<bar>- 5 :: int\<bar> < intLimit \<and> IntMul 3 (- 5) = Some (- 15)"
  using IntMul_exact [of 3 "- 5"] by (simp add: intLimit_def)

text \<open>
  C29. \<open>Dec.Ceil\<close> returns the smallest whole decimal that is not below its argument, for negative
  arguments too.
\<close>

theorem Ceil_least: "IsInteger (Ceil d) \<and> d \<le> Ceil d \<and> Ceil d < d + precisionReuse"
proof -
  let ?P = precisionReuse
  have r: "- ?P < d smod ?P" "d smod ?P < ?P"
    using smod_int_range [of ?P d] by auto
  have d: "d sdiv ?P * ?P + d smod ?P = d" by (rule sdiv_mult_smod_eq)
  have "(x * ?P) smod ?P = 0" for x
    by (simp add: signed_modulo_int_def)
  then have "IsInteger (Ceil d)" by (simp add: IsInteger_def Ceil_def Let_def)
  moreover have "d \<le> Ceil d \<and> Ceil d < d + ?P"
    using d r by (auto simp: Ceil_def Let_def distrib_right)
  ultimately show ?thesis by simp
qed

lemma chop_NewDec [simp]: "chopPrecisionAndRound (NewDec a * NewDec b) = NewDec (a * b)"
  by (rule chopPrecisionAndRound_eq) (simp add: NewDec_def halfEven_def)

lemma DecMul_NewDec [simp]:
  "DecMul (NewDec a) (NewDec b) = (if \<bar>NewDec (a * b)\<bar> < decLimit then Some (NewDec (a * b)) else None)"
  by (simp add: DecMul_def checkDec_def BitLen_dec del: One_nat_def)

lemma abs_power_le:
  fixes k :: int
  assumes "m \<le> n" "k \<noteq> 0" 
  shows "\<bar>k ^ m\<bar> \<le> \<bar>k ^ n\<bar>"
  using assms by (auto simp: power_abs intro: power_increasing)

lemma powerLoop_whole:
  assumes "0 < i" "k \<noteq> 0" "\<bar>NewDec (t * k ^ i)\<bar> < decLimit" "t \<noteq> 0"
  shows "\<exists>t' k'. powerLoop i (NewDec t) (NewDec k) = Some (NewDec t', NewDec k') \<and>
    k' * t' = t * k ^ i"
  using assms
proof (induction i arbitrary: t k rule: less_induct)
  case (less i)
  have mono: "\<bar>NewDec x\<bar> < decLimit" if "\<bar>x\<bar> \<le> \<bar>t * k ^ i\<bar>" for x
  proof -
    from that have "\<bar>x\<bar> * precisionReuse \<le> \<bar>t * k ^ i\<bar> * precisionReuse"
      by (rule mult_right_mono) simp
    also have "\<dots> < decLimit" using less.prems(3) by (simp add: NewDec_def abs_mult)
    finally show ?thesis by (simp add: NewDec_def abs_mult)
  qed
  have t1: "1 \<le> \<bar>t\<bar>" using less.prems by simp
  consider "i = 1" | j where "i = 2 * j" "0 < j" | j where "i = 2 * j + 1" "0 < j"
    using less.prems(1) by (metis One_nat_def add.commute add_cancel_left_right bot_nat_0.not_eq_extremum oddE evenE mult_0_right plus_1_eq_Suc)
  then show ?case
  proof cases
    case 1
    then have "powerLoop i (NewDec t) (NewDec k) = Some (NewDec t, NewDec k)"
      by (simp add: powerLoop.simps)
    then have "\<exists>k'. powerLoop i (NewDec t) (NewDec k) = Some (NewDec t, NewDec k') \<and>
        k' * t = t * k ^ i"
      using 1 by (intro exI [of _ k]) simp
    then show ?thesis by blast
  next
    case (2 j)
    then have "\<bar>k ^ 2\<bar> \<le> \<bar>k ^ i\<bar>" using less.prems by (intro abs_power_le) auto
    then have "1 * \<bar>k ^ 2\<bar> \<le> \<bar>t\<bar> * \<bar>k ^ i\<bar>" using t1 by (intro mult_mono) auto
    then have sq: "\<bar>NewDec (k * k)\<bar> < decLimit" by (intro mono) (simp add: abs_mult power2_eq_square)
    have e: "t * (k * k) ^ j = t * k ^ i" by (simp add: 2 power_mult power2_eq_square)
    have "\<exists>t' k'. powerLoop j (NewDec t) (NewDec (k * k)) = Some (NewDec t', NewDec k') \<and>
        k' * t' = t * (k * k) ^ j"
      using less.prems 2 e by (intro less.IH) auto
    moreover have "powerLoop i (NewDec t) (NewDec k) = powerLoop j (NewDec t) (NewDec (k * k))"
      using 2 sq by (subst powerLoop.simps) simp
    ultimately show ?thesis by (simp only: e)
  next
    case (3 j)
    then have "\<bar>k ^ 2\<bar> \<le> \<bar>k ^ i\<bar>" "\<bar>k ^ 1\<bar> \<le> \<bar>k ^ i\<bar>"
      using less.prems by (intro abs_power_le; simp)+
    then have "1 * \<bar>k ^ 2\<bar> \<le> \<bar>t\<bar> * \<bar>k ^ i\<bar>" "\<bar>t\<bar> * \<bar>k ^ 1\<bar> \<le> \<bar>t\<bar> * \<bar>k ^ i\<bar>"
      using t1 by (intro mult_mono; simp)+
    then have sq: "\<bar>NewDec (k * k)\<bar> < decLimit" and tk: "\<bar>NewDec (t * k)\<bar> < decLimit"
      by (auto intro!: mono simp: abs_mult power2_eq_square)
    have e: "(t * k) * (k * k) ^ j = t * k ^ i"
      by (simp add: 3 power_mult power2_eq_square)
    from less.prems(3) have lim: "\<bar>NewDec ((t * k) * (k * k) ^ j)\<bar> < decLimit"
      by (simp only: e)
    have "\<exists>t' k'. powerLoop j (NewDec (t * k)) (NewDec (k * k)) = Some (NewDec t', NewDec k') \<and>
        k' * t' = (t * k) * (k * k) ^ j"
      using less.prems 3 lim by (intro less.IH) auto
    moreover have "powerLoop i (NewDec t) (NewDec k) =
        powerLoop j (NewDec (t * k)) (NewDec (k * k))"
      using 3 sq tk by (subst powerLoop.simps) simp
    ultimately show ?thesis by (simp only: e)
  qed
qed

lemma powerLoop_zero: "0 < i \<Longrightarrow> \<bar>t\<bar> < decLimit \<Longrightarrow> \<exists>t'. powerLoop i t 0 = Some (t', 0)"
proof (induction i arbitrary: t rule: less_induct)
  case (less i)
  have z: "DecMul x 0 = Some 0" for x
    using DecMul_NewDec [of 0 0] by (simp add: DecMul_def NewDec_def checkDec_def)
  have "0 < (i - 1) div 2 \<and> (i - 1) div 2 < i" if "i mod 2 \<noteq> 0" "\<not> i \<le> 1"
    using that by presburger
  then show ?case
    using less.IH [of "i div 2" t] less.IH [of "(i - 1) div 2" 0] less.prems
    by (auto simp: powerLoop.simps [of i] z)
qed

text \<open>
  C30. \<open>Dec.Power\<close> (square and multiply, rounding after every product) computes the exact power of
  a whole decimal whenever that power is representable: no intermediate product is rounded or
  overflows.
\<close>

theorem DecPower_whole:
  assumes "\<bar>NewDec (k ^ n)\<bar> < decLimit"
  shows "DecPower (NewDec k) n = Some (NewDec (k ^ n))"
proof -
  have one: "OneDec = NewDec 1" by (simp add: OneDec_def NewDec_def)
  consider "n = 0" | "0 < n" "k \<noteq> 0" | "0 < n" "k = 0" by auto
  then show ?thesis
  proof cases
    case 1
    then show ?thesis by (simp add: DecPower_def one)
  next
    case 2
    with assms powerLoop_whole [of n k 1] obtain t' k' where
      "powerLoop n OneDec (NewDec k) = Some (NewDec t', NewDec k')" "k' * t' = k ^ n"
      by (auto simp: one)
    with 2 assms show ?thesis by (simp add: DecPower_def)
  next
    case 3
    have "\<bar>OneDec\<bar> < decLimit" by (simp add: OneDec_def precisionReuse_val decLimit_def)
    with 3 powerLoop_zero obtain t' where "powerLoop n OneDec 0 = Some (t', 0)" by blast
    with 3 show ?thesis
      by (simp add: DecPower_def NewDec_def DecMul_def chopPrecisionAndRound_def
          chopRoundNonNeg_def checkDec_def not_le)
  qed
qed

theorem DecPower_whole_witness:
  "\<bar>NewDec ((- 3) ^ 5)\<bar> < decLimit \<and> DecPower (NewDec (- 3)) 5 = Some (NewDec (- 243))"
proof -
  have "\<bar>NewDec ((- 3) ^ 5)\<bar> < decLimit"
    by (simp add: NewDec_def precisionReuse_val decLimit_def)
  with DecPower_whole [of "- 3" 5] show ?thesis by simp
qed

subsection \<open>Quotients\<close>

lemma int_div_less:
  fixes x b P :: int
  assumes "0 < b" "x < b * P"
  shows "x div b < P"
proof (rule ccontr)
  assume "\<not> x div b < P"
  then have "b * P \<le> b * (x div b)" using assms by simp
  moreover have "b * (x div b) + x mod b = x" "0 \<le> x mod b" using assms by simp_all
  ultimately show False using assms by linarith
qed

lemma QuoRoundUp_div:
  fixes a b P :: int
  assumes "0 < b" "b \<le> P"
  shows "(if (a * P div b) mod P = 0 then a * P div b div P else a * P div b div P + 1)
    = (if a mod b = 0 then a div b else a div b + 1)"
proof -
  let ?q = "a div b" and ?r = "a mod b"
  have a: "a = ?q * b + ?r" by (rule div_mult_mod_eq [symmetric])
  have r: "0 \<le> ?r" "?r < b" using assms by simp_all
  have "a * P = (?q * b + ?r) * P" by (simp only: div_mult_mod_eq)
  also have "\<dots> = (?q * P) * b + ?r * P" by (simp only: algebra_simps)
  finally have t: "a * P div b = ?q * P + ?r * P div b" using assms by simp
  have "?r * P < b * P" using r assms by (intro mult_strict_right_mono) auto
  with assms(1) have lt: "?r * P div b < P" by (rule int_div_less)
  have ge: "0 \<le> ?r * P div b" using r assms by (simp add: pos_imp_zdiv_nonneg_iff)
  have "?r * P div b = 0 \<longleftrightarrow> ?r = 0"
  proof
    assume "?r * P div b = 0"
    then have "?r * P = (?r * P) mod b" using div_mult_mod_eq [of "?r * P" b] by simp
    also have "\<dots> < b" using assms by simp
    finally have "?r * P < b" .
    moreover have "1 * P \<le> ?r * P" if "1 \<le> ?r" using that assms by (intro mult_right_mono) auto
    ultimately show "?r = 0" using assms r by linarith
  qed simp
  moreover have "(a * P div b) mod P = ?r * P div b" "a * P div b div P = ?q"
    using lt ge assms by (simp_all add: t)
  ultimately show ?thesis by simp
qed



end
