(* ===== verification/DecString.thy ===== *)
theory DecString
  imports Decimal
begin

text \<open>
  Printing and parsing decimals: \<open>Dec.String\<close>, \<open>NewDecFromStr\<close> and \<open>SortableDecBytes\<close> of
  \<open>libs/cosmos-sdk/types/decimal.go\<close>. Strings are lists of bytes; \<open>big.Int.MarshalText\<close> and
  \<open>big.Int.SetString\<close> (base 10: an optional sign and at least one digit) belong to the Go
  library and are written out as \<open>natText\<close> and \<open>SetString\<close>.
\<close>

section \<open>Definitions\<close>

definition isDigit :: "char \<Rightarrow> bool" where
  "isDigit c \<longleftrightarrow> 48 \<le> (of_char c :: nat) \<and> (of_char c :: nat) \<le> 57"

definition digitChar :: "nat \<Rightarrow> char" where
  "digitChar k = char_of (48 + k)"

definition digitVal :: "char \<Rightarrow> nat" where
  "digitVal c = of_char c - 48"

fun natText :: "nat \<Rightarrow> string" where
  "natText n = (if n < 10 then [digitChar n] else natText (n div 10) @ [digitChar (n mod 10)])"

declare natText.simps [simp del]

definition digitsVal :: "string \<Rightarrow> nat" where
  "digitsVal s = foldl (\<lambda>a c. 10 * a + digitVal c) 0 s"

definition SetUnsigned :: "string \<Rightarrow> int option" where
  "SetUnsigned s = (if s \<noteq> [] \<and> list_all isDigit s then Some (int (digitsVal s)) else None)"

definition SetString :: "string \<Rightarrow> int option" where
  "SetString s =
     (case s of
        [] \<Rightarrow> None
      | c # cs \<Rightarrow>
          if c = CHR ''-'' then map_option uminus (SetUnsigned cs)
          else if c = CHR ''+'' then SetUnsigned cs
          else SetUnsigned s)"

text \<open>\<open>strings.Split\<close> with a separator of one byte.\<close>

fun splitOn :: "char \<Rightarrow> string \<Rightarrow> string list" where
  "splitOn c [] = [[]]"
| "splitOn c (x # xs) =
     (if x = c then [] # splitOn c xs
      else case splitOn c xs of [] \<Rightarrow> [[x]] | w # ws \<Rightarrow> (x # w) # ws)"

definition decimalPoint :: char where
  "decimalPoint = CHR ''.''"

definition DecToString :: "Dec \<Rightarrow> string" where
  "DecToString d =
     (let bzInt = natText (nat \<bar>d\<bar>); inputSize = length bzInt;
          bzStr =
            (if inputSize \<le> Precision
             then [CHR ''0'', decimalPoint] @ replicate (Precision - inputSize) (CHR ''0'') @ bzInt
             else take (inputSize - Precision) bzInt @ [decimalPoint] @ drop (inputSize - Precision) bzInt)
      in if d < 0 then CHR ''-'' # bzStr else bzStr)"

datatype DecError =
  ErrEmptyDecimalStr | ErrInvalidDecimalLength | ErrInvalidDecimalStr |
  ErrInvalidPrecision | ErrSetString | ErrOutOfRange

text \<open>The part of \<open>NewDecFromStr\<close> after the sign and the split at the decimal point.\<close>

definition combineDec :: "bool \<Rightarrow> string \<Rightarrow> nat \<Rightarrow> DecError + Dec" where
  "combineDec neg combinedStr lenDecs =
     (if lenDecs > Precision then Inl ErrInvalidPrecision
      else case SetString (combinedStr @ replicate (Precision - lenDecs) (CHR ''0'')) of
        None \<Rightarrow> Inl ErrSetString
      | Some combined \<Rightarrow>
          if BitLen combined > maxBitLen then Inl ErrOutOfRange
          else Inr (if neg then - combined else combined))"

definition NewDecFromStr :: "string \<Rightarrow> DecError + Dec" where
  "NewDecFromStr str0 =
     (if str0 = [] then Inl ErrEmptyDecimalStr
      else let neg = (hd str0 = CHR ''-''); str = (if neg then tl str0 else str0) in
        if str = [] then Inl ErrEmptyDecimalStr
        else case splitOn decimalPoint str of
          [a] \<Rightarrow> combineDec neg a 0
        | [a, b] \<Rightarrow>
            if length b = 0 \<or> length a = 0 then Inl ErrInvalidDecimalLength
            else combineDec neg (a @ b) (length b)
        | _ \<Rightarrow> Inl ErrInvalidDecimalStr)"

text \<open>\<open>MaxSortableDec\<close> is \<open>OneDec().Quo(SmallestDec())\<close>.\<close>

definition MaxSortableDec :: Dec where
  "MaxSortableDec = precisionReuse * precisionReuse"

definition ValidSortableDec :: "Dec \<Rightarrow> bool" where
  "ValidSortableDec dec \<longleftrightarrow> \<bar>dec\<bar> \<le> MaxSortableDec"

definition padLeft :: "nat \<Rightarrow> string \<Rightarrow> string" where
  "padLeft w s = replicate (w - length s) (CHR ''0'') @ s"

definition SortableDecBytes :: "Dec \<Rightarrow> string option" where
  "SortableDecBytes dec =
     (if \<not> ValidSortableDec dec then None
      else if dec = MaxSortableDec then Some ''max''
      else if dec = - MaxSortableDec then Some ''--''
      else if dec < 0 then Some (CHR ''-'' # padLeft (Precision * 2 + 1) (DecToString \<bar>dec\<bar>))
      else Some (padLeft (Precision * 2 + 1) (DecToString dec)))"


section \<open>Digits\<close>

lemma of_char_digitChar: "k < 10 \<Longrightarrow> (of_char (digitChar k) :: nat) = 48 + k"
  by (simp add: digitChar_def)

lemma isDigit_digitChar [simp]: "k < 10 \<Longrightarrow> isDigit (digitChar k)"
  by (simp add: isDigit_def of_char_digitChar)

lemma digitVal_digitChar [simp]: "k < 10 \<Longrightarrow> digitVal (digitChar k) = k"
  by (simp add: digitVal_def of_char_digitChar)

lemma isDigit_zero [simp]: "isDigit (CHR ''0'')" "digitVal (CHR ''0'') = 0"
  by (simp_all add: isDigit_def digitVal_def)

lemma not_isDigit [simp]:
  "\<not> isDigit decimalPoint" "\<not> isDigit (CHR ''-'')" "\<not> isDigit (CHR ''+'')"
  by (simp_all add: isDigit_def decimalPoint_def)

lemma natText_digits: "c \<in> set (natText n) \<Longrightarrow> isDigit c"
proof (induction n rule: natText.induct)
  case (1 n)
  then show ?case by (cases "n < 10") (auto simp: natText.simps [of n])
qed

lemma natText_not_Nil [simp]: "natText n \<noteq> []"
  by (simp add: natText.simps [of n])

lemma digitsVal_append:
  "foldl (\<lambda>a c. 10 * a + digitVal c) 0 (s @ [c]) = 10 * digitsVal s + digitVal c"
  by (simp add: digitsVal_def)

lemma digitsVal_natText [simp]: "digitsVal (natText n) = n"
proof (induction n rule: natText.induct)
  case (1 n)
  show ?case
  proof (cases "n < 10")
    case True
    then show ?thesis by (simp add: natText.simps [of n] digitsVal_def)
  next
    case False
    with 1 have "digitsVal (natText n) = 10 * (n div 10) + n mod 10"
      by (subst natText.simps) (simp add: digitsVal_def)
    then show ?thesis by simp
  qed
qed

lemma digitsVal_zeros [simp]: "digitsVal (replicate k (CHR ''0'') @ s) = digitsVal s"
proof -
  have "foldl (\<lambda>a c. 10 * a + digitVal c) 0 (replicate k (CHR ''0'')) = 0"
    by (induction k) simp_all
  then show ?thesis by (simp add: digitsVal_def)
qed

lemma splitOn_absent: "c \<notin> set s \<Longrightarrow> splitOn c s = [s]"
  by (induction s) auto

lemma splitOn_append: "c \<notin> set a \<Longrightarrow> splitOn c (a @ c # b) = a # splitOn c b"
  by (induction a) auto

section \<open>Round trip\<close>

text \<open>The printed decimal is an integer part and 18 fractional digits around one point.\<close>

lemma DecToString_shape:
  obtains a b where "DecToString d = (if d < 0 then CHR ''-'' # a @ decimalPoint # b else a @ decimalPoint # b)"
    and "a \<noteq> []" "length b = Precision" "list_all isDigit (a @ b)"
    and "digitsVal (a @ b) = nat \<bar>d\<bar>"
proof -
  define t where "t = natText (nat \<bar>d\<bar>)"
  note str = DecToString_def [of d, folded t_def, unfolded Let_def]
  have dig: "list_all isDigit t" "digitsVal t = nat \<bar>d\<bar>" "t \<noteq> []"
    by (simp_all add: list_all_iff natText_digits t_def)
  show thesis
  proof (cases "length t \<le> Precision")
    case True
    let ?z = "replicate (Precision - length t) (CHR ''0'')"
    have "digitsVal ([CHR ''0''] @ ?z @ t) = nat \<bar>d\<bar>"
      using digitsVal_zeros [of "Suc (Precision - length t)" t] dig by simp
    moreover have "list_all isDigit ([CHR ''0''] @ ?z @ t)" using dig by (auto simp: list_all_iff)
    ultimately show thesis
      using True str by (intro that [of "[CHR ''0'']" "?z @ t"]) simp_all
  next
    case False
    let ?k = "length t - Precision"
    have "list_all isDigit (take ?k t @ drop ?k t)" using dig by simp
    with False dig str show thesis by (intro that [of "take ?k t" "drop ?k t"]) simp_all
  qed
qed

lemma digits_no_point: "list_all isDigit s \<Longrightarrow> decimalPoint \<notin> set s"
  by (auto simp: list_all_iff)

lemma SetString_digits:
  assumes "s \<noteq> []" "list_all isDigit s"
  shows "SetString s = Some (int (digitsVal s))"
proof -
  obtain c cs where s: "s = c # cs" using assms(1) by (cases s) auto
  with assms(2) have "isDigit c" by simp
  then have "c \<noteq> CHR ''-''" "c \<noteq> CHR ''+''" using not_isDigit by metis+
  with assms s show ?thesis by (simp add: SetString_def SetUnsigned_def)
qed

lemma NewDecFromStr_split:
  assumes "a \<noteq> []" "b \<noteq> []" "list_all isDigit (a @ b)"
  shows "NewDecFromStr (if neg then CHR ''-'' # a @ decimalPoint # b else a @ decimalPoint # b)
    = combineDec neg (a @ b) (length b)"
proof -
  have h: "hd (a @ decimalPoint # b) \<noteq> CHR ''-''"
    using assms(1,3) not_isDigit(2) by (cases a) auto
  have "splitOn decimalPoint (a @ decimalPoint # b) = [a, b]"
    using digits_no_point [OF assms(3)] by (simp add: splitOn_append splitOn_absent)
  with h assms(1,2) show ?thesis
    by (simp add: NewDecFromStr_def Let_def)
qed

lemma NewDecFromStr_print:
  "NewDecFromStr (DecToString d) = (if \<bar>d\<bar> < 2 ^ 255 then Inr d else Inl ErrOutOfRange)"
proof -
  obtain a b where ab:
    "DecToString d = (if d < 0 then CHR ''-'' # a @ decimalPoint # b else a @ decimalPoint # b)"
    "a \<noteq> []" "length b = Precision" "list_all isDigit (a @ b)" "digitsVal (a @ b) = nat \<bar>d\<bar>"
    by (rule DecToString_shape)
  then have "b \<noteq> []" by (auto simp: Precision_def)
  with ab have "NewDecFromStr (DecToString d) = combineDec (d < 0) (a @ b) Precision"
    using NewDecFromStr_split [of a b "d < 0"] by simp
  also have "\<dots> = (if intLimit \<le> \<bar>d\<bar> then Inl ErrOutOfRange else Inr d)"
    using ab by (simp add: combineDec_def SetString_digits)
  finally show ?thesis by (auto simp: intLimit_def)
qed

text \<open>
  C24. Parsing the printed form of a decimal gives the decimal back exactly when its unscaled value
  has at most 255 bits. Decimals between 255 and 315 bits, which the arithmetic accepts, are printed
  to strings that \<open>NewDecFromStr\<close> rejects as out of range.
\<close>

theorem NewDecFromStr_String:
  "NewDecFromStr (DecToString d) = (if \<bar>d\<bar> < 2 ^ 255 then Inr d else Inl ErrOutOfRange)"
  by (rule NewDecFromStr_print)

end
