(* ===== verification/Coins.thy ===== *)
theory Coins
  imports DecString
begin

text \<open>
  Coins: \<open>libs/cosmos-sdk/types/dec_coin.go\<close>, \<open>coin.go\<close> and \<open>aliase_coin_exchain.go\<close>. In this
  chain \<open>Coin\<close> and \<open>Coins\<close> are aliases of \<open>DecCoin\<close> and \<open>DecCoins\<close>. A coin set is a slice of
  coins; its operations work on slices that are sorted by denomination. Denominations are byte
  strings compared lexicographically; case conversion and white space are those of ASCII.
\<close>

section \<open>Definitions\<close>

subsection \<open>Denominations\<close>

definition inRange :: "char \<Rightarrow> char \<Rightarrow> char \<Rightarrow> bool" where
  "inRange lo hi c \<longleftrightarrow> lo \<le> c \<and> c \<le> hi"

definition isLowerChar :: "char \<Rightarrow> bool" where
  "isLowerChar = inRange (CHR ''a'') (CHR ''z'')"

definition isUpperChar :: "char \<Rightarrow> bool" where
  "isUpperChar = inRange (CHR ''A'') (CHR ''Z'')"

definition isHexChar :: "char \<Rightarrow> bool" where
  "isHexChar c \<longleftrightarrow> inRange (CHR ''a'') (CHR ''f'') c \<or> isDigit c"

definition DefaultBondDenom :: string where
  "DefaultBondDenom = ''okt''"

text \<open>\<open>reDnm\<close>: \<open>^[a-z][a-z0-9]{0,9}(\-[a-f0-9]{3})?$\<close>.\<close>

definition reDnm :: "string \<Rightarrow> bool" where
  "reDnm s =
     (let b = takeWhile (\<lambda>c. c \<noteq> CHR ''-'') s; r = dropWhile (\<lambda>c. c \<noteq> CHR ''-'') s in
      (case b of
         [] \<Rightarrow> False
       | c # cs \<Rightarrow> isLowerChar c \<and> length cs \<le> 9 \<and> list_all (\<lambda>x. isLowerChar x \<or> isDigit x) cs) \<and>
      (case r of [] \<Rightarrow> True | _ # h \<Rightarrow> length h = 3 \<and> list_all isHexChar h))"

definition hasPrefix :: "string \<Rightarrow> string \<Rightarrow> bool" where
  "hasPrefix p s \<longleftrightarrow> take (length p) s = p"

text \<open>\<open>rePoolTokenDnm\<close>: \<open>ammswap_\<close>, a denomination, \<open>_\<close>, a denomination.\<close>

definition rePoolTokenDnm :: "string \<Rightarrow> bool" where
  "rePoolTokenDnm s \<longleftrightarrow>
     hasPrefix ''ammswap_'' s \<and>
     (case splitOn (CHR ''_'') (drop 8 s) of [a, b] \<Rightarrow> reDnm a \<and> reDnm b | _ \<Rightarrow> False)"

text \<open>\<open>ibcReDnm\<close>: \<open>^[a-zA-Z][a-zA-Z0-9/-]{2,127}$\<close>.\<close>

definition validIBCCoinDenom :: "string \<Rightarrow> bool" where
  "validIBCCoinDenom s =
     (case s of
        [] \<Rightarrow> False
      | c # cs \<Rightarrow>
          (isLowerChar c \<or> isUpperChar c) \<and> 2 \<le> length cs \<and> length cs \<le> 127 \<and>
          list_all (\<lambda>x. isLowerChar x \<or> isUpperChar x \<or> isDigit x \<or> x = CHR ''/'' \<or> x = CHR ''-'') cs)"

definition ValidateDenom :: "string \<Rightarrow> bool" where
  "ValidateDenom denom =
     (if denom = DefaultBondDenom then True
      else if \<not> reDnm denom \<and> \<not> rePoolTokenDnm denom
      then hasPrefix ''ibc'' denom \<and> validIBCCoinDenom denom
      else True)"

definition ToLower :: "string \<Rightarrow> string" where
  "ToLower s = map (\<lambda>c. if isUpperChar c then char_of (of_char c + (32 :: nat)) else c) s"

subsection \<open>One coin\<close>

record DecCoin =
  Denom :: string
  Amount :: Dec

type_synonym Coin = DecCoin
type_synonym DecCoins = "DecCoin list"
type_synonym Coins = DecCoins

definition mkCoin :: "string \<Rightarrow> Dec \<Rightarrow> DecCoin" where
  "mkCoin d a = \<lparr>Denom = d, Amount = a\<rparr>"

definition NewDecCoin :: "string \<Rightarrow> SdkInt \<Rightarrow> DecCoin option" where
  "NewDecCoin denom amount =
     (if \<not> ValidateDenom denom \<or> amount < 0 then None else Some (mkCoin denom (ToDec amount)))"

definition NewDecCoinFromDec :: "string \<Rightarrow> Dec \<Rightarrow> DecCoin option" where
  "NewDecCoinFromDec denom amount =
     (if \<not> ValidateDenom denom then None
      else if amount < 0 then None
      else Some (mkCoin denom amount))"

text \<open>\<open>NewCoin\<close> takes an \<open>Int\<close> or a \<open>Dec\<close>; any other dynamic type panics.\<close>

datatype CoinAmount = AmountInt SdkInt | AmountDec Dec | AmountOther

fun NewCoin :: "string \<Rightarrow> CoinAmount \<Rightarrow> DecCoin option" where
  "NewCoin denom (AmountInt a) = NewDecCoin denom a"
| "NewCoin denom (AmountDec a) = NewDecCoinFromDec denom a"
| "NewCoin denom AmountOther = None"

definition coinIsZero :: "DecCoin \<Rightarrow> bool" where
  "coinIsZero coin \<longleftrightarrow> Amount coin = 0"

definition coinIsPositive :: "DecCoin \<Rightarrow> bool" where
  "coinIsPositive coin \<longleftrightarrow> Amount coin > 0"

definition coinIsNegative :: "DecCoin \<Rightarrow> bool" where
  "coinIsNegative coin \<longleftrightarrow> Amount coin < 0"

definition coinIsGTE :: "DecCoin \<Rightarrow> DecCoin \<Rightarrow> bool option" where
  "coinIsGTE coin other =
     (if Denom coin \<noteq> Denom other then None else Some (\<not> Amount coin < Amount other))"

definition coinIsLT :: "DecCoin \<Rightarrow> DecCoin \<Rightarrow> bool option" where
  "coinIsLT coin other =
     (if Denom coin \<noteq> Denom other then None else Some (Amount coin < Amount other))"

definition coinIsEqual :: "DecCoin \<Rightarrow> DecCoin \<Rightarrow> bool option" where
  "coinIsEqual coin other =
     (if Denom coin \<noteq> Denom other then None else Some (Amount coin = Amount other))"

definition coinAdd :: "DecCoin \<Rightarrow> DecCoin \<Rightarrow> DecCoin option" where
  "coinAdd coin coinB =
     (if Denom coin \<noteq> Denom coinB then None
      else do { a \<leftarrow> DecAdd (Amount coin) (Amount coinB); Some (mkCoin (Denom coin) a) })"

definition coinSub :: "DecCoin \<Rightarrow> DecCoin \<Rightarrow> DecCoin option" where
  "coinSub coin coinB =
     (if Denom coin \<noteq> Denom coinB then None
      else do {
        a \<leftarrow> DecSub (Amount coin) (Amount coinB);
        let res = mkCoin (Denom coin) a;
        if coinIsNegative res then None else Some res })"

definition coinTruncateDecimal :: "DecCoin \<Rightarrow> (Coin \<times> DecCoin) option" where
  "coinTruncateDecimal coin = do {
     truncated \<leftarrow> TruncateInt (Amount coin);
     change \<leftarrow> DecSub (Amount coin) (ToDec truncated);
     c1 \<leftarrow> NewDecCoin (Denom coin) truncated;
     c2 \<leftarrow> NewDecCoinFromDec (Denom coin) change;
     Some (c1, c2) }"

definition coinTruncateWithPrec :: "DecCoin \<Rightarrow> int \<Rightarrow> (Coin \<times> DecCoin) option" where
  "coinTruncateWithPrec coin prec =
     (if prec < 0 \<or> prec > int Precision then None
      else do {
        tempTruncated \<leftarrow> TruncateWithPrec (Amount coin) prec;
        truncated \<leftarrow> NewDecFromBigIntWithPrec tempTruncated prec;
        change \<leftarrow> DecSub (Amount coin) truncated;
        c1 \<leftarrow> NewDecCoinFromDec (Denom coin) truncated;
        c2 \<leftarrow> NewDecCoinFromDec (Denom coin) change;
        Some (c1, c2) })"

definition coinToString :: "DecCoin \<Rightarrow> string" where
  "coinToString coin = DecToString (Amount coin) @ Denom coin"

definition coinIsValid :: "DecCoin \<Rightarrow> bool" where
  "coinIsValid coin = (if \<not> ValidateDenom (Denom coin) then False else \<not> coinIsNegative coin)"

subsection \<open>Coin sets\<close>

text \<open>Both loops of \<open>removeZeroDecCoins\<close> keep exactly the coins that are not zero.\<close>

definition removeZeroDecCoins :: "DecCoins \<Rightarrow> DecCoins" where
  "removeZeroDecCoins coins = filter (\<lambda>c. \<not> coinIsZero c) coins"

definition removeZeroCoins :: "Coins \<Rightarrow> Coins" where
  "removeZeroCoins coins = filter (\<lambda>c. \<not> coinIsZero c) coins"

definition SortCoins :: "DecCoins \<Rightarrow> DecCoins" where
  "SortCoins coins = sort_key Denom coins"

fun findDupFrom :: "string \<Rightarrow> DecCoins \<Rightarrow> nat \<Rightarrow> nat option" where
  "findDupFrom prevDenom [] i = None"
| "findDupFrom prevDenom (c # cs) i =
     (if Denom c = prevDenom then Some i else findDupFrom (Denom c) cs (i + 1))"

fun findDup :: "DecCoins \<Rightarrow> nat option" where
  "findDup [] = None"
| "findDup (c # cs) = findDupFrom (Denom c) cs 1"

fun validTail :: "string \<Rightarrow> DecCoins \<Rightarrow> bool" where
  "validTail lowDenom [] = True"
| "validTail lowDenom (c # cs) =
     (if ToLower (Denom c) \<noteq> Denom c then False
      else if Denom c \<le> lowDenom then False
      else if \<not> coinIsPositive c then False
      else validTail (Denom c) cs)"

fun IsValid :: "DecCoins \<Rightarrow> bool" where
  "IsValid [] = True"
| "IsValid (c # cs) =
     (if \<not> ValidateDenom (Denom c) \<or> \<not> coinIsPositive c then False else validTail (Denom c) cs)"

definition NewDecCoins :: "DecCoins \<Rightarrow> DecCoins option" where
  "NewDecCoins decCoins =
     (let newDecCoins = removeZeroDecCoins decCoins in
      if newDecCoins = [] then Some []
      else let sorted = SortCoins newDecCoins in
        if findDup sorted \<noteq> None then None
        else if \<not> IsValid sorted then None
        else Some sorted)"

definition NewCoins :: "Coins \<Rightarrow> Coins option" where
  "NewCoins coins =
     (let newCoins = removeZeroCoins coins in
      if newCoins = [] then Some []
      else let sorted = (if length newCoins > 1 then SortCoins newCoins else newCoins) in
        if findDup sorted \<noteq> None then None
        else if \<not> IsValid sorted then None
        else Some sorted)"

definition NewDecCoinsFromDec :: "string \<Rightarrow> Dec \<Rightarrow> DecCoins option" where
  "NewDecCoinsFromDec denom amount = do { c \<leftarrow> NewDecCoinFromDec denom amount; Some [c] }"

definition ToCoins :: "DecCoin \<Rightarrow> Coins option" where
  "ToCoins dec = NewCoins [dec]"

definition GetSystemFee :: "Coin option" where
  "GetSystemFee = do { a \<leftarrow> NewDecWithPrec 125 4; NewDecCoinFromDec DefaultBondDenom a }"

definition ZeroFee :: "Coin option" where
  "ZeroFee = NewCoin DefaultBondDenom (AmountInt 0)"

fun safeAdd :: "DecCoins \<Rightarrow> DecCoins \<Rightarrow> DecCoins option" where
  "safeAdd [] coinsB = Some (removeZeroDecCoins coinsB)"
| "safeAdd coins [] = Some (removeZeroDecCoins coins)"
| "safeAdd (coinA # as) (coinB # bs) =
     (if Denom coinA < Denom coinB then do {
        sum \<leftarrow> safeAdd as (coinB # bs);
        Some (if \<not> coinIsZero coinA then coinA # sum else sum) }
      else if Denom coinA = Denom coinB then do {
        res \<leftarrow> coinAdd coinA coinB;
        sum \<leftarrow> safeAdd as bs;
        Some (if \<not> coinIsZero res then res # sum else sum) }
      else do {
        sum \<leftarrow> safeAdd (coinA # as) bs;
        Some (if \<not> coinIsZero coinB then coinB # sum else sum) })"

definition coinsAdd :: "DecCoins \<Rightarrow> DecCoins \<Rightarrow> DecCoins option" where
  "coinsAdd coins coinsB = safeAdd coins coinsB"

definition Add2 :: "DecCoins \<Rightarrow> DecCoins \<Rightarrow> DecCoins option" where
  "Add2 coins coinsB = safeAdd coins coinsB"

definition negative :: "DecCoins \<Rightarrow> DecCoins" where
  "negative coins = map (\<lambda>coin. mkCoin (Denom coin) (- Amount coin)) coins"

definition IsAnyNegative :: "DecCoins \<Rightarrow> bool" where
  "IsAnyNegative coins = list_ex coinIsNegative coins"

definition SafeSub :: "DecCoins \<Rightarrow> DecCoins \<Rightarrow> (DecCoins \<times> bool) option" where
  "SafeSub coins coinsB = do {
     diff \<leftarrow> safeAdd coins (negative coinsB);
     Some (diff, IsAnyNegative diff) }"

definition coinsSub :: "DecCoins \<Rightarrow> DecCoins \<Rightarrow> DecCoins option" where
  "coinsSub coins coinsB = do {
     (diff, hasNeg) \<leftarrow> SafeSub coins coinsB;
     if hasNeg then None else Some diff }"

text \<open>\<open>AmountOf\<close>: binary search over the slice.\<close>

function amountOfSearch :: "DecCoins \<Rightarrow> string \<Rightarrow> Dec" where
  "amountOfSearch coins denom =
     (if length coins = 0 then ZeroDec
      else if length coins = 1
      then (if Denom (coins ! 0) = denom then Amount (coins ! 0) else ZeroDec)
      else let midIdx = length coins div 2; coin = coins ! midIdx in
        if denom < Denom coin then amountOfSearch (take midIdx coins) denom
        else if denom = Denom coin then Amount coin
        else amountOfSearch (drop (midIdx + 1) coins) denom)"
  by pat_completeness auto
termination
  by (relation "measure (\<lambda>(coins, _). length coins)") auto

declare amountOfSearch.simps [simp del]

definition AmountOf :: "DecCoins \<Rightarrow> string \<Rightarrow> Dec option" where
  "AmountOf coins denom = (if \<not> ValidateDenom denom then None else Some (amountOfSearch coins denom))"

text \<open>A loop over the coins that collects sums; it panics where the body panics.\<close>

fun foldCoins :: "('a \<Rightarrow> DecCoin \<Rightarrow> 'a option) \<Rightarrow> 'a \<Rightarrow> DecCoins \<Rightarrow> 'a option" where
  "foldCoins f a [] = Some a"
| "foldCoins f a (c # cs) = do { a' \<leftarrow> f a c; foldCoins f a' cs }"

definition addNonZero :: "DecCoins \<Rightarrow> DecCoin \<Rightarrow> DecCoins option" where
  "addNonZero res c = (if \<not> coinIsZero c then coinsAdd res [c] else Some res)"

definition TruncateDecimal :: "DecCoins \<Rightarrow> (Coins \<times> DecCoins) option" where
  "TruncateDecimal coins =
     foldCoins (\<lambda>(truncatedCoins, changeCoins) coin. do {
       (truncated, change) \<leftarrow> coinTruncateDecimal coin;
       t \<leftarrow> addNonZero truncatedCoins truncated;
       c \<leftarrow> addNonZero changeCoins change;
       Some (t, c) }) ([], []) coins"

definition coinsTruncateWithPrec :: "DecCoins \<Rightarrow> int \<Rightarrow> (Coins \<times> DecCoins) option" where
  "coinsTruncateWithPrec coins prec =
     foldCoins (\<lambda>(truncatedCoins, changeCoins) coin. do {
       (truncated, change) \<leftarrow> coinTruncateWithPrec coin prec;
       t \<leftarrow> addNonZero truncatedCoins truncated;
       c \<leftarrow> addNonZero changeCoins change;
       Some (t, c) }) ([], []) coins"

definition mapCoins :: "(Dec \<Rightarrow> Dec option) \<Rightarrow> DecCoins \<Rightarrow> DecCoins option" where
  "mapCoins f coins =
     foldCoins (\<lambda>res coin. do { a \<leftarrow> f (Amount coin); addNonZero res (mkCoin (Denom coin) a) }) [] coins"

definition MulDec :: "DecCoins \<Rightarrow> Dec \<Rightarrow> DecCoins option" where
  "MulDec coins d = mapCoins (\<lambda>a. DecMul a d) coins"

definition MulDecTruncate :: "DecCoins \<Rightarrow> Dec \<Rightarrow> DecCoins option" where
  "MulDecTruncate coins d = mapCoins (\<lambda>a. DecMulTruncate a d) coins"

definition QuoDec :: "DecCoins \<Rightarrow> Dec \<Rightarrow> DecCoins option" where
  "QuoDec coins d = (if d = 0 then None else mapCoins (\<lambda>a. DecQuo a d) coins)"

definition QuoDecTruncate :: "DecCoins \<Rightarrow> Dec \<Rightarrow> DecCoins option" where
  "QuoDecTruncate coins d = (if d = 0 then None else mapCoins (\<lambda>a. DecQuoTruncate a d) coins)"

fun intersectAll :: "DecCoins \<Rightarrow> DecCoins \<Rightarrow> DecCoins option" where
  "intersectAll [] coinsB = Some []"
| "intersectAll (coin # cs) coinsB = do {
     b \<leftarrow> AmountOf coinsB (Denom coin);
     rest \<leftarrow> intersectAll cs coinsB;
     Some (mkCoin (Denom coin) (MinDec (Amount coin) b) # rest) }"

definition Intersect :: "DecCoins \<Rightarrow> DecCoins \<Rightarrow> DecCoins option" where
  "Intersect coins coinsB = do { res \<leftarrow> intersectAll coins coinsB; Some (removeZeroDecCoins res) }"

definition coinsIsZero :: "DecCoins \<Rightarrow> bool" where
  "coinsIsZero coins = list_all coinIsZero coins"

definition IsAllPositive :: "DecCoins \<Rightarrow> bool" where
  "IsAllPositive coins = (if coins = [] then False else list_all coinIsPositive coins)"

fun equalPairs :: "DecCoins \<Rightarrow> DecCoins \<Rightarrow> bool option" where
  "equalPairs (a # as) (b # bs) =
     do { e \<leftarrow> coinIsEqual a b; if \<not> e then Some False else equalPairs as bs }"
| "equalPairs _ _ = Some True"

definition coinsIsEqual :: "DecCoins \<Rightarrow> DecCoins \<Rightarrow> bool option" where
  "coinsIsEqual coins coinsB =
     (if length coins \<noteq> length coinsB then Some False
      else equalPairs (SortCoins coins) (SortCoins coinsB))"

text \<open>\<open>for c in cs { if p(c) { return r } }\<close> with a test that may panic: does it stop early?\<close>

fun anyCoin :: "(DecCoin \<Rightarrow> bool option) \<Rightarrow> DecCoins \<Rightarrow> bool option" where
  "anyCoin p [] = Some False"
| "anyCoin p (c # cs) = do { b \<leftarrow> p c; if b then Some True else anyCoin p cs }"

definition DenomsSubsetOf :: "Coins \<Rightarrow> Coins \<Rightarrow> bool option" where
  "DenomsSubsetOf coins coinsB =
     (if length coins > length coinsB then Some False
      else map_option Not (anyCoin (\<lambda>coin. map_option (\<lambda>a. a = 0) (AmountOf coinsB (Denom coin))) coins))"

definition IsAllGT :: "Coins \<Rightarrow> Coins \<Rightarrow> bool option" where
  "IsAllGT coins coinsB =
     (if coins = [] then Some False
      else if coinsB = [] then Some True
      else do {
        sub \<leftarrow> DenomsSubsetOf coinsB coins;
        if \<not> sub then Some False
        else map_option Not (anyCoin (\<lambda>coinB.
               map_option (\<lambda>amountA. \<not> amountA > Amount coinB) (AmountOf coins (Denom coinB))) coinsB) })"

definition IsAllGTE :: "Coins \<Rightarrow> Coins \<Rightarrow> bool option" where
  "IsAllGTE coins coinsB =
     (if coinsB = [] then Some True
      else if coins = [] then Some False
      else map_option Not (anyCoin (\<lambda>coinB.
             map_option (\<lambda>a. Amount coinB > a) (AmountOf coins (Denom coinB))) coinsB))"

definition IsAllLT :: "Coins \<Rightarrow> Coins \<Rightarrow> bool option" where
  "IsAllLT coins coinsB = IsAllGT coinsB coins"

definition IsAllLTE :: "Coins \<Rightarrow> Coins \<Rightarrow> bool option" where
  "IsAllLTE coins coinsB = IsAllGTE coinsB coins"

definition IsAnyGT :: "Coins \<Rightarrow> Coins \<Rightarrow> bool option" where
  "IsAnyGT coins coinsB =
     (if coinsB = [] then Some False
      else anyCoin (\<lambda>coin. map_option (\<lambda>amt. Amount coin > amt \<and> amt \<noteq> 0)
             (AmountOf coinsB (Denom coin))) coins)"

definition IsAnyGTE :: "Coins \<Rightarrow> Coins \<Rightarrow> bool option" where
  "IsAnyGTE coins coinsB =
     (if coinsB = [] then Some False
      else anyCoin (\<lambda>coin. map_option (\<lambda>amt. Amount coin \<ge> amt \<and> amt \<noteq> 0)
             (AmountOf coinsB (Denom coin))) coins)"

subsection \<open>Printing and parsing coins\<close>

fun joinComma :: "string list \<Rightarrow> string" where
  "joinComma [] = []"
| "joinComma [s] = s"
| "joinComma (s # ss) = s @ CHR '','' # joinComma ss"

definition coinsToString :: "DecCoins \<Rightarrow> string" where
  "coinsToString coins = joinComma (map coinToString coins)"

definition isSpaceChar :: "char \<Rightarrow> bool" where
  "isSpaceChar c \<longleftrightarrow> (of_char c :: nat) \<in> {9, 10, 11, 12, 13, 32}"

definition TrimSpace :: "string \<Rightarrow> string" where
  "TrimSpace s = rev (dropWhile isSpaceChar (rev (dropWhile isSpaceChar s)))"

text \<open>
  \<open>reDecCoin\<close>: an amount \<open>[[:digit:]]*\.?[[:digit:]]+\<close>, white space, a denomination. A denomination
  starts with a letter, so the amount is the longest prefix of digits and points.
\<close>

definition isAmountChar :: "char \<Rightarrow> bool" where
  "isAmountChar c \<longleftrightarrow> isDigit c \<or> c = decimalPoint"

definition reDecAmt :: "string \<Rightarrow> bool" where
  "reDecAmt s =
     (case splitOn decimalPoint s of
        [a] \<Rightarrow> a \<noteq> [] \<and> list_all isDigit a
      | [a, b] \<Rightarrow> list_all isDigit a \<and> b \<noteq> [] \<and> list_all isDigit b
      | _ \<Rightarrow> False)"

definition reDecCoin :: "string \<Rightarrow> (string \<times> string) option" where
  "reDecCoin s =
     (let amt = takeWhile isAmountChar s; den = dropWhile isSpaceChar (dropWhile isAmountChar s) in
      if reDecAmt amt \<and> (reDnm den \<or> rePoolTokenDnm den) then Some (amt, den) else None)"

text \<open>\<open>ibcReDecCoin\<close>: the amount is \<open>[[:digit:]]+(?:\.[[:digit:]]+)?|\.[[:digit:]]+\<close>.\<close>

definition ibcReDecCoin :: "string \<Rightarrow> (string \<times> string) option" where
  "ibcReDecCoin s =
     (let amt = takeWhile isAmountChar s; den = dropWhile isSpaceChar (dropWhile isAmountChar s) in
      if reDecAmt amt \<and> validIBCCoinDenom den then Some (amt, den) else None)"

fun containsStr :: "string \<Rightarrow> string \<Rightarrow> bool" where
  "containsStr p [] = (p = [])"
| "containsStr p (c # cs) = (hasPrefix p (c # cs) \<or> containsStr p cs)"

datatype CoinError = ErrInvalidExpression | ErrParseAmount DecError | ErrInvalidDenom | ErrParsedCoins

text \<open>The outer \<open>option\<close> is the panic of \<open>NewDecCoinFromDec\<close>.\<close>

definition parseMatches :: "(string \<times> string) option \<Rightarrow> (CoinError + DecCoin) option" where
  "parseMatches m =
     (case m of
        None \<Rightarrow> Some (Inl ErrInvalidExpression)
      | Some (amountStr, denomStr) \<Rightarrow>
          (case NewDecFromStr amountStr of
             Inl e \<Rightarrow> Some (Inl (ErrParseAmount e))
           | Inr amount \<Rightarrow>
               if \<not> ValidateDenom denomStr then Some (Inl ErrInvalidDenom)
               else map_option Inr (NewDecCoinFromDec denomStr amount)))"

definition IBCParseDecCoin :: "string \<Rightarrow> (CoinError + DecCoin) option" where
  "IBCParseDecCoin coinStr = parseMatches (ibcReDecCoin (TrimSpace coinStr))"

definition ParseDecCoin :: "string \<Rightarrow> (CoinError + DecCoin) option" where
  "ParseDecCoin coinStr0 =
     (let coinStr = TrimSpace coinStr0 in
      case reDecCoin coinStr of
        None \<Rightarrow>
          if containsStr ''ibc/'' coinStr then IBCParseDecCoin coinStr
          else Some (Inl ErrInvalidExpression)
      | Some m \<Rightarrow> parseMatches (Some m))"

fun parseEach :: "string list \<Rightarrow> (CoinError + DecCoins) option" where
  "parseEach [] = Some (Inr [])"
| "parseEach (s # ss) = do {
     r \<leftarrow> ParseDecCoin s;
     (case r of
        Inl e \<Rightarrow> Some (Inl e)
      | Inr coin \<Rightarrow> do {
          rs \<leftarrow> parseEach ss;
          (case rs of Inl e \<Rightarrow> Some (Inl e) | Inr coins \<Rightarrow> Some (Inr (coin # coins))) }) }"

definition ParseDecCoins :: "string \<Rightarrow> (CoinError + DecCoins) option" where
  "ParseDecCoins coinsStr0 =
     (let coinsStr = TrimSpace coinsStr0 in
      if coinsStr = [] then Some (Inr [])
      else do {
        r \<leftarrow> parseEach (splitOn (CHR '','') coinsStr);
        (case r of
           Inl e \<Rightarrow> Some (Inl e)
         | Inr coins0 \<Rightarrow>
             let coins = SortCoins coins0 in
             if \<not> IsValid coins then Some (Inl ErrParsedCoins) else Some (Inr coins)) })"

definition MustParseCoins :: "string \<Rightarrow> string \<Rightarrow> Coins option" where
  "MustParseCoins denom amount = do {
     r \<leftarrow> ParseDecCoins (amount @ denom);
     (case r of Inl _ \<Rightarrow> None | Inr coins \<Rightarrow> Some coins) }"

section \<open>Coin sets as finite maps\<close>

text \<open>The abstraction of a coin set: the total it holds of every denomination.\<close>

primrec amt :: "DecCoins \<Rightarrow> string \<Rightarrow> Dec" where
  "amt [] d = 0"
| "amt (c # cs) d = (if Denom c = d then Amount c else 0) + amt cs d"

definition sortedCoins :: "DecCoins \<Rightarrow> bool" where
  "sortedCoins cs \<longleftrightarrow> sorted_wrt (<) (map Denom cs)"

definition normalCoins :: "DecCoins \<Rightarrow> bool" where
  "normalCoins cs \<longleftrightarrow> sortedCoins cs \<and> (\<forall>c\<in>set cs. Amount c \<noteq> 0)"

definition positiveCoins :: "DecCoins \<Rightarrow> bool" where
  "positiveCoins cs \<longleftrightarrow> sortedCoins cs \<and> (\<forall>c\<in>set cs. 0 < Amount c)"

named_theorems coin_simps "unfolding of one-coin operations"

lemmas [coin_simps] = coinIsZero_def coinIsPositive_def coinIsNegative_def
  removeZeroDecCoins_def removeZeroCoins_def

lemma mkCoin_sel [simp]: "Denom (mkCoin d a) = d" "Amount (mkCoin d a) = a"
  by (simp_all add: mkCoin_def)

lemma mkCoin_eq [simp]: "mkCoin (Denom c) (Amount c) = c"
  by (simp add: mkCoin_def)

lemma sortedCoins_Nil [simp]: "sortedCoins []"
  by (simp add: sortedCoins_def)

lemma sortedCoins_Cons [simp]:
  "sortedCoins (c # cs) \<longleftrightarrow> (\<forall>x\<in>set cs. Denom c < Denom x) \<and> sortedCoins cs"
  by (simp add: sortedCoins_def)

lemma sortedCoins_append:
  "sortedCoins (as @ bs) \<longleftrightarrow>
     sortedCoins as \<and> sortedCoins bs \<and> (\<forall>x\<in>set as. \<forall>y\<in>set bs. Denom x < Denom y)"
  by (simp add: sortedCoins_def sorted_wrt_append)

lemma sortedCoins_filter [simp]: "sortedCoins cs \<Longrightarrow> sortedCoins (filter p cs)"
  by (induction cs) auto

lemma amt_append [simp]: "amt (as @ bs) d = amt as d + amt bs d"
  by (induction as) auto

lemma amt_notin: "d \<notin> Denom ` set cs \<Longrightarrow> amt cs d = 0"
  by (induction cs) auto

lemma amt_removeZero [simp]: "amt (removeZeroDecCoins cs) d = amt cs d"
  by (induction cs) (auto simp: coin_simps)

lemma amt_negative [simp]: "amt (negative cs) d = - amt cs d"
  by (induction cs) (auto simp: negative_def)

lemma amt_nonneg: "(\<forall>c\<in>set cs. 0 \<le> Amount c) \<Longrightarrow> 0 \<le> amt cs d"
  by (induction cs) auto

lemma amt_sorted: "sortedCoins cs \<Longrightarrow> c \<in> set cs \<Longrightarrow> amt cs (Denom c) = Amount c"
proof (induction cs)
  case (Cons x xs)
  have "Denom x \<notin> Denom ` set xs" using Cons.prems(1) by auto
  then show ?case using Cons by (auto simp: amt_notin)
qed simp

lemma positiveCoins_normal: "positiveCoins cs \<Longrightarrow> normalCoins cs"
  by (auto simp: positiveCoins_def normalCoins_def)

lemma positiveCoins_amt: "positiveCoins cs \<Longrightarrow> 0 \<le> amt cs d"
  by (rule amt_nonneg) (auto simp: positiveCoins_def)

lemma normalCoins_positive_iff:
  assumes "normalCoins cs"
  shows "positiveCoins cs \<longleftrightarrow> (\<forall>d. 0 \<le> amt cs d)"
proof
  assume *: "\<forall>d. 0 \<le> amt cs d"
  have "0 < Amount c" if "c \<in> set cs" for c
    using assms that * [rule_format, of "Denom c"] amt_sorted [of cs c]
    by (fastforce simp: normalCoins_def)
  with assms show "positiveCoins cs" by (simp add: normalCoins_def positiveCoins_def)
qed (simp add: positiveCoins_amt)

lemma normalCoins_Cons [simp]:
  "normalCoins (c # cs) \<longleftrightarrow> (\<forall>x\<in>set cs. Denom c < Denom x) \<and> Amount c \<noteq> 0 \<and> normalCoins cs"
  by (auto simp: normalCoins_def)

lemma amt_below_head: "sortedCoins (c # cs) \<Longrightarrow> d < Denom c \<Longrightarrow> amt (c # cs) d = 0"
  by (rule amt_notin) (force simp: image_iff)

text \<open>Extensionality: a normal coin set is determined by its amounts.\<close>

lemma normalCoins_ext:
  "normalCoins as \<Longrightarrow> normalCoins bs \<Longrightarrow> (\<And>d. amt as d = amt bs d) \<Longrightarrow> as = bs"
proof (induction as arbitrary: bs)
  case Nil
  then show ?case
    using amt_sorted [of bs "hd bs"] Nil.prems(3) [of "Denom (hd bs)"]
    by (cases bs) (auto simp: normalCoins_def)
next
  case (Cons a as)
  have sa: "sortedCoins (a # as)" using Cons.prems(1) by (simp add: normalCoins_def)
  have aa: "amt (a # as) (Denom a) = Amount a" using amt_sorted [OF sa, of a] by simp
  then obtain b bs' where b: "bs = b # bs'"
    using Cons.prems(1) Cons.prems(3) [of "Denom a"] by (cases bs) auto
  have sb: "sortedCoins (b # bs')" using Cons.prems(2) b by (simp add: normalCoins_def)
  have bb: "amt bs (Denom b) = Amount b" using amt_sorted [OF sb, of b] b by simp
  have eq: "Denom a = Denom b"
  proof (rule ccontr)
    assume "Denom a \<noteq> Denom b"
    then consider "Denom a < Denom b" | "Denom b < Denom a" by (auto simp: neq_iff)
    then show False
    proof cases
      case 1
      with amt_below_head [OF sb, of "Denom a"] aa b Cons.prems(1) Cons.prems(3) [of "Denom a"] show False by simp
    next
      case 2
      with amt_below_head [OF sa, of "Denom b"] bb b Cons.prems(2) Cons.prems(3) [of "Denom b"] show False by simp
    qed
  qed
  then have ab: "a = b"
    using aa bb Cons.prems(3) [of "Denom a"] by (intro DecCoin.equality) simp_all
  have "as = bs'"
  proof (rule Cons.IH)
    show "normalCoins as" "normalCoins bs'" using Cons.prems b by simp_all
    show "amt as d = amt bs' d" for d
      using Cons.prems(3) [of d] b ab by simp
  qed
  with ab b show ?case by simp
qed

subsection \<open>Addition and subtraction\<close>

lemma coinAdd_Some:
  "coinAdd a b = Some c \<longleftrightarrow>
     Denom a = Denom b \<and> c = mkCoin (Denom a) (Amount a + Amount b) \<and>
     \<bar>Amount a + Amount b\<bar> < decLimit"
  by (auto simp: coinAdd_def)

lemma safeAdd_Nil2 [simp]: "safeAdd as [] = Some (removeZeroDecCoins as)"
  by (cases as) simp_all

text \<open>The three ways a merge step can go.\<close>

lemma safeAdd_ConsE:
  assumes "safeAdd (a # as) (b # bs) = Some cs"
  obtains
    (lt) s where "Denom a < Denom b" "safeAdd as (b # bs) = Some s"
      "cs = (if Amount a = 0 then s else a # s)"
  | (eq) s r where "\<not> Denom a < Denom b" "Denom a = Denom b" "coinAdd a b = Some r"
      "r = mkCoin (Denom a) (Amount a + Amount b)"
      "safeAdd as bs = Some s" "cs = (if Amount r = 0 then s else r # s)"
  | (gt) s where "\<not> Denom a < Denom b" "Denom a \<noteq> Denom b" "Denom b < Denom a"
      "safeAdd (a # as) bs = Some s" "cs = (if Amount b = 0 then s else b # s)"
proof (rule linorder_cases [of "Denom a" "Denom b"])
  assume *: "Denom a < Denom b"
  with assms obtain s where "safeAdd as (b # bs) = Some s" "(if \<not> coinIsZero a then a # s else s) = cs"
    by (cases "safeAdd as (b # bs)") simp_all
  with * lt show thesis by (simp add: coinIsZero_def split: if_splits)
next
  assume *: "Denom a = Denom b"
  with assms obtain r s where "coinAdd a b = Some r" "safeAdd as bs = Some s"
    "(if \<not> coinIsZero r then r # s else s) = cs"
    by (cases "coinAdd a b"; cases "safeAdd as bs") simp_all
  with * eq show thesis by (simp add: coinIsZero_def coinAdd_Some split: if_splits)
next
  assume *: "Denom b < Denom a"
  then have n: "\<not> Denom a < Denom b" "Denom a \<noteq> Denom b" by auto
  with assms obtain s where "safeAdd (a # as) bs = Some s" "(if \<not> coinIsZero b then b # s else s) = cs"
    by (cases "safeAdd (a # as) bs") simp_all
  with * n gt show thesis by (simp add: coinIsZero_def split: if_splits)
qed

lemma safeAdd_amt: "safeAdd as bs = Some cs \<Longrightarrow> amt cs d = amt as d + amt bs d"
proof (induction as bs arbitrary: cs rule: safeAdd.induct)
  case (3 a as b bs)
  from "3.prems" show ?case
  proof (cases rule: safeAdd_ConsE)
    case (lt s)
    from "3.IH"(1) [OF lt(1,2)] lt(3) show ?thesis by simp
  next
    case (eq s r)
    from "3.IH"(2) [OF eq(1,2,3,5)] eq(2,4,6) show ?thesis by simp
  next
    case (gt s)
    from "3.IH"(3) [OF gt(1,2,4)] gt(5) show ?thesis by simp
  qed
qed auto

lemma safeAdd_denoms:
  "safeAdd as bs = Some cs \<Longrightarrow> x \<in> set cs \<Longrightarrow>
   Amount x \<noteq> 0 \<and> Denom x \<in> Denom ` set as \<union> Denom ` set bs"
proof (induction as bs arbitrary: cs rule: safeAdd.induct)
  case (3 a as b bs)
  from "3.prems"(1) show ?case
  proof (cases rule: safeAdd_ConsE)
    case (lt s)
    from "3.IH"(1) [OF lt(1,2)] lt(3) "3.prems"(2) show ?thesis by (auto split: if_splits)
  next
    case (eq s r)
    from "3.IH"(2) [OF eq(1,2,3,5)] eq(4,6) "3.prems"(2) show ?thesis by (auto split: if_splits)
  next
    case (gt s)
    from "3.IH"(3) [OF gt(1,2,4)] gt(5) "3.prems"(2) show ?thesis by (auto split: if_splits)
  qed
qed (auto simp: removeZeroDecCoins_def coinIsZero_def split: if_splits)

lemma safeAdd_above:
  assumes "safeAdd as bs = Some cs"
    and "\<forall>y\<in>set as. d < Denom y" and "\<forall>y\<in>set bs. d < Denom y"
  shows "\<forall>x\<in>set cs. d < Denom x"
  using safeAdd_denoms [OF assms(1)] assms(2,3) by fastforce

lemma sortedCoins_head: "sortedCoins (c # cs) \<Longrightarrow> d < Denom c \<Longrightarrow> \<forall>x\<in>set (c # cs). d < Denom x"
  by (auto intro: less_trans)

lemma safeAdd_sorted:
  "safeAdd as bs = Some cs \<Longrightarrow> sortedCoins as \<Longrightarrow> sortedCoins bs \<Longrightarrow> sortedCoins cs"
proof (induction as bs arbitrary: cs rule: safeAdd.induct)
  case (3 a as b bs)
  have a: "sortedCoins as" "\<forall>x\<in>set as. Denom a < Denom x"
    and b: "sortedCoins bs" "\<forall>x\<in>set bs. Denom b < Denom x"
    using "3.prems"(2,3) by simp_all
  from "3.prems"(1) show ?case
  proof (cases rule: safeAdd_ConsE)
    case (lt s)
    have "\<forall>x\<in>set s. Denom a < Denom x"
      by (rule safeAdd_above [OF lt(2) a(2) sortedCoins_head [OF "3.prems"(3) lt(1)]])
    with "3.IH"(1) [OF lt(1,2) a(1) "3.prems"(3)] lt(3) show ?thesis by simp
  next
    case (eq s r)
    have "\<forall>x\<in>set s. Denom a < Denom x"
      by (rule safeAdd_above [OF eq(5) a(2)]) (simp add: b eq(2))
    with "3.IH"(2) [OF eq(1,2,3,5) a(1) b(1)] eq(4,6) show ?thesis by simp
  next
    case (gt s)
    have "\<forall>x\<in>set s. Denom b < Denom x"
      by (rule safeAdd_above [OF gt(4) sortedCoins_head [OF "3.prems"(2) gt(3)] b(2)])
    with "3.IH"(3) [OF gt(1,2,4) "3.prems"(2) b(1)] gt(5) show ?thesis by simp
  qed
qed (auto simp: removeZeroDecCoins_def split: if_splits)

lemma safeAdd_normal:
  assumes "safeAdd as bs = Some cs" "sortedCoins as" "sortedCoins bs"
  shows "normalCoins cs"
  using safeAdd_sorted [OF assms] safeAdd_denoms [OF assms(1)] by (auto simp: normalCoins_def)

lemma safeAdd_defined:
  assumes "sortedCoins as" "sortedCoins bs" "\<And>d. \<bar>amt as d + amt bs d\<bar> < decLimit"
  shows "\<exists>cs. safeAdd as bs = Some cs"
  using assms
proof (induction as bs rule: safeAdd.induct)
  case (3 a as b bs)
  consider "Denom a < Denom b" | "Denom a = Denom b" | "Denom b < Denom a"
    by (rule linorder_cases)
  then show ?case
  proof cases
    case 1
    have "\<exists>s. safeAdd as (b # bs) = Some s"
    proof (rule "3.IH"(1) [OF 1])
      show "\<bar>amt as d + amt (b # bs) d\<bar> < decLimit" for d
      proof (cases "d = Denom a")
        case True
        then have "amt as d = 0" "amt (b # bs) d = 0"
          using "3.prems" 1 amt_below_head [of b bs d] by (auto intro!: amt_notin)
        then show ?thesis by simp
      next
        case False
        then show ?thesis using "3.prems"(3) [of d] by simp
      qed
    qed (use "3.prems" in simp_all)
    with 1 show ?thesis by auto
  next
    case 2
    have z: "amt as (Denom a) = 0" "amt bs (Denom a) = 0"
      using "3.prems" 2 by (auto intro!: amt_notin)
    have r: "coinAdd a b = Some (mkCoin (Denom a) (Amount a + Amount b))"
      using "3.prems"(3) [of "Denom a"] z 2 by (simp add: coinAdd_Some)
    have "\<exists>s. safeAdd as bs = Some s"
    proof (rule "3.IH"(2) [OF _ 2 r])
      show "\<bar>amt as d + amt bs d\<bar> < decLimit" for d
        using "3.prems"(3) [of d] z 2 by (cases "d = Denom a") auto
    qed (use "3.prems" 2 in simp_all)
    with 2 r show ?thesis by auto
  next
    case c: 3
    then have n: "\<not> Denom a < Denom b" "Denom a \<noteq> Denom b" by auto
    have "\<exists>s. safeAdd (a # as) bs = Some s"
    proof (rule "3.IH"(3) [OF n])
      show "\<bar>amt (a # as) d + amt bs d\<bar> < decLimit" for d
      proof (cases "d = Denom b")
        case True
        then have "amt bs d = 0" "amt (a # as) d = 0"
          using "3.prems" c amt_below_head [of a as d] by (auto intro!: amt_notin)
        then show ?thesis by simp
      next
        case False
        then show ?thesis using "3.prems"(3) [of d] by simp
      qed
    qed (use "3.prems" in simp_all)
    with n show ?thesis by auto
  qed
qed simp_all

lemma sortedCoins_negative [simp]: "sortedCoins (negative cs) = sortedCoins cs"
  by (induction cs) (auto simp: negative_def)

lemma normalCoins_negative_iff:
  "normalCoins cs \<Longrightarrow> IsAnyNegative cs \<longleftrightarrow> \<not> positiveCoins cs"
  by (auto simp: IsAnyNegative_def list_ex_iff coinIsNegative_def normalCoins_def positiveCoins_def)
     (metis not_less_iff_gr_or_eq)+

text \<open>\<open>Sub\<close> succeeds exactly when nothing becomes negative, and then it is pointwise subtraction.\<close>

lemma coinsSub_Some:
  assumes "coinsSub as bs = Some cs" "sortedCoins as" "sortedCoins bs"
  shows "positiveCoins cs \<and> (\<forall>d. amt cs d = amt as d - amt bs d)"
proof -
  from assms(1) have *: "safeAdd as (negative bs) = Some cs" "\<not> IsAnyNegative cs"
    by (auto simp: coinsSub_def SafeSub_def split: if_splits)
  then have "normalCoins cs" using safeAdd_normal assms by simp
  with * show ?thesis using normalCoins_negative_iff safeAdd_amt [OF *(1)] by simp
qed

lemma coinsSub_defined:
  assumes "sortedCoins as" "sortedCoins bs"
    and "\<And>d. amt bs d \<le> amt as d" "\<And>d. amt as d - amt bs d < decLimit"
  shows "\<exists>cs. coinsSub as bs = Some cs"
proof -
  have "\<exists>cs. safeAdd as (negative bs) = Some cs"
  proof (rule safeAdd_defined)
    show "\<bar>amt as d + amt (negative bs) d\<bar> < decLimit" for d
      using assms(3,4) [of d] by simp
  qed (use assms in simp_all)
  then obtain cs where cs: "safeAdd as (negative bs) = Some cs" by blast
  then have n: "normalCoins cs" using safeAdd_normal assms by simp
  have "positiveCoins cs"
    unfolding normalCoins_positive_iff [OF n] using safeAdd_amt [OF cs] assms(3) by simp
  with n cs show ?thesis
    by (simp add: coinsSub_def SafeSub_def normalCoins_negative_iff)
qed

lemma coinsSub_neg_None:
  assumes "sortedCoins as" "sortedCoins bs" "amt as d < amt bs d"
  shows "coinsSub as bs = None"
proof (rule ccontr)
  assume "coinsSub as bs \<noteq> None"
  then obtain cs where "coinsSub as bs = Some cs" by blast
  from coinsSub_Some [OF this assms(1,2)] assms(3) positiveCoins_amt [of cs d] show False by auto
qed

subsection \<open>Lookup\<close>

lemma amountOfSearch_step:
  assumes "2 \<le> length cs"
  shows "amountOfSearch cs d =
     (if d < Denom (cs ! (length cs div 2)) then amountOfSearch (take (length cs div 2) cs) d
      else if d = Denom (cs ! (length cs div 2)) then Amount (cs ! (length cs div 2))
      else amountOfSearch (drop (length cs div 2 + 1) cs) d)"
proof -
  have "length cs \<noteq> 0" "length cs \<noteq> 1" using assms by auto
  then show ?thesis by (subst amountOfSearch.simps) (simp only: Let_def if_False simp_thms)
qed
lemma amountOfSearch_amt: "sortedCoins cs \<Longrightarrow> amountOfSearch cs d = amt cs d"
proof (induction cs d rule: amountOfSearch.induct)
  case (1 cs d)
  consider "length cs = 0" | "length cs = 1" | "2 \<le> length cs" by linarith
  then show ?case
  proof cases
    case 1
    then show ?thesis by (subst amountOfSearch.simps) simp
  next
    case 2
    then obtain c where "cs = [c]" by (auto simp: length_Suc_conv)
    then show ?thesis by (subst amountOfSearch.simps) simp
  next
    case 3
    define m where "m = length cs div 2"
    define l c r where "l = take m cs" and "c = cs ! m" and "r = drop (m + 1) cs"
    have m: "m < length cs" using 3 by (simp add: m_def)
    then have cs: "cs = l @ c # r" by (simp add: id_take_nth_drop l_def c_def r_def)
    have sp: "sortedCoins l" "sortedCoins r" "\<forall>x\<in>set l. Denom x < Denom c"
      "\<forall>x\<in>set r. Denom c < Denom x"
      using "1.prems" by (simp_all add: cs sortedCoins_append)
    have a: "amt cs d = amt l d + (if Denom c = d then Amount c else 0) + amt r d"
      by (simp add: cs)
    have l: "Denom c \<le> d \<Longrightarrow> amt l d = 0" using sp(3) by (intro amt_notin) (metis imageE leD)
    have r: "d \<le> Denom c \<Longrightarrow> amt r d = 0" using sp(4) by (intro amt_notin) (metis imageE leD)
    have step: "amountOfSearch cs d =
        (if d < Denom c then amountOfSearch l d else if d = Denom c then Amount c
         else amountOfSearch r d)"
      unfolding l_def c_def r_def m_def by (rule amountOfSearch_step [OF 3])
    have ne: "length cs \<noteq> 0" "length cs \<noteq> 1" using 3 by auto
    have il: "d < Denom c \<Longrightarrow> amountOfSearch l d = amt l d"
      using "1.IH"(1) [OF ne m_def c_def _ sp(1) [unfolded l_def]] unfolding l_def .
    have ir: "\<not> d < Denom c \<Longrightarrow> d \<noteq> Denom c \<Longrightarrow> amountOfSearch r d = amt r d"
      using "1.IH"(2) [OF ne m_def c_def _ _ sp(2) [unfolded r_def]] unfolding r_def .
    show ?thesis
    proof (rule linorder_cases [of d "Denom c"])
      assume "d < Denom c"
      then have "d < Denom c" "Denom c \<noteq> d" "d \<le> Denom c" by auto
      with step il a r show ?thesis by simp
    next
      assume "d = Denom c"
      with step a l r show ?thesis by simp
    next
      assume "Denom c < d"
      then have "\<not> d < Denom c" "Denom c \<noteq> d" "Denom c \<le> d" by auto
      with step ir a l show ?thesis by simp
    qed
  qed
qed

subsection \<open>Validity\<close>

lemma validTail_positive:
  "validTail d cs \<Longrightarrow> positiveCoins cs \<and> (\<forall>x\<in>set cs. d < Denom x)"
proof (induction cs arbitrary: d)
  case (Cons c cs)
  then have c: "d < Denom c" "0 < Amount c" and t: "validTail (Denom c) cs"
    by (auto simp: coinIsPositive_def not_le split: if_splits)
  from Cons.IH [OF t] c show ?case by (auto simp: positiveCoins_def intro: less_trans)
qed (simp add: positiveCoins_def)

lemma IsValid_positive: "IsValid cs \<Longrightarrow> positiveCoins cs"
proof (cases cs)
  case (Cons c cs')
  assume "IsValid cs"
  with Cons have "0 < Amount c" "validTail (Denom c) cs'"
    by (auto simp: coinIsPositive_def split: if_splits)
  with Cons validTail_positive [of "Denom c" cs'] show ?thesis by (auto simp: positiveCoins_def)
qed (simp add: positiveCoins_def)

text \<open>Sorting by insertion evaluates on symbolic terms too.\<close>

lemma SortCoins_insort [code]: "SortCoins coins = foldr (insort_key Denom) coins []"
  by (simp add: SortCoins_def sort_key_def)

lemma amt_sort [simp]: "amt (SortCoins cs) d = amt cs d"
proof -
  have ins: "amt (insort_key Denom c cs) d = amt (c # cs) d" for c cs
    by (induction cs) auto
  show ?thesis by (induction cs) (simp_all add: SortCoins_def ins)
qed

lemma NewCoins_spec:
  assumes "NewCoins coins = Some cs"
  shows "IsValid cs \<and> (\<forall>d. amt cs d = amt coins d)"
proof -
  have e: "removeZeroCoins coins = removeZeroDecCoins coins"
    by (simp add: removeZeroCoins_def removeZeroDecCoins_def)
  show ?thesis
  proof (cases "removeZeroDecCoins coins = []")
    case True
    with assms have "cs = []" by (simp add: NewCoins_def e)
    moreover have "amt (removeZeroDecCoins coins) d = 0" for d by (simp add: True)
    ultimately show ?thesis by simp
  next
    case False
    with assms have "IsValid cs" "cs = SortCoins (removeZeroDecCoins coins) \<or> cs = removeZeroDecCoins coins"
      by (auto simp: NewCoins_def e Let_def split: if_splits)
    then show ?thesis by auto
  qed
qed

lemma coinsAdd_positive:
  assumes "coinsAdd as bs = Some cs" "positiveCoins as" "positiveCoins bs"
  shows "positiveCoins cs"
proof -
  have s: "sortedCoins as" "sortedCoins bs" using assms by (simp_all add: positiveCoins_def)
  have *: "safeAdd as bs = Some cs" using assms by (simp add: coinsAdd_def)
  from safeAdd_normal [OF * s] have "normalCoins cs" .
  then show ?thesis
    using safeAdd_amt [OF *] positiveCoins_amt assms(2,3) by (simp add: normalCoins_positive_iff)
qed

subsection \<open>Comparison\<close>

lemma anyCoin_Some:
  "(\<And>c. c \<in> set cs \<Longrightarrow> p c = Some (q c)) \<Longrightarrow> anyCoin p cs = Some (\<exists>c\<in>set cs. q c)"
  by (induction cs) auto

lemma AmountOf_amt: "sortedCoins cs \<Longrightarrow> ValidateDenom d \<Longrightarrow> AmountOf cs d = Some (amt cs d)"
  by (simp add: AmountOf_def amountOfSearch_amt)

lemma positiveCoins_le_iff:
  assumes "sortedCoins bs" "positiveCoins as"
  shows "(\<forall>c\<in>set bs. Amount c \<le> amt as (Denom c)) \<longleftrightarrow> (\<forall>d. amt bs d \<le> amt as d)"
proof
  assume *: "\<forall>c\<in>set bs. Amount c \<le> amt as (Denom c)"
  show "\<forall>d. amt bs d \<le> amt as d"
  proof
    fix d
    show "amt bs d \<le> amt as d"
    proof (cases "d \<in> Denom ` set bs")
      case True
      with * assms(1) show ?thesis by (auto simp: amt_sorted)
    next
      case False
      then show ?thesis using positiveCoins_amt [OF assms(2)] by (simp add: amt_notin)
    qed
  qed
next
  assume "\<forall>d. amt bs d \<le> amt as d"
  then show "\<forall>c\<in>set bs. Amount c \<le> amt as (Denom c)"
    using assms(1) by (metis amt_sorted)
qed

lemma IsAllGTE_iff:
  assumes "positiveCoins as" "positiveCoins bs" "\<forall>c\<in>set bs. ValidateDenom (Denom c)"
  shows "IsAllGTE as bs = Some (\<forall>d. amt bs d \<le> amt as d)"
proof (cases "as = [] \<or> bs = []")
  case True
  have "amt bs d \<le> 0 \<longleftrightarrow> amt bs d = 0" for d
    using positiveCoins_amt [OF assms(2), of d] by auto
  moreover have "bs = []" if "\<And>d. amt bs d = 0"
    using that by (intro normalCoins_ext [OF positiveCoins_normal [OF assms(2)]])
      (simp_all add: normalCoins_def)
  ultimately show ?thesis
    using True positiveCoins_amt [OF assms(1)] by (auto simp: IsAllGTE_def)
next
  case False
  have s: "sortedCoins as" "sortedCoins bs" using assms by (simp_all add: positiveCoins_def)
  have "anyCoin (\<lambda>coinB. map_option (\<lambda>a. Amount coinB > a) (AmountOf as (Denom coinB))) bs
      = Some (\<exists>c\<in>set bs. Amount c > amt as (Denom c))"
    by (rule anyCoin_Some) (use s assms(3) in \<open>simp add: AmountOf_amt\<close>)
  with False show ?thesis
    using positiveCoins_le_iff [OF s(2) assms(1)] by (auto simp: IsAllGTE_def not_less)
qed

subsection \<open>Printed coins\<close>

definition isDenomChar :: "char \<Rightarrow> bool" where
  "isDenomChar c \<longleftrightarrow> isLowerChar c \<or> isDigit c \<or> c = CHR ''-'' \<or> c = CHR ''_''"

lemma char_le_iff: "c \<le> d \<longleftrightarrow> (of_char c :: nat) \<le> of_char d"
  by (simp add: less_eq_char_def)

lemma isLowerChar_code: "isLowerChar c \<longleftrightarrow> 97 \<le> (of_char c :: nat) \<and> (of_char c :: nat) \<le> 122"
  by (simp add: isLowerChar_def inRange_def char_le_iff)

lemma isHexChar_denom: "isHexChar c \<Longrightarrow> isDenomChar c"
  by (auto simp: isHexChar_def isDenomChar_def isLowerChar_code inRange_def char_le_iff)

lemma isDenomChar_not_space: "isDenomChar c \<Longrightarrow> \<not> isSpaceChar c"
  by (auto simp: isDenomChar_def isSpaceChar_def isLowerChar_code isDigit_def)

lemma isLowerChar_not: "isLowerChar c \<Longrightarrow> \<not> isAmountChar c \<and> \<not> isSpaceChar c"
  by (auto simp: isLowerChar_code isAmountChar_def isDigit_def decimalPoint_def isSpaceChar_def)

lemma reDnm_chars:
  assumes "reDnm s"
  shows "s \<noteq> [] \<and> isLowerChar (hd s) \<and> list_all isDenomChar s"
proof -
  let ?p = "\<lambda>c. c \<noteq> CHR ''-''"
  define b r where "b = takeWhile ?p s" and "r = dropWhile ?p s"
  have s: "s = b @ r" by (simp add: b_def r_def)
  from assms obtain c cs where b: "b = c # cs" "isLowerChar c" "list_all (\<lambda>x. isLowerChar x \<or> isDigit x) cs"
    by (auto simp: reDnm_def Let_def b_def [symmetric] split: list.splits)
  from assms have "r = [] \<or> (\<exists>h. r = CHR ''-'' # h \<and> list_all isHexChar h)"
    using hd_dropWhile [of ?p s]
    by (auto simp: reDnm_def Let_def r_def [symmetric] split: list.splits)
  then have "list_all isDenomChar r"
    by (auto simp: list_all_iff isHexChar_denom) (simp add: isDenomChar_def)
  with b s show ?thesis by (auto simp: list_all_iff isDenomChar_def)
qed

lemma splitOn_chars: "set s \<subseteq> insert c (\<Union>w\<in>set (splitOn c s). set w)"
proof (induction s)
  case (Cons x s)
  show ?case
  proof (cases "splitOn c s")
    case Nil
    with Cons show ?thesis by auto
  next
    case (Cons w ws)
    with Cons.IH show ?thesis by auto
  qed
qed simp

lemma rePool_chars:
  assumes "rePoolTokenDnm s"
  shows "s \<noteq> [] \<and> isLowerChar (hd s) \<and> list_all isDenomChar s"
proof -
  from assms obtain a b where ab: "splitOn (CHR ''_'') (drop 8 s) = [a, b]" "reDnm a" "reDnm b"
    and t: "take 8 s = ''ammswap_''"
    by (auto simp: rePoolTokenDnm_def hasPrefix_def eval_nat_numeral split: list.splits)
  have "list_all isDenomChar (drop 8 s)"
    using splitOn_chars [of "drop 8 s" "CHR ''_''"] ab reDnm_chars [OF ab(2)] reDnm_chars [OF ab(3)]
    by (auto simp: list_all_iff isDenomChar_def subset_iff)
  moreover have "list_all isDenomChar ''ammswap_''"
    by (simp add: isDenomChar_def isLowerChar_code)
  ultimately have "list_all isDenomChar (take 8 s @ drop 8 s)"
    unfolding t list_all_append by blast
  moreover have "isLowerChar (hd s)" "s \<noteq> []"
    using t by (cases s; simp add: isLowerChar_code)+
  ultimately show ?thesis by simp
qed

lemma dropWhile_hd: "s \<noteq> [] \<Longrightarrow> \<not> p (hd s) \<Longrightarrow> dropWhile p s = s"
  by (cases s) simp_all

lemma TrimSpace_id:
  "s \<noteq> [] \<Longrightarrow> \<not> isSpaceChar (hd s) \<Longrightarrow> \<not> isSpaceChar (last s) \<Longrightarrow> TrimSpace s = s"
  by (simp add: TrimSpace_def dropWhile_hd hd_rev)

lemma DecToString_amount:
  assumes "0 \<le> d"
  shows "DecToString d \<noteq> [] \<and> isDigit (hd (DecToString d)) \<and> list_all isAmountChar (DecToString d) \<and>
    reDecAmt (DecToString d)"
proof -
  obtain a b where ab:
    "DecToString d = (if d < 0 then CHR ''-'' # a @ decimalPoint # b else a @ decimalPoint # b)"
    "a \<noteq> []" "length b = Precision" "list_all isDigit (a @ b)"
    by (rule DecToString_shape)
  then have "b \<noteq> []" by (auto simp: Precision_def)
  moreover have "isDigit (hd a)" using ab by (cases a) auto
  moreover have "splitOn decimalPoint (a @ decimalPoint # b) = [a, b]"
    using digits_no_point [OF ab(4)] by (simp add: splitOn_append splitOn_absent)
  ultimately show ?thesis using assms ab
    by (simp add: reDecAmt_def isAmountChar_def list_all_iff)
qed

lemma reDecCoin_String:
  assumes "0 \<le> Amount c" "reDnm (Denom c) \<or> rePoolTokenDnm (Denom c)"
  shows "TrimSpace (coinToString c) = coinToString c" (is ?trim)
    and "reDecCoin (coinToString c) = Some (DecToString (Amount c), Denom c)"
proof -
  let ?s = "DecToString (Amount c)" and ?d = "Denom c"
  have s: "?s \<noteq> []" "isDigit (hd ?s)" "list_all isAmountChar ?s" "reDecAmt ?s"
    using DecToString_amount [OF assms(1)] by simp_all
  have d: "?d \<noteq> []" "isLowerChar (hd ?d)" "list_all isDenomChar ?d"
    using assms(2) reDnm_chars rePool_chars by blast+
  have "isDenomChar (last ?d)" "isDenomChar (hd ?s)"
    using d s by (auto simp: list_all_iff isDenomChar_def)
  then show ?trim
    using s d by (intro TrimSpace_id) (simp_all add: coinToString_def isDenomChar_not_space)
  have n: "\<not> isAmountChar (hd ?d)" "\<not> isSpaceChar (hd ?d)" using isLowerChar_not [OF d(2)] by simp_all
  have "takeWhile isAmountChar (?s @ ?d) = ?s" "dropWhile isAmountChar (?s @ ?d) = ?d"
    using s(3) d(1) n(1) by (cases ?d; simp add: list_all_iff takeWhile_append2 dropWhile_append2)+
  with s(4) d(1) n(2) assms(2) show "reDecCoin (coinToString c) = Some (?s, ?d)"
    by (simp add: reDecCoin_def coinToString_def dropWhile_hd)
qed

section \<open>Properties\<close>

text \<open>
  C20. \<open>DecCoins.Add\<close> on two sorted coin sets whose sums fit returns a set that is again sorted,
  holds no zero coin, and holds of every denomination the sum of what the two sets hold.
\<close>

theorem coinsAdd_correct:
  assumes "sortedCoins as" "sortedCoins bs" "\<And>d. \<bar>amt as d + amt bs d\<bar> < decLimit"
  shows "\<exists>cs. coinsAdd as bs = Some cs \<and> normalCoins cs \<and> (\<forall>d. amt cs d = amt as d + amt bs d)"
proof -
  from safeAdd_defined [OF assms] obtain cs where cs: "safeAdd as bs = Some cs" by blast
  with safeAdd_normal [OF cs assms(1,2)] safeAdd_amt [OF cs] show ?thesis
    by (auto simp: coinsAdd_def)
qed

theorem coinsAdd_correct_witness:
  "\<exists>cs. coinsAdd [mkCoin ''okb'' 5] [mkCoin ''okb'' 2, mkCoin ''okt'' 7] = Some cs \<and> normalCoins cs \<and>
     amt cs ''okb'' = 7"
proof -
  have "\<bar>amt [mkCoin ''okb'' 5] d + amt [mkCoin ''okb'' 2, mkCoin ''okt'' 7] d\<bar> < decLimit" for d
    by (simp add: decLimit_def)
  from coinsAdd_correct [OF _ _ this] show ?thesis by auto
qed

text \<open>
  C21. \<open>DecCoins.Sub\<close> on sets of positive coins panics exactly when some denomination would become
  negative; otherwise the result is a set of positive coins holding the differences. In particular
  it undoes \<open>Add\<close>.
\<close>

theorem coinsSub_correct:
  assumes "positiveCoins as" "positiveCoins bs" "\<And>d. amt as d < decLimit"
  shows "(coinsSub as bs = None \<longleftrightarrow> (\<exists>d. amt as d < amt bs d)) \<and>
    (\<forall>cs. coinsSub as bs = Some cs \<longrightarrow> positiveCoins cs \<and> (\<forall>d. amt cs d = amt as d - amt bs d)) \<and>
    (\<forall>cs. coinsAdd as bs = Some cs \<longrightarrow> coinsSub cs bs = Some as)"
proof (intro conjI allI impI)
  have s: "sortedCoins as" "sortedCoins bs" using assms by (simp_all add: positiveCoins_def)
  have lim: "amt as d - amt bs d < decLimit" for d
    using assms(3) [of d] positiveCoins_amt [OF assms(2), of d] by simp
  show "coinsSub as bs = None \<longleftrightarrow> (\<exists>d. amt as d < amt bs d)"
    using coinsSub_neg_None [OF s] coinsSub_defined [OF s _ lim] by (metis not_None_eq not_less)
  fix cs
  show "positiveCoins cs" "amt cs d = amt as d - amt bs d" if "coinsSub as bs = Some cs" for d
    using coinsSub_Some [OF that s] by simp_all
  assume "coinsAdd as bs = Some cs"
  then have cs: "safeAdd as bs = Some cs" by (simp add: coinsAdd_def)
  have sc: "sortedCoins cs" by (rule safeAdd_sorted [OF cs s])
  have "\<exists>r. coinsSub cs bs = Some r"
    using safeAdd_amt [OF cs] positiveCoins_amt [OF assms(1)] assms(3)
    by (intro coinsSub_defined [OF sc s(2)]) simp_all
  then obtain r where r: "coinsSub cs bs = Some r" by blast
  have "r = as"
    using coinsSub_Some [OF r sc s(2)] safeAdd_amt [OF cs] assms(1)
    by (intro normalCoins_ext) (simp_all add: positiveCoins_normal)
  with r show "coinsSub cs bs = Some as" by simp
qed

theorem coinsSub_correct_witness:
  "coinsSub [mkCoin ''okb'' 5] [mkCoin ''okt'' 7] = None"
proof -
  have "amt [mkCoin ''okb'' 5] d < decLimit" for d by (simp add: decLimit_def)
  from coinsSub_correct [OF _ _ this, of "[mkCoin ''okt'' 7]"] show ?thesis
    by (auto simp: positiveCoins_def intro: exI [of _ "''okt''"])
qed

text \<open>
  C22. \<open>AmountOf\<close>, a binary search, returns the amount held of a valid denomination, and \<open>IsAllGTE\<close>,
  which calls it for every coin of its argument, is the pointwise order on amounts.
\<close>

theorem AmountOf_IsAllGTE_correct:
  assumes "positiveCoins as" "positiveCoins bs" "ValidateDenom d"
    "\<forall>c\<in>set bs. ValidateDenom (Denom c)"
  shows "AmountOf as d = Some (amt as d) \<and> IsAllGTE as bs = Some (\<forall>d. amt bs d \<le> amt as d)"
  using assms by (simp add: AmountOf_amt IsAllGTE_iff positiveCoins_def)

theorem AmountOf_IsAllGTE_correct_witness:
  "AmountOf [mkCoin ''okb'' 5, mkCoin ''okt'' 7] ''okt'' = Some 7 \<and>
   IsAllGTE [mkCoin ''okb'' 5, mkCoin ''okt'' 7] [mkCoin ''okb'' 6] = Some False"
proof -
  have v: "ValidateDenom ''okt''" "ValidateDenom ''okb''" by code_simp+
  have "\<not> (\<forall>d. amt [mkCoin ''okb'' 6] d \<le> amt [mkCoin ''okb'' 5, mkCoin ''okt'' 7] d)"
    by (auto intro!: exI [of _ "''okb''"])
  moreover have "positiveCoins [mkCoin ''okb'' 5, mkCoin ''okt'' 7]" "positiveCoins [mkCoin ''okb'' 6]"
    by (simp_all add: positiveCoins_def less_list_code less_char_def)
  ultimately show ?thesis
    using AmountOf_IsAllGTE_correct [of "[mkCoin ''okb'' 5, mkCoin ''okt'' 7]" "[mkCoin ''okb'' 6]" "''okt''"]
      v by auto
qed

text \<open>
  C23. Parsing a printed coin gives the coin back, for every ordinary or pool-token denomination and
  every amount of at most 255 bits; a larger amount is rejected as out of range.
\<close>

theorem ParseDecCoin_String:
  assumes "0 \<le> Amount c" "reDnm (Denom c) \<or> rePoolTokenDnm (Denom c)"
  shows "ParseDecCoin (coinToString c) =
    Some (if Amount c < 2 ^ 255 then Inr c else Inl (ErrParseAmount ErrOutOfRange))"
proof -
  have d: "ValidateDenom (Denom c)" using assms(2) by (auto simp: ValidateDenom_def)
  have n: "NewDecFromStr (DecToString (Amount c)) =
      (if Amount c < 2 ^ 255 then Inr (Amount c) else Inl ErrOutOfRange)"
    using assms(1) by (simp add: NewDecFromStr_print)
  show ?thesis
    unfolding ParseDecCoin_def Let_def reDecCoin_String [OF assms]
    using assms(1) d by (simp add: parseMatches_def n NewDecCoinFromDec_def)
qed

theorem ParseDecCoin_String_witness:
  "ParseDecCoin (coinToString (mkCoin ''ammswap_okb_okt'' 1500)) = Some (Inr (mkCoin ''ammswap_okb_okt'' 1500))"
proof -
  have "rePoolTokenDnm ''ammswap_okb_okt''" by code_simp
  with ParseDecCoin_String [of "mkCoin ''ammswap_okb_okt'' 1500"] show ?thesis by simp
qed

end
