(* ===== verification/Bank.thy ===== *)
theory Bank
  imports Coins
begin

text \<open>
  The bank: \<open>libs/cosmos-sdk/x/bank\<close> (\<open>internal/keeper/keeper.go\<close>, \<open>internal/types/msgs.go\<close>,
  \<open>handler.go\<close>). The state is the account store of the auth module. Vesting accounts are not
  modelled, so the spendable coins of an account are all its coins. Gas, events and the account
  cache of the context (which only exists while the ante handler runs) are not part of the state.
\<close>

section \<open>Definitions\<close>

type_synonym AccAddress = string

text \<open>A plain account has no module part; a module account has its name and permissions.\<close>

record Account =
  AccCoins :: Coins
  AccModule :: "(string \<times> string list) option"

record bank =
  accounts :: "AccAddress \<rightharpoonup> Account"
  sendEnabled :: bool
  blacklistedAddrs :: "AccAddress \<Rightarrow> bool"

subsection \<open>Errors\<close>

definition ErrUnauthorized :: error where "ErrUnauthorized = Error ''sdk'' 4"
definition ErrInsufficientFunds :: error where "ErrInsufficientFunds = Error ''sdk'' 5"
definition ErrUnknownRequest :: error where "ErrUnknownRequest = Error ''sdk'' 6"
definition ErrInvalidAddress :: error where "ErrInvalidAddress = Error ''sdk'' 7"
definition ErrUnknownAddress :: error where "ErrUnknownAddress = Error ''sdk'' 9"
definition ErrInvalidCoins :: error where "ErrInvalidCoins = Error ''sdk'' 10"
definition ErrNoInputs :: error where "ErrNoInputs = Error ''bank'' 1"
definition ErrNoOutputs :: error where "ErrNoOutputs = Error ''bank'' 2"
definition ErrInputOutputMismatch :: error where "ErrInputOutputMismatch = Error ''bank'' 3"
definition ErrSendDisabled :: error where "ErrSendDisabled = Error ''bank'' 4"

subsection \<open>Accounts\<close>

definition NewAccountWithAddress :: Account where
  "NewAccountWithAddress = \<lparr>AccCoins = [], AccModule = None\<rparr>"

definition GetAccount :: "AccAddress \<Rightarrow> ('x bank_scheme, Account option) action" where
  "GetAccount addr = getM (\<lambda>s. accounts s addr)"

definition SetAccount :: "AccAddress \<Rightarrow> Account \<Rightarrow> ('x bank_scheme, unit) action" where
  "SetAccount addr acc = modifyM (\<lambda>s. s\<lparr>accounts := (accounts s)(addr \<mapsto> acc)\<rparr>)"

definition accountCoins :: "Account option \<Rightarrow> Coins" where
  "accountCoins acc = (case acc of None \<Rightarrow> [] | Some a \<Rightarrow> AccCoins a)"

definition GetCoins :: "AccAddress \<Rightarrow> ('x bank_scheme, Coins) action" where
  "GetCoins addr = getM (\<lambda>s. accountCoins (accounts s addr))"

definition HasCoins :: "AccAddress \<Rightarrow> Coins \<Rightarrow> ('x bank_scheme, bool) action" where
  "HasCoins addr am = bindM (GetCoins addr) (\<lambda>cs. liftM (IsAllGTE cs am))"

subsection \<open>Transfers\<close>

definition setCoinsToAccount ::
  "AccAddress \<Rightarrow> Account option \<Rightarrow> Coins \<Rightarrow> ('x bank_scheme, unit) action" where
  "setCoinsToAccount addr acc am =
     seqM (failIf (\<not> IsValid am) ErrInvalidCoins)
       (SetAccount addr ((case acc of None \<Rightarrow> NewAccountWithAddress | Some a \<Rightarrow> a)\<lparr>AccCoins := am\<rparr>))"

definition subtractCoins ::
  "AccAddress \<Rightarrow> Account option \<Rightarrow> Coins \<Rightarrow> ('x bank_scheme, Coins) action" where
  "subtractCoins addr acc am =
     (let oldCoins = accountCoins acc; spendableCoins = oldCoins in
      bindM (liftM (SafeSub spendableCoins am)) (\<lambda>(_, hasNeg).
      seqM (failIf hasNeg ErrInsufficientFunds)
      (bindM (liftM (coinsSub oldCoins am)) (\<lambda>newCoins.
       seqM (setCoinsToAccount addr acc newCoins) (returnM newCoins)))))"

definition SubtractCoins :: "AccAddress \<Rightarrow> Coins \<Rightarrow> ('x bank_scheme, Coins) action" where
  "SubtractCoins addr am =
     seqM (failIf (\<not> IsValid am) ErrInvalidCoins)
     (bindM (GetAccount addr) (\<lambda>acc. subtractCoins addr acc am))"

definition addCoins ::
  "AccAddress \<Rightarrow> Account option \<Rightarrow> Coins \<Rightarrow> ('x bank_scheme, Coins) action" where
  "addCoins addr acc am =
     (let oldCoins = accountCoins acc in
      bindM (liftM (coinsAdd oldCoins am)) (\<lambda>newCoins.
      seqM (failIf (IsAnyNegative newCoins) ErrInsufficientFunds)
      (seqM (setCoinsToAccount addr acc newCoins) (returnM newCoins))))"

definition AddCoins :: "AccAddress \<Rightarrow> Coins \<Rightarrow> ('x bank_scheme, Coins) action" where
  "AddCoins addr am =
     seqM (failIf (\<not> IsValid am) ErrInvalidCoins)
     (bindM (GetAccount addr) (\<lambda>acc. addCoins addr acc am))"

text \<open>\<open>SetCoins\<close> builds the error for invalid coins and drops it.\<close>

definition SetCoins :: "AccAddress \<Rightarrow> Coins \<Rightarrow> ('x bank_scheme, unit) action" where
  "SetCoins addr am =
     bindM (GetAccount addr) (\<lambda>acc.
       SetAccount addr ((case acc of None \<Rightarrow> NewAccountWithAddress | Some a \<Rightarrow> a)\<lparr>AccCoins := am\<rparr>))"

definition SendCoins :: "AccAddress \<Rightarrow> AccAddress \<Rightarrow> Coins \<Rightarrow> ('x bank_scheme, unit) action" where
  "SendCoins fromAddr toAddr am =
     seqM (failIf (\<not> IsValid am) ErrInvalidCoins)
     (bindM (GetAccount fromAddr) (\<lambda>fromAcc.
      seqM (subtractCoins fromAddr fromAcc am)
      (bindM (GetAccount toAddr) (\<lambda>toAcc.
       seqM (addCoins toAddr toAcc am) (returnM ())))))"

subsection \<open>Delegation\<close>

definition trackDelegation :: "Account \<Rightarrow> Coins \<Rightarrow> Account option" where
  "trackDelegation acc am = do { c \<leftarrow> coinsSub (AccCoins acc) am; Some (acc\<lparr>AccCoins := c\<rparr>) }"

definition trackUndelegation :: "Account \<Rightarrow> Coins \<Rightarrow> Account option" where
  "trackUndelegation acc am = do { c \<leftarrow> coinsAdd (AccCoins acc) am; Some (acc\<lparr>AccCoins := c\<rparr>) }"

definition DelegateCoins :: "AccAddress \<Rightarrow> AccAddress \<Rightarrow> Coins \<Rightarrow> ('x bank_scheme, unit) action" where
  "DelegateCoins delegatorAddr moduleAccAddr am =
     bindM (GetAccount delegatorAddr) (\<lambda>delegatorAcc.
     bindM (GetAccount moduleAccAddr) (\<lambda>moduleAcc.
       case delegatorAcc of
         None \<Rightarrow> failM ErrUnknownAddress
       | Some dacc \<Rightarrow>
           seqM (failIf (moduleAcc = None) ErrUnknownAddress)
           (seqM (failIf (\<not> IsValid am) ErrInvalidCoins)
           (bindM (liftM (SafeSub (AccCoins dacc) am)) (\<lambda>(_, hasNeg).
            seqM (failIf hasNeg ErrInsufficientFunds)
            (bindM (liftM (trackDelegation dacc am)) (\<lambda>dacc'.
             seqM (SetAccount delegatorAddr dacc')
             (seqM (AddCoins moduleAccAddr am) (returnM ())))))))))"

definition UndelegateCoins :: "AccAddress \<Rightarrow> AccAddress \<Rightarrow> Coins \<Rightarrow> ('x bank_scheme, unit) action" where
  "UndelegateCoins moduleAccAddr delegatorAddr am =
     bindM (GetAccount delegatorAddr) (\<lambda>delegatorAcc.
     bindM (GetAccount moduleAccAddr) (\<lambda>moduleAcc.
       case delegatorAcc of
         None \<Rightarrow> failM ErrUnknownAddress
       | Some dacc \<Rightarrow>
           (case moduleAcc of
              None \<Rightarrow> failM ErrUnknownAddress
            | Some macc \<Rightarrow>
                seqM (failIf (\<not> IsValid am) ErrInvalidCoins)
                (bindM (liftM (SafeSub (AccCoins macc) am)) (\<lambda>(newCoins, hasNeg).
                 seqM (failIf hasNeg ErrInsufficientFunds)
                 (seqM (SetCoins moduleAccAddr newCoins)
                 (bindM (liftM (trackUndelegation dacc am)) (\<lambda>dacc'.
                  SetAccount delegatorAddr dacc'))))))))"

subsection \<open>Several inputs and outputs\<close>

record InOut =
  ioAddress :: AccAddress
  ioCoins :: Coins

type_synonym Input = InOut
type_synonym Output = InOut

definition InOutValidateBasic :: "InOut \<Rightarrow> ('s, unit) action" where
  "InOutValidateBasic io =
     seqM (failIf (length (ioAddress io) = 0) ErrInvalidAddress)
     (seqM (failIf (\<not> IsValid (ioCoins io)) ErrInvalidCoins)
     (failIf (\<not> IsAllPositive (ioCoins io)) ErrInvalidCoins))"

fun totalInOut :: "Coins \<Rightarrow> InOut list \<Rightarrow> ('s, Coins) action" where
  "totalInOut tot [] = returnM tot"
| "totalInOut tot (io # ios) =
     seqM (InOutValidateBasic io)
     (bindM (liftM (coinsAdd tot (ioCoins io))) (\<lambda>t. totalInOut t ios))"

definition ValidateInputsOutputs :: "Input list \<Rightarrow> Output list \<Rightarrow> ('s, unit) action" where
  "ValidateInputsOutputs inputs outputs =
     bindM (totalInOut [] inputs) (\<lambda>totalIn.
     bindM (totalInOut [] outputs) (\<lambda>totalOut.
     bindM (liftM (coinsIsEqual totalIn totalOut)) (\<lambda>eq.
       failIf (\<not> eq) ErrInputOutputMismatch)))"

definition subtractInput :: "Input \<Rightarrow> ('x bank_scheme, unit) action" where
  "subtractInput inp = seqM (SubtractCoins (ioAddress inp) (ioCoins inp)) (returnM ())"

definition addOutput :: "Output \<Rightarrow> ('x bank_scheme, unit) action" where
  "addOutput out =
     seqM (AddCoins (ioAddress out) (ioCoins out))
     (bindM (GetAccount (ioAddress out)) (\<lambda>acc.
        if acc = None then SetAccount (ioAddress out) NewAccountWithAddress else returnM ()))"

definition InputOutputCoins :: "Input list \<Rightarrow> Output list \<Rightarrow> ('x bank_scheme, unit) action" where
  "InputOutputCoins inputs outputs =
     seqM (ValidateInputsOutputs inputs outputs)
     (seqM (forM inputs subtractInput) (forM outputs addOutput))"

subsection \<open>Messages\<close>

record MsgSend =
  FromAddress :: AccAddress
  ToAddress :: AccAddress
  SendAmount :: Coins

record MsgMultiSend =
  Inputs :: "Input list"
  Outputs :: "Output list"

datatype BankMsg = SendMsg MsgSend | MultiSendMsg MsgMultiSend | OtherBankMsg

definition MsgSendValidateBasic :: "MsgSend \<Rightarrow> ('s, unit) action" where
  "MsgSendValidateBasic msg =
     seqM (failIf (FromAddress msg = []) ErrInvalidAddress)
     (seqM (failIf (ToAddress msg = []) ErrInvalidAddress)
     (seqM (failIf (\<not> IsValid (SendAmount msg)) ErrInvalidCoins)
     (failIf (\<not> IsAllPositive (SendAmount msg)) ErrInvalidCoins)))"

definition MsgMultiSendValidateBasic :: "MsgMultiSend \<Rightarrow> ('s, unit) action" where
  "MsgMultiSendValidateBasic msg =
     seqM (failIf (length (Inputs msg) = 0) ErrNoInputs)
     (seqM (failIf (length (Outputs msg) = 0) ErrNoOutputs)
     (ValidateInputsOutputs (Inputs msg) (Outputs msg)))"

definition GetSendEnabled :: "('x bank_scheme, bool) action" where
  "GetSendEnabled = getM sendEnabled"

definition SetSendEnabled :: "bool \<Rightarrow> ('x bank_scheme, unit) action" where
  "SetSendEnabled enabled = modifyM (\<lambda>s. s\<lparr>sendEnabled := enabled\<rparr>)"

definition BlacklistedAddr :: "AccAddress \<Rightarrow> ('x bank_scheme, bool) action" where
  "BlacklistedAddr addr = getM (\<lambda>s. blacklistedAddrs s addr)"

definition handleMsgSend :: "MsgSend \<Rightarrow> ('x bank_scheme, unit) action" where
  "handleMsgSend msg =
     bindM GetSendEnabled (\<lambda>enabled.
     seqM (failIf (\<not> enabled) ErrSendDisabled)
     (bindM (BlacklistedAddr (ToAddress msg)) (\<lambda>black.
      seqM (failIf black ErrUnauthorized)
      (SendCoins (FromAddress msg) (ToAddress msg) (SendAmount msg)))))"

definition handleMsgMultiSend :: "MsgMultiSend \<Rightarrow> ('x bank_scheme, unit) action" where
  "handleMsgMultiSend msg =
     bindM GetSendEnabled (\<lambda>enabled.
     seqM (failIf (\<not> enabled) ErrSendDisabled)
     (seqM (forM (Outputs msg) (\<lambda>out.
        bindM (BlacklistedAddr (ioAddress out)) (\<lambda>black. failIf black ErrUnauthorized)))
     (InputOutputCoins (Inputs msg) (Outputs msg))))"

fun bankHandler :: "BankMsg \<Rightarrow> ('x bank_scheme, unit) action" where
  "bankHandler (SendMsg msg) = handleMsgSend msg"
| "bankHandler (MultiSendMsg msg) = handleMsgMultiSend msg"
| "bankHandler OtherBankMsg = failM ErrUnknownRequest"

section \<open>Balances\<close>

definition coinsOf :: "'x bank_scheme \<Rightarrow> AccAddress \<Rightarrow> Coins" where
  "coinsOf s a = accountCoins (accounts s a)"

definition balance :: "'x bank_scheme \<Rightarrow> AccAddress \<Rightarrow> string \<Rightarrow> Dec" where
  "balance s a d = amt (coinsOf s a) d"

definition bankOK :: "'x bank_scheme \<Rightarrow> bool" where
  "bankOK s \<longleftrightarrow> finite (dom (accounts s)) \<and> (\<forall>a. positiveCoins (coinsOf s a))"

definition totalOf :: "'x bank_scheme \<Rightarrow> string \<Rightarrow> Dec" where
  "totalOf s d = (\<Sum>a\<in>dom (accounts s). balance s a d)"

text \<open>
  What a transfer does: only the account store changes, balances stay valid, and balances change
  by a given amount per address and denomination.
\<close>

definition transfers :: "'x bank_scheme \<Rightarrow> 'x bank_scheme \<Rightarrow> (AccAddress \<Rightarrow> string \<Rightarrow> Dec) \<Rightarrow> bool" where
  "transfers s s' f \<longleftrightarrow>
     bankOK s' \<and> s' = s\<lparr>accounts := accounts s'\<rparr> \<and> dom (accounts s) \<subseteq> dom (accounts s') \<and>
     (\<forall>a d. balance s' a d = balance s a d + f a d)"

definition delta :: "AccAddress \<Rightarrow> Coins \<Rightarrow> AccAddress \<Rightarrow> string \<Rightarrow> Dec" where
  "delta a m = (\<lambda>x d. if x = a then amt m d else 0)"

lemma positiveCoins_Nil [simp]: "positiveCoins []"
  by (simp add: positiveCoins_def)

lemma balance_outside: "a \<notin> dom (accounts s) \<Longrightarrow> balance s a d = 0"
  by (auto simp: balance_def coinsOf_def accountCoins_def domIff)

lemma balance_nonneg: "bankOK s \<Longrightarrow> 0 \<le> balance s a d"
  by (simp add: bankOK_def balance_def positiveCoins_amt)

lemma totalOf_superset:
  assumes "finite A" "dom (accounts s) \<subseteq> A"
  shows "totalOf s d = (\<Sum>a\<in>A. balance s a d)"
  unfolding totalOf_def using assms by (intro sum.mono_neutral_left) (auto simp: balance_outside)

lemma transfers_refl: "bankOK s \<Longrightarrow> transfers s s (\<lambda>_ _. 0)"
  by (simp add: transfers_def)

lemma transfers_trans:
  assumes "transfers s s1 f" "transfers s1 s2 g"
  shows "transfers s s2 (\<lambda>a d. f a d + g a d)"
proof -
  from assms(1) obtain A where "s1 = s\<lparr>accounts := A\<rparr>" unfolding transfers_def by blast
  with assms show ?thesis by (simp add: transfers_def) blast
qed

lemma transfers_bankOK: "transfers s s' f \<Longrightarrow> bankOK s'"
  by (simp add: transfers_def)

lemma transfers_balance: "transfers s s' f \<Longrightarrow> balance s' a d = balance s a d + f a d"
  by (simp add: transfers_def)

lemma transfers_cong: "transfers s s' f \<Longrightarrow> (\<And>a d. f a d = g a d) \<Longrightarrow> transfers s s' g"
  by (simp add: transfers_def)

lemma transfers_total:
  assumes "transfers s s' f" "bankOK s" "finite A" "\<And>a. a \<notin> A \<Longrightarrow> f a d = 0"
  shows "totalOf s' d = totalOf s d + (\<Sum>a\<in>A. f a d)"
proof -
  let ?B = "A \<union> dom (accounts s) \<union> dom (accounts s')"
  have fin: "finite ?B" using assms by (auto simp: transfers_def bankOK_def)
  have "totalOf s' d = (\<Sum>a\<in>?B. balance s' a d)" using fin by (intro totalOf_superset) auto
  also have "\<dots> = (\<Sum>a\<in>?B. balance s a d) + (\<Sum>a\<in>?B. f a d)"
    using transfers_balance [OF assms(1)] by (simp add: sum.distrib)
  also have "(\<Sum>a\<in>?B. f a d) = (\<Sum>a\<in>A. f a d)"
    using fin assms(4) by (intro sum.mono_neutral_right) auto
  also have "(\<Sum>a\<in>?B. balance s a d) = totalOf s d"
    using fin by (intro totalOf_superset [symmetric]) auto
  finally show ?thesis .
qed

lemma sum_delta: "finite A \<Longrightarrow> a \<in> A \<Longrightarrow> (\<Sum>x\<in>A. delta a m x d) = amt m d"
  by (simp add: delta_def)

lemma totalOf_set:
  assumes "bankOK s" "positiveCoins (AccCoins acc)"
  shows "transfers s (s\<lparr>accounts := (accounts s)(a \<mapsto> acc)\<rparr>)
    (\<lambda>x d. if x = a then amt (AccCoins acc) d - balance s a d else 0)"
  using assms by (auto simp: transfers_def bankOK_def balance_def coinsOf_def accountCoins_def)

text \<open>The interface of the bank: an action that moves coins.\<close>

locale transfer_op =
  fixes act :: "('x bank_scheme, 'r) action" and change :: "AccAddress \<Rightarrow> string \<Rightarrow> Dec"
  assumes effect: "bankOK s \<Longrightarrow> act s = Ret r s' \<Longrightarrow> transfers s s' change"
begin

lemma keeps_bankOK: "bankOK s \<Longrightarrow> act s = Ret r s' \<Longrightarrow> bankOK s'"
  using effect transfers_bankOK by blast

lemma changes_only_accounts: "bankOK s \<Longrightarrow> act s = Ret r s' \<Longrightarrow> s' = s\<lparr>accounts := accounts s'\<rparr>"
  using effect unfolding transfers_def by blast

lemma balance_after: "bankOK s \<Longrightarrow> act s = Ret r s' \<Longrightarrow> balance s' a d = balance s a d + change a d"
  using effect transfers_balance by blast

text \<open>No address can lose more than it has.\<close>

lemma debit_covered: "bankOK s \<Longrightarrow> act s = Ret r s' \<Longrightarrow> - change a d \<le> balance s a d"
  using balance_after [of s r s' a d] keeps_bankOK [of s r s'] balance_nonneg [of s' a d] by simp

lemma deliver_bankOK: "bankOK s \<Longrightarrow> bankOK (deliver act s)"
  by (rule deliver_invariant) (auto intro: keeps_bankOK)

end

text \<open>An action that moves coins without creating or destroying any.\<close>

locale conserving_op = transfer_op +
  fixes parties :: "AccAddress set"
  assumes finite_parties: "finite parties"
    and outside: "a \<notin> parties \<Longrightarrow> change a d = 0"
    and balanced: "(\<Sum>a\<in>parties. change a d) = 0"
begin

lemma total_kept: "bankOK s \<Longrightarrow> act s = Ret r s' \<Longrightarrow> totalOf s' d = totalOf s d"
  using transfers_total [OF effect, of s r s' parties d] finite_parties outside balanced by simp

lemma deliver_total: "bankOK s \<Longrightarrow> totalOf (deliver act s) d = totalOf s d"
  by (cases "act s") (auto intro: total_kept)

end

subsection \<open>The operations of the keeper\<close>

lemma setCoins_effect:
  assumes "setCoinsToAccount a acc m s = Ret r s'" "accounts s a = acc"
  shows "IsValid m \<and> (\<exists>acc'. AccCoins acc' = m \<and> s' = s\<lparr>accounts := (accounts s)(a \<mapsto> acc')\<rparr>)"
  using assms by (simp add: setCoinsToAccount_def SetAccount_def run_simps)
    (rule exI [of _ "(case acc of None \<Rightarrow> NewAccountWithAddress | Some a \<Rightarrow> a)\<lparr>AccCoins := m\<rparr>"], simp)

lemma addCoins_effect:
  assumes "bankOK s" "addCoins a (accounts s a) m s = Ret r s'" "IsValid m"
  shows "transfers s s' (delta a m)"
proof -
  let ?old = "accountCoins (accounts s a)"
  from assms(2) obtain n where n: "coinsAdd ?old m = Some n"
    and "setCoinsToAccount a (accounts s a) n s = Ret () s'"
    by (auto simp: addCoins_def run_simps)
  from setCoins_effect [OF this(2) refl] obtain acc' where acc: "AccCoins acc' = n"
    and s': "s' = s\<lparr>accounts := (accounts s)(a \<mapsto> acc')\<rparr>" by blast
  have old: "positiveCoins ?old" using assms(1) by (simp add: bankOK_def coinsOf_def)
  have pos: "positiveCoins n" using coinsAdd_positive [OF n old IsValid_positive [OF assms(3)]] .
  have "amt n d = balance s a d + amt m d" for d
    using safeAdd_amt [of ?old m n d] n by (simp add: coinsAdd_def balance_def coinsOf_def)
  then show ?thesis
    using totalOf_set [OF assms(1), of acc' a] acc pos s' by (auto simp: delta_def intro: transfers_cong)
qed

lemma subtractCoins_effect:
  assumes "bankOK s" "subtractCoins a (accounts s a) m s = Ret r s'" "IsValid m"
  shows "transfers s s' (\<lambda>x d. - delta a m x d)"
proof -
  let ?old = "accountCoins (accounts s a)"
  from assms(2) obtain n where n: "coinsSub ?old m = Some n"
    and "setCoinsToAccount a (accounts s a) n s = Ret () s'"
    by (auto simp: subtractCoins_def Let_def run_simps split: prod.splits)
  from setCoins_effect [OF this(2) refl] obtain acc' where acc: "AccCoins acc' = n"
    and s': "s' = s\<lparr>accounts := (accounts s)(a \<mapsto> acc')\<rparr>" by blast
  have "sortedCoins ?old" "sortedCoins m"
    using assms(1) IsValid_positive [OF assms(3)] by (auto simp: bankOK_def coinsOf_def positiveCoins_def)
  from coinsSub_Some [OF n this] have "positiveCoins n" "\<And>d. amt n d = balance s a d - amt m d"
    by (auto simp: balance_def coinsOf_def)
  then show ?thesis
    using totalOf_set [OF assms(1), of acc' a] acc s' by (auto simp: delta_def intro: transfers_cong)
qed

interpretation addc: transfer_op "AddCoins a m" "delta a m" for a m
  by unfold_locales (auto simp: AddCoins_def GetAccount_def run_simps intro: addCoins_effect)

interpretation subc: transfer_op "SubtractCoins a m" "\<lambda>x d. - delta a m x d" for a m
  by unfold_locales (auto simp: SubtractCoins_def GetAccount_def run_simps intro: subtractCoins_effect)

definition moved :: "AccAddress \<Rightarrow> AccAddress \<Rightarrow> Coins \<Rightarrow> AccAddress \<Rightarrow> string \<Rightarrow> Dec" where
  "moved src dst m = (\<lambda>x d. - delta src m x d + delta dst m x d)"

lemma sum_moved: "(\<Sum>x\<in>{src, dst}. moved src dst m x d) = 0"
  by (cases "src = dst") (simp_all add: moved_def delta_def)

lemma moved_outside: "x \<notin> {src, dst} \<Longrightarrow> moved src dst m x d = 0"
  by (simp add: moved_def delta_def)

lemma SendCoins_effect:
  assumes "bankOK s" "SendCoins src dst m s = Ret r s'"
  shows "transfers s s' (moved src dst m)"
proof -
  from assms(2) obtain r1 s1 r2 where v: "IsValid m"
    and 1: "subtractCoins src (accounts s src) m s = Ret r1 s1"
    and 2: "addCoins dst (accounts s1 dst) m s1 = Ret r2 s'"
    by (auto simp: SendCoins_def GetAccount_def run_simps)
  note t1 = subtractCoins_effect [OF assms(1) 1 v]
  note t2 = addCoins_effect [OF transfers_bankOK [OF t1] 2 v]
  from transfers_trans [OF t1 t2] show ?thesis by (simp add: moved_def)
qed

interpretation send: conserving_op "SendCoins src dst m" "moved src dst m" "{src, dst}" for src dst m
  by unfold_locales (auto intro: SendCoins_effect moved_outside sum_moved simp del: sum.insert)

subsection \<open>Delegation\<close>

lemma DelegateCoins_effect:
  assumes "bankOK s" "DelegateCoins del md m s = Ret r s'"
  shows "transfers s s' (moved del md m)"
proof -
  from assms(2) obtain dacc n s1 where acc: "accounts s del = Some dacc" and v: "IsValid m"
    and n: "coinsSub (AccCoins dacc) m = Some n"
    and s1: "s1 = s\<lparr>accounts := (accounts s)(del \<mapsto> dacc\<lparr>AccCoins := n\<rparr>)\<rparr>"
    and add: "\<exists>r2. AddCoins md m s1 = Ret r2 s'"
    by (auto simp: DelegateCoins_def GetAccount_def SetAccount_def trackDelegation_def run_simps
        split: option.splits prod.splits)
  have c: "coinsOf s del = AccCoins dacc" by (simp add: coinsOf_def accountCoins_def acc)
  have "sortedCoins (AccCoins dacc)" "sortedCoins m"
    using assms(1) IsValid_positive [OF v] by (auto simp: bankOK_def positiveCoins_def c [symmetric])
  from coinsSub_Some [OF n this] have "positiveCoins n" "\<And>d. amt n d = balance s del d - amt m d"
    by (auto simp: balance_def c)
  then have t1: "transfers s s1 (\<lambda>x d. - delta del m x d)"
    using totalOf_set [OF assms(1), of "dacc\<lparr>AccCoins := n\<rparr>" del] s1
    by (auto simp: delta_def intro: transfers_cong)
  from add addc.effect [OF transfers_bankOK [OF t1]] have "transfers s1 s' (delta md m)" by blast
  from transfers_trans [OF t1 this] show ?thesis by (simp add: moved_def)
qed

lemma UndelegateCoins_effect:
  assumes "bankOK s" "UndelegateCoins md del m s = Ret r s'" "md \<noteq> del"
  shows "transfers s s' (moved md del m)"
proof -
  from assms(2) obtain dacc macc n n' s1 where acc: "accounts s del = Some dacc" "accounts s md = Some macc"
    and v: "IsValid m" and n: "SafeSub (AccCoins macc) m = Some (n, False)"
    and s1: "s1 = s\<lparr>accounts := (accounts s)(md \<mapsto> macc\<lparr>AccCoins := n\<rparr>)\<rparr>"
    and n': "coinsAdd (AccCoins dacc) m = Some n'"
    and s': "s' = s1\<lparr>accounts := (accounts s1)(del \<mapsto> dacc\<lparr>AccCoins := n'\<rparr>)\<rparr>"
    by (auto simp: UndelegateCoins_def GetAccount_def SetAccount_def SetCoins_def trackUndelegation_def
        run_simps split: option.splits prod.splits)
  from n have sub: "coinsSub (AccCoins macc) m = Some n" by (simp add: coinsSub_def)
  have c: "coinsOf s md = AccCoins macc" "coinsOf s1 del = AccCoins dacc"
    using acc assms(3) s1 by (simp_all add: coinsOf_def accountCoins_def)
  have pm: "positiveCoins m" by (rule IsValid_positive [OF v])
  have "sortedCoins (AccCoins macc)" "sortedCoins m"
    using assms(1) c(1) [symmetric] pm by (auto simp: bankOK_def positiveCoins_def)
  from coinsSub_Some [OF sub this] have "positiveCoins n" "\<And>d. amt n d = balance s md d - amt m d"
    by (auto simp: balance_def c)
  then have t1: "transfers s s1 (\<lambda>x d. - delta md m x d)"
    using totalOf_set [OF assms(1), of "macc\<lparr>AccCoins := n\<rparr>" md] s1
    by (auto simp: delta_def intro: transfers_cong)
  have "positiveCoins (AccCoins dacc)"
    using transfers_bankOK [OF t1] c(2) [symmetric] by (simp add: bankOK_def)
  from coinsAdd_positive [OF n' this pm] have "positiveCoins n'" .
  moreover have "amt n' d = balance s1 del d + amt m d" for d
    using safeAdd_amt [of "AccCoins dacc" m n' d] n' by (simp add: coinsAdd_def balance_def c)
  ultimately have "transfers s1 s' (delta del m)"
    using totalOf_set [OF transfers_bankOK [OF t1], of "dacc\<lparr>AccCoins := n'\<rparr>" del] s'
    by (auto simp: delta_def intro: transfers_cong)
  from transfers_trans [OF t1 this] show ?thesis by (simp add: moved_def)
qed

interpretation delegate: conserving_op "DelegateCoins del md m" "moved del md m" "{del, md}" for del md m
  by unfold_locales (auto intro: DelegateCoins_effect moved_outside sum_moved simp del: sum.insert)

subsection \<open>Multi-send\<close>

definition credits :: "InOut list \<Rightarrow> AccAddress \<Rightarrow> string \<Rightarrow> Dec" where
  "credits ios = (\<lambda>x d. \<Sum>io\<leftarrow>ios. delta (ioAddress io) (ioCoins io) x d)"

definition sumCoins :: "InOut list \<Rightarrow> string \<Rightarrow> Dec" where
  "sumCoins ios d = (\<Sum>io\<leftarrow>ios. amt (ioCoins io) d)"

lemma sum_credits: "finite A \<Longrightarrow> ioAddress ` set ios \<subseteq> A \<Longrightarrow> (\<Sum>x\<in>A. credits ios x d) = sumCoins ios d"
  by (induction ios) (simp_all add: credits_def sumCoins_def sum.distrib sum_delta)

lemma credits_outside: "x \<notin> ioAddress ` set ios \<Longrightarrow> credits ios x d = 0"
  by (induction ios) (simp_all add: credits_def delta_def)

lemma totalInOut_amt:
  "totalInOut tot ios s = Ret t s' \<Longrightarrow> s' = s \<and> amt t d = amt tot d + sumCoins ios d"
proof (induction ios arbitrary: tot s)
  case (Cons io ios)
  then obtain t1 where t1: "coinsAdd tot (ioCoins io) = Some t1" "totalInOut t1 ios s = Ret t s'"
    by (auto simp: run_simps InOutValidateBasic_def)
  from Cons.IH [OF t1(2)] safeAdd_amt [of tot "ioCoins io" t1 d] t1(1) show ?case
    by (simp add: coinsAdd_def sumCoins_def)
qed (simp add: run_simps sumCoins_def)

lemma equalPairs_True: "equalPairs xs ys = Some True \<Longrightarrow> length xs = length ys \<Longrightarrow> xs = ys"
  by (induction xs ys rule: equalPairs.induct)
    (auto simp: coinIsEqual_def split: if_splits intro: DecCoin.equality)

lemma coinsIsEqual_amt: "coinsIsEqual xs ys = Some True \<Longrightarrow> amt xs d = amt ys d"
proof -
  assume *: "coinsIsEqual xs ys = Some True"
  then have "SortCoins xs = SortCoins ys"
    by (intro equalPairs_True) (auto simp: coinsIsEqual_def SortCoins_def split: if_splits)
  then have "amt (SortCoins xs) d = amt (SortCoins ys) d" by simp
  then show ?thesis by simp
qed

lemma ValidateInputsOutputs_sums:
  assumes "ValidateInputsOutputs ins outs s = Ret r s'"
  shows "s' = s \<and> sumCoins ins d = sumCoins outs d"
proof -
  from assms obtain ti si tout so where i: "totalInOut [] ins s = Ret ti si"
    and o: "totalInOut [] outs si = Ret tout so" and e: "coinsIsEqual ti tout = Some True" "s' = so"
    by (auto simp: ValidateInputsOutputs_def run_simps)
  from totalInOut_amt [OF i, of d] totalInOut_amt [OF o, of d] coinsIsEqual_amt [OF e(1), of d] e(2)
  show ?thesis by simp
qed

lemma forM_transfers:
  assumes "forM xs f s = Ret r s'" "bankOK s"
    and "\<And>x s r s'. bankOK s \<Longrightarrow> f x s = Ret r s' \<Longrightarrow> transfers s s' (g x)"
  shows "transfers s s' (\<lambda>a d. \<Sum>x\<leftarrow>xs. g x a d)"
  using assms(1,2)
proof (induction xs arbitrary: s)
  case Nil
  then show ?case by (simp add: run_simps transfers_refl)
next
  case (Cons x xs)
  then obtain r1 s1 where 1: "f x s = Ret r1 s1" and 2: "forM xs f s1 = Ret r s'"
    by (auto simp: run_simps)
  note t = assms(3) [OF Cons.prems(2) 1]
  from transfers_trans [OF t Cons.IH [OF 2 transfers_bankOK [OF t]]] show ?case by simp
qed

lemma subtractInput_effect:
  "bankOK s \<Longrightarrow> subtractInput i s = Ret r s' \<Longrightarrow>
   transfers s s' (\<lambda>x d. - delta (ioAddress i) (ioCoins i) x d)"
  by (auto simp: subtractInput_def run_simps intro: subc.effect)

lemma AddCoins_known: "AddCoins a m s = Ret r s' \<Longrightarrow> accounts s' a \<noteq> None"
  by (auto simp: AddCoins_def addCoins_def setCoinsToAccount_def GetAccount_def SetAccount_def Let_def
      run_simps)

lemma addOutput_effect:
  "bankOK s \<Longrightarrow> addOutput out s = Ret r s' \<Longrightarrow>
   transfers s s' (delta (ioAddress out) (ioCoins out))"
  by (auto simp: addOutput_def GetAccount_def run_simps split: if_splits
      dest: AddCoins_known intro: addc.effect)

lemma InputOutputCoins_effect:
  assumes "bankOK s" "InputOutputCoins ins outs s = Ret r s'"
  shows "transfers s s' (\<lambda>x d. - credits ins x d + credits outs x d) \<and> sumCoins ins d = sumCoins outs d"
proof -
  from assms(2) obtain r1 s1 r2 s2 where v: "ValidateInputsOutputs ins outs s = Ret r1 s1"
    and i: "forM ins subtractInput s1 = Ret r2 s2" and o: "forM outs addOutput s2 = Ret r s'"
    by (auto simp: InputOutputCoins_def run_simps)
  from ValidateInputsOutputs_sums [OF v] have s1: "s1 = s" "sumCoins ins d = sumCoins outs d" by blast+
  have neg: "(\<Sum>i\<leftarrow>ins. - delta (ioAddress i) (ioCoins i) x e) = - credits ins x e" for x e
    by (induction ins) (simp_all add: credits_def)
  have "transfers s1 s2 (\<lambda>x e. \<Sum>i\<leftarrow>ins. - delta (ioAddress i) (ioCoins i) x e)"
    by (rule forM_transfers [OF i assms(1) [folded s1(1)]]) (rule subtractInput_effect)
  then have t1: "transfers s s2 (\<lambda>x e. - credits ins x e)" by (simp add: neg s1)
  have "transfers s2 s' (credits outs)"
    unfolding credits_def
    by (rule forM_transfers [OF o transfers_bankOK [OF t1]]) (rule addOutput_effect)
  from transfers_trans [OF t1 this] s1 show ?thesis by simp
qed

lemma InputOutputCoins_total:
  assumes "bankOK s" "InputOutputCoins ins outs s = Ret r s'"
  shows "totalOf s' d = totalOf s d"
proof -
  let ?A = "ioAddress ` set ins \<union> ioAddress ` set outs"
  have "totalOf s' d = totalOf s d + (\<Sum>x\<in>?A. - credits ins x d + credits outs x d)"
    using InputOutputCoins_effect [OF assms]
    by (intro transfers_total [OF _ assms(1)]) (auto simp: credits_outside)
  also have "(\<Sum>x\<in>?A. - credits ins x d + credits outs x d) = - sumCoins ins d + sumCoins outs d"
    by (simp add: sum_subtractf sum_credits)
  finally show ?thesis using InputOutputCoins_effect [OF assms] by simp
qed


section \<open>Properties\<close>

lemma handleMsgSend_run:
  "handleMsgSend msg s = Ret r s' \<Longrightarrow>
   SendCoins (FromAddress msg) (ToAddress msg) (SendAmount msg) s = Ret r s'"
  by (auto simp: handleMsgSend_def GetSendEnabled_def BlacklistedAddr_def run_simps)

lemma blacklist_check:
  "forM outs (\<lambda>out. bindM (BlacklistedAddr (ioAddress out)) (\<lambda>black. failIf black ErrUnauthorized)) s
     = Ret r s' \<Longrightarrow> s' = s"
  by (rule forM_invariant [where I = "\<lambda>x. x = s"]) (auto simp: run_simps BlacklistedAddr_def)

lemma handleMsgMultiSend_run:
  "handleMsgMultiSend msg s = Ret r s' \<Longrightarrow> InputOutputCoins (Inputs msg) (Outputs msg) s = Ret r s'"
  unfolding handleMsgMultiSend_def GetSendEnabled_def
  by (auto simp only: bindM_Ret_iff seqM_Ret_iff getM_Ret_iff failIf_Ret_iff dest: blacklist_check)


definition exBank :: bank where
  "exBank = \<lparr>accounts = [''alice'' \<mapsto> \<lparr>AccCoins = [mkCoin ''okt'' 5], AccModule = None\<rparr>],
     sendEnabled = True, blacklistedAddrs = (\<lambda>_. False)\<rparr>"

lemma exBank_OK: "bankOK exBank"
  by (simp add: bankOK_def exBank_def coinsOf_def accountCoins_def positiveCoins_def)

lemma exBank_total: "totalOf exBank ''okt'' = 5"
  by (simp add: totalOf_def exBank_def balance_def coinsOf_def accountCoins_def)


text \<open>
  C14. A successful \<open>SendCoins\<close> moves exactly the given coins: the sender is debited, the recipient
  credited, everybody else is untouched, also when sender and recipient coincide; the sender had the
  coins.
\<close>

theorem SendCoins_moves:
  assumes "bankOK s" "SendCoins src dst m s = Ret r s'"
  shows "balance s' a d =
      balance s a d - (if a = src then amt m d else 0) + (if a = dst then amt m d else 0) \<and>
    amt m d \<le> balance s src d"
proof -
  from assms(2) obtain r1 s1 where "IsValid m" "subtractCoins src (accounts s src) m s = Ret r1 s1"
    by (auto simp: SendCoins_def GetAccount_def run_simps)
  from subtractCoins_effect [OF assms(1) this(2,1)]
  have "0 \<le> balance s src d - amt m d"
    using balance_nonneg [of s1 src d] by (simp add: transfers_def delta_def)
  with send.balance_after [OF assms] show ?thesis by (simp add: moved_def delta_def)
qed

theorem SendCoins_moves_witness:
  "\<exists>s'. SendCoins ''alice'' ''bob'' [mkCoin ''okt'' 2] exBank = Ret () s' \<and>
     balance s' ''alice'' ''okt'' = 3 \<and> balance s' ''bob'' ''okt'' = 2"
proof -
  have "succeeds (SendCoins ''alice'' ''bob'' [mkCoin ''okt'' 2] exBank)" by code_simp
  then obtain s' where s': "SendCoins ''alice'' ''bob'' [mkCoin ''okt'' 2] exBank = Ret () s'"
    by (auto elim: succeedsE)
  have b: "balance exBank ''alice'' ''okt'' = 5" "balance exBank ''bob'' ''okt'' = 0"
    by (simp_all add: exBank_def balance_def coinsOf_def accountCoins_def)
  show ?thesis
    using SendCoins_moves [OF exBank_OK s', of "''alice''" "''okt''"]
      SendCoins_moves [OF exBank_OK s', of "''bob''" "''okt''"] b s' by auto
qed

text \<open>
  C15. A valid \<open>SendCoins\<close> for which the sender is short of some denomination fails with the error
  \<open>ErrInsufficientFunds\<close> and leaves the state as it was.
\<close>

theorem SendCoins_insufficient:
  assumes "bankOK s" "IsValid m" "balance s src e < amt m e"
    and "\<And>d. balance s src d < decLimit" "\<And>d. amt m d < decLimit"
  shows "SendCoins src dst m s = Err ErrInsufficientFunds s"
proof -
  let ?old = "accountCoins (accounts s src)"
  have pos: "positiveCoins ?old" "positiveCoins m"
    using assms(1) IsValid_positive [OF assms(2)] by (auto simp: bankOK_def coinsOf_def)
  have b: "amt ?old d = balance s src d" for d by (simp add: balance_def coinsOf_def)
  have "\<exists>cs. safeAdd ?old (negative m) = Some cs"
  proof (rule safeAdd_defined)
    show "\<bar>amt ?old d + amt (negative m) d\<bar> < decLimit" for d
      using assms(4,5) [of d] positiveCoins_amt [OF pos(1), of d] positiveCoins_amt [OF pos(2), of d]
      by (simp add: b abs_less_iff)
  qed (use pos in \<open>simp_all add: positiveCoins_def\<close>)
  then obtain cs where cs: "safeAdd ?old (negative m) = Some cs" by blast
  have n: "normalCoins cs" using safeAdd_normal [OF cs] pos by (simp add: positiveCoins_def)
  have "amt cs e < 0" using safeAdd_amt [OF cs, of e] assms(3) by (simp add: b)
  then have "IsAnyNegative cs"
    unfolding normalCoins_negative_iff [OF n] using positiveCoins_amt [of cs e] by auto
  with cs assms(2) show ?thesis
    by (simp add: SendCoins_def GetAccount_def subtractCoins_def SafeSub_def)
qed

theorem SendCoins_insufficient_witness:
  "SendCoins ''alice'' ''bob'' [mkCoin ''okt'' 7] exBank = Err ErrInsufficientFunds exBank"
proof (rule SendCoins_insufficient [OF exBank_OK, where e = "''okt''"])
  show "IsValid [mkCoin ''okt'' 7]"
    by (simp add: ValidateDenom_def DefaultBondDenom_def coinIsPositive_def)
qed (simp_all add: exBank_def balance_def coinsOf_def accountCoins_def decLimit_def)

end
