(* ===== verification/Supply.thy ===== *)
theory Supply
  imports Bank
begin

text \<open>
  Module accounts and the total supply: \<open>libs/cosmos-sdk/x/supply/internal/keeper\<close>
  (\<open>account.go\<close>, \<open>bank.go\<close>, \<open>keeper.go\<close>). The keeper's table of module addresses and permissions
  is a field of the state that no operation changes; module addresses are hashes of the module
  names, computed by code outside the repository, so they are whatever the table says.
\<close>

section \<open>Definitions\<close>

record supply_state = bank +
  supplyStore :: "string \<rightharpoonup> Dec"
  permAddrs :: "string \<rightharpoonup> (AccAddress \<times> string list)"

definition ErrInvalidDeflation :: error where "ErrInvalidDeflation = Error ''supply'' 1"

definition Minter :: string where "Minter = ''minter''"
definition Burner :: string where "Burner = ''burner''"
definition Staking :: string where "Staking = ''staking''"

definition HasPermission :: "string list \<Rightarrow> string \<Rightarrow> bool" where
  "HasPermission permissions permission = list_ex (\<lambda>perm. perm = permission) permissions"

definition accPermissions :: "Account \<Rightarrow> string list" where
  "accPermissions acc = (case AccModule acc of None \<Rightarrow> [] | Some (_, perms) \<Rightarrow> perms)"

subsection \<open>Module accounts\<close>

definition GetModuleAddress :: "string \<Rightarrow> ('x supply_state_scheme, AccAddress option) action" where
  "GetModuleAddress moduleName = getM (\<lambda>s. map_option fst (permAddrs s moduleName))"

definition GetModuleAddressAndPermissions ::
  "string \<Rightarrow> ('x supply_state_scheme, (AccAddress \<times> string list) option) action" where
  "GetModuleAddressAndPermissions moduleName = getM (\<lambda>s. permAddrs s moduleName)"

definition SetModuleAccount :: "AccAddress \<Rightarrow> Account \<Rightarrow> ('x supply_state_scheme, unit) action" where
  "SetModuleAccount addr macc = SetAccount addr macc"

definition NewEmptyModuleAccount :: "string \<Rightarrow> string list \<Rightarrow> Account" where
  "NewEmptyModuleAccount name perms = \<lparr>AccCoins = [], AccModule = Some (name, perms)\<rparr>"

text \<open>An account at the module's address that is not a module account is a panic.\<close>

definition GetModuleAccountAndPermissions ::
  "string \<Rightarrow> ('x supply_state_scheme, ((AccAddress \<times> Account) option \<times> string list)) action" where
  "GetModuleAccountAndPermissions moduleName =
     bindM (GetModuleAddressAndPermissions moduleName) (\<lambda>r.
       case r of
         None \<Rightarrow> returnM (None, [])
       | Some (addr, perms) \<Rightarrow>
           bindM (GetAccount addr) (\<lambda>acc.
             case acc of
               Some a \<Rightarrow>
                 seqM (panicIf (AccModule a = None)) (returnM (Some (addr, a), perms))
             | None \<Rightarrow>
                 (let macc = NewEmptyModuleAccount moduleName perms in
                  seqM (SetModuleAccount addr macc) (returnM (Some (addr, macc), perms)))))"

definition GetModuleAccount :: "string \<Rightarrow> ('x supply_state_scheme, (AccAddress \<times> Account) option) action" where
  "GetModuleAccount moduleName =
     bindM (GetModuleAccountAndPermissions moduleName) (\<lambda>(acc, _). returnM acc)"

text \<open>\<open>if acc == nil { panic }\<close> after \<open>GetModuleAccount\<close>.\<close>

definition mustModuleAccount :: "string \<Rightarrow> ('x supply_state_scheme, AccAddress \<times> Account) action" where
  "mustModuleAccount moduleName =
     bindM (GetModuleAccount moduleName) (\<lambda>acc.
       case acc of None \<Rightarrow> panicM | Some a \<Rightarrow> returnM a)"

definition mustModuleAddress :: "string \<Rightarrow> ('x supply_state_scheme, AccAddress) action" where
  "mustModuleAddress moduleName =
     bindM (GetModuleAddress moduleName) (\<lambda>addr.
       case addr of None \<Rightarrow> panicM | Some a \<Rightarrow> returnM a)"

subsection \<open>Transfers of module accounts\<close>

definition SendCoinsFromModuleToAccount ::
  "string \<Rightarrow> AccAddress \<Rightarrow> Coins \<Rightarrow> ('x supply_state_scheme, unit) action" where
  "SendCoinsFromModuleToAccount senderModule recipientAddr am =
     bindM (BlacklistedAddr recipientAddr) (\<lambda>black.
     seqM (failIf black ErrUnknownAddress)
     (bindM (mustModuleAddress senderModule) (\<lambda>senderAddr.
      SendCoins senderAddr recipientAddr am)))"

definition SendCoinsFromModuleToModule ::
  "string \<Rightarrow> string \<Rightarrow> Coins \<Rightarrow> ('x supply_state_scheme, unit) action" where
  "SendCoinsFromModuleToModule senderModule recipientModule am =
     bindM (mustModuleAddress senderModule) (\<lambda>senderAddr.
     bindM (mustModuleAccount recipientModule) (\<lambda>(recipientAddr, _).
      SendCoins senderAddr recipientAddr am))"

definition SendCoinsFromAccountToModule ::
  "AccAddress \<Rightarrow> string \<Rightarrow> Coins \<Rightarrow> ('x supply_state_scheme, unit) action" where
  "SendCoinsFromAccountToModule senderAddr recipientModule am =
     bindM (mustModuleAccount recipientModule) (\<lambda>(recipientAddr, _).
      SendCoins senderAddr recipientAddr am)"

definition DelegateCoinsFromAccountToModule ::
  "AccAddress \<Rightarrow> string \<Rightarrow> Coins \<Rightarrow> ('x supply_state_scheme, unit) action" where
  "DelegateCoinsFromAccountToModule senderAddr recipientModule am =
     bindM (mustModuleAccount recipientModule) (\<lambda>(recipientAddr, acc).
     seqM (panicIf (\<not> HasPermission (accPermissions acc) Staking))
     (DelegateCoins senderAddr recipientAddr am))"

definition UndelegateCoinsFromModuleToAccount ::
  "string \<Rightarrow> AccAddress \<Rightarrow> Coins \<Rightarrow> ('x supply_state_scheme, unit) action" where
  "UndelegateCoinsFromModuleToAccount senderModule recipientAddr am =
     bindM (mustModuleAccount senderModule) (\<lambda>(senderAddr, acc).
     seqM (panicIf (\<not> HasPermission (accPermissions acc) Staking))
     (UndelegateCoins senderAddr recipientAddr am))"

subsection \<open>The supply\<close>

definition supplyOf :: "'x supply_state_scheme \<Rightarrow> string \<Rightarrow> Dec" where
  "supplyOf s denom = (case supplyStore s denom of None \<Rightarrow> 0 | Some a \<Rightarrow> a)"

definition GetSupplyByDenom :: "string \<Rightarrow> ('x supply_state_scheme, Dec) action" where
  "GetSupplyByDenom denom = getM (\<lambda>s. supplyOf s denom)"

definition setTokenSupplyAmount :: "string \<Rightarrow> Dec \<Rightarrow> ('x supply_state_scheme, unit) action" where
  "setTokenSupplyAmount tokenSymbol supplyAmount =
     modifyM (\<lambda>s. s\<lparr>supplyStore := (supplyStore s)(tokenSymbol \<mapsto> supplyAmount)\<rparr>)"

definition SetSupply :: "Coins \<Rightarrow> ('x supply_state_scheme, unit) action" where
  "SetSupply tokensSupply = forM tokensSupply (\<lambda>c. setTokenSupplyAmount (Denom c) (Amount c))"

definition inflate :: "string \<Rightarrow> Dec \<Rightarrow> ('x supply_state_scheme, unit) action" where
  "inflate tokenSymbol am =
     (if am = 0 then returnM ()
      else bindM (GetSupplyByDenom tokenSymbol) (\<lambda>originalSupplyAmount.
           bindM (liftM (DecAdd originalSupplyAmount am)) (\<lambda>newAmount.
           setTokenSupplyAmount tokenSymbol newAmount)))"

definition deflate :: "string \<Rightarrow> Dec \<Rightarrow> ('x supply_state_scheme, unit) action" where
  "deflate tokenSymbol deflationAmount =
     bindM (GetSupplyByDenom tokenSymbol) (\<lambda>currentSupplyAmount.
     bindM (liftM (DecSub currentSupplyAmount deflationAmount)) (\<lambda>supplyAmount.
     seqM (failIf (supplyAmount < 0) ErrInvalidDeflation)
     (setTokenSupplyAmount tokenSymbol supplyAmount)))"

definition MintCoins :: "string \<Rightarrow> Coins \<Rightarrow> ('x supply_state_scheme, unit) action" where
  "MintCoins moduleName am =
     bindM (mustModuleAccount moduleName) (\<lambda>(addr, acc).
     seqM (panicIf (\<not> HasPermission (accPermissions acc) Minter))
     (seqM (AddCoins addr am)
     (forM am (\<lambda>c. inflate (Denom c) (Amount c)))))"

definition BurnCoins :: "string \<Rightarrow> Coins \<Rightarrow> ('x supply_state_scheme, unit) action" where
  "BurnCoins moduleName am =
     bindM (mustModuleAccount moduleName) (\<lambda>(addr, acc).
     seqM (panicIf (\<not> HasPermission (accPermissions acc) Burner))
     (seqM (SubtractCoins addr am)
     (forM am (\<lambda>c. deflate (Denom c) (Amount c)))))"

section \<open>The supply invariant\<close>

text \<open>The invariant that \<open>TotalSupply\<close> of \<open>invariants.go\<close> checks: recorded supply = coins held.\<close>

definition supplyInv :: "'x supply_state_scheme \<Rightarrow> bool" where
  "supplyInv s \<longleftrightarrow> bankOK s \<and> (\<forall>d. supplyOf s d = totalOf s d)"

lemma transfers_supply:
  assumes "transfers s s' f"
  shows "supplyStore s' = supplyStore s" "permAddrs s' = permAddrs s" "supplyOf s' d = supplyOf s d"
proof -
  from assms obtain A where "s' = s\<lparr>accounts := A\<rparr>" unfolding transfers_def by blast
  then show "supplyStore s' = supplyStore s" "permAddrs s' = permAddrs s" "supplyOf s' d = supplyOf s d"
    by (simp_all add: supplyOf_def)
qed

lemma moved_total: "transfers s s' (moved src dst m) \<Longrightarrow> bankOK s \<Longrightarrow> totalOf s' d = totalOf s d"
  using transfers_total [of s s' "moved src dst m" "{src, dst}" d] moved_outside sum_moved by simp

lemma moved_supplyInv: "transfers s s' (moved src dst m) \<Longrightarrow> supplyInv s \<Longrightarrow> supplyInv s'"
  by (simp add: supplyInv_def moved_total transfers_bankOK transfers_supply)

subsection \<open>Module accounts\<close>

lemma mustModuleAccount_effect:
  assumes "bankOK s" "mustModuleAccount md s = Ret (addr, acc) s'"
  shows "\<exists>perms. permAddrs s md = Some (addr, perms) \<and> accounts s' addr = Some acc \<and>
    transfers s s' (\<lambda>_ _. 0) \<and> (accounts s addr = None \<longrightarrow> accPermissions acc = perms)"
proof -
  from assms(2) obtain perms where p: "permAddrs s md = Some (addr, perms)"
    and acc: "(accounts s addr = Some acc \<and> s' = s) \<or>
      (accounts s addr = None \<and> acc = NewEmptyModuleAccount md perms \<and>
       s' = s\<lparr>accounts := (accounts s)(addr \<mapsto> acc)\<rparr>)"
    by (auto simp: mustModuleAccount_def GetModuleAccount_def GetModuleAccountAndPermissions_def
        GetModuleAddressAndPermissions_def GetAccount_def SetModuleAccount_def SetAccount_def Let_def
        run_simps split: option.splits prod.splits)
  from acc show ?thesis
  proof
    assume "accounts s addr = Some acc \<and> s' = s"
    with p assms(1) show ?thesis by (simp add: transfers_refl)
  next
    assume *: "accounts s addr = None \<and> acc = NewEmptyModuleAccount md perms \<and>
       s' = s\<lparr>accounts := (accounts s)(addr \<mapsto> acc)\<rparr>"
    then have "transfers s s' (\<lambda>_ _. 0)"
      using totalOf_set [OF assms(1), of acc addr] balance_outside [of addr s]
      by (auto simp: NewEmptyModuleAccount_def domIff intro: transfers_cong)
    with * p show ?thesis by (simp add: NewEmptyModuleAccount_def accPermissions_def)
  qed
qed

lemma mustModuleAddress_Ret:
  "mustModuleAddress md s = Ret addr s' \<Longrightarrow> s' = s \<and> (\<exists>perms. permAddrs s md = Some (addr, perms))"
  by (auto simp: mustModuleAddress_def GetModuleAddress_def run_simps split: option.splits)

text \<open>The address the keeper's table gives to a module.\<close>

definition moduleAddr :: "'x supply_state_scheme \<Rightarrow> string \<Rightarrow> AccAddress" where
  "moduleAddr s md = (case permAddrs s md of None \<Rightarrow> [] | Some (a, _) \<Rightarrow> a)"

lemma moduleAddr_transfers: "transfers s s' f \<Longrightarrow> moduleAddr s' md = moduleAddr s md"
  by (simp add: moduleAddr_def transfers_supply)

lemma SendCoinsFromAccountToModule_effect:
  assumes "bankOK s" "SendCoinsFromAccountToModule a md m s = Ret r s'"
  shows "transfers s s' (moved a (moduleAddr s md) m)"
proof -
  from assms(2) obtain addr acc s1 where 1: "mustModuleAccount md s = Ret (addr, acc) s1"
    and 2: "SendCoins a addr m s1 = Ret r s'"
    by (auto simp: SendCoinsFromAccountToModule_def run_simps)
  from mustModuleAccount_effect [OF assms(1) 1] have t: "transfers s s1 (\<lambda>_ _. 0)" "moduleAddr s md = addr"
    by (auto simp: moduleAddr_def)
  from transfers_trans [OF t(1) send.effect [OF transfers_bankOK [OF t(1)] 2]] t(2) show ?thesis by simp
qed

lemma SendCoinsFromModuleToAccount_effect:
  assumes "bankOK s" "SendCoinsFromModuleToAccount md a m s = Ret r s'"
  shows "transfers s s' (moved (moduleAddr s md) a m)"
proof -
  from assms(2) obtain addr where 1: "mustModuleAddress md s = Ret addr s"
    and 2: "SendCoins addr a m s = Ret r s'"
    by (auto simp: SendCoinsFromModuleToAccount_def BlacklistedAddr_def run_simps
        dest: mustModuleAddress_Ret)
  from mustModuleAddress_Ret [OF 1] have "moduleAddr s md = addr" by (auto simp: moduleAddr_def)
  with send.effect [OF assms(1) 2] show ?thesis by simp
qed

lemma SendCoinsFromModuleToModule_effect:
  assumes "bankOK s" "SendCoinsFromModuleToModule md md' m s = Ret r s'"
  shows "transfers s s' (moved (moduleAddr s md) (moduleAddr s md') m)"
proof -
  from assms(2) obtain addr addr' acc s0 s1 where 1: "mustModuleAddress md s = Ret addr s0"
    and 2: "mustModuleAccount md' s0 = Ret (addr', acc) s1" and 3: "SendCoins addr addr' m s1 = Ret r s'"
    by (auto simp: SendCoinsFromModuleToModule_def run_simps)
  from mustModuleAddress_Ret [OF 1] have [simp]: "s0 = s" by simp
  from mustModuleAccount_effect [of s md' addr' acc s1] assms(1) 2 mustModuleAddress_Ret [OF 1]
  have t: "transfers s s1 (\<lambda>_ _. 0)" "moduleAddr s md' = addr'" "moduleAddr s md = addr"
    by (auto simp: moduleAddr_def)
  from transfers_trans [OF t(1) send.effect [OF transfers_bankOK [OF t(1)] 3]] t(2,3) show ?thesis by simp
qed

lemma DelegateCoinsFromAccountToModule_effect:
  assumes "bankOK s" "DelegateCoinsFromAccountToModule a md m s = Ret r s'"
  shows "transfers s s' (moved a (moduleAddr s md) m)"
proof -
  from assms(2) obtain addr acc s1 where 1: "mustModuleAccount md s = Ret (addr, acc) s1"
    and 2: "DelegateCoins a addr m s1 = Ret r s'"
    by (auto simp: DelegateCoinsFromAccountToModule_def run_simps)
  from mustModuleAccount_effect [OF assms(1) 1] have t: "transfers s s1 (\<lambda>_ _. 0)" "moduleAddr s md = addr"
    by (auto simp: moduleAddr_def)
  from transfers_trans [OF t(1) delegate.effect [OF transfers_bankOK [OF t(1)] 2]] t(2) show ?thesis by simp
qed

lemma UndelegateCoinsFromModuleToAccount_effect:
  assumes "bankOK s" "UndelegateCoinsFromModuleToAccount md a m s = Ret r s'" "moduleAddr s md \<noteq> a"
  shows "transfers s s' (moved (moduleAddr s md) a m)"
proof -
  from assms(2) obtain addr acc s1 where 1: "mustModuleAccount md s = Ret (addr, acc) s1"
    and 2: "UndelegateCoins addr a m s1 = Ret r s'"
    by (auto simp: UndelegateCoinsFromModuleToAccount_def run_simps)
  from mustModuleAccount_effect [OF assms(1) 1] have t: "transfers s s1 (\<lambda>_ _. 0)" "moduleAddr s md = addr"
    by (auto simp: moduleAddr_def)
  from transfers_trans [OF t(1) UndelegateCoins_effect [OF transfers_bankOK [OF t(1)] 2]] t(2) assms(3)
  show ?thesis by simp
qed

lemmas module_effects = SendCoinsFromAccountToModule_effect SendCoinsFromModuleToAccount_effect
  SendCoinsFromModuleToModule_effect DelegateCoinsFromAccountToModule_effect

subsection \<open>Minting and burning\<close>

lemma inflate_effect:
  "inflate d a s = Ret r s' \<Longrightarrow>
   s' = s\<lparr>supplyStore := supplyStore s'\<rparr> \<and> supplyOf s' e = supplyOf s e + (if e = d then a else 0)"
  by (auto simp: inflate_def GetSupplyByDenom_def setTokenSupplyAmount_def supplyOf_def run_simps
      split: if_splits)

lemma deflate_effect:
  "deflate d a s = Ret r s' \<Longrightarrow>
   s' = s\<lparr>supplyStore := supplyStore s'\<rparr> \<and> supplyOf s' e = supplyOf s e - (if e = d then a else 0)"
  by (auto simp: deflate_def GetSupplyByDenom_def setTokenSupplyAmount_def supplyOf_def run_simps
      split: if_splits)

lemma inflate_all:
  "forM cs (\<lambda>c. inflate (Denom c) (Amount c)) s = Ret r s' \<Longrightarrow>
   s' = s\<lparr>supplyStore := supplyStore s'\<rparr> \<and> (\<forall>e. supplyOf s' e = supplyOf s e + amt cs e)"
proof (induction cs arbitrary: s)
  case (Cons c cs)
  then obtain r1 s1 where 1: "inflate (Denom c) (Amount c) s = Ret r1 s1"
    and 2: "forM cs (\<lambda>c. inflate (Denom c) (Amount c)) s1 = Ret r s'" by (auto simp: run_simps)
  from inflate_effect [OF 1] have i: "s1 = s\<lparr>supplyStore := supplyStore s1\<rparr>"
    "\<And>e. supplyOf s1 e = supplyOf s e + (if e = Denom c then Amount c else 0)" by blast+
  from Cons.IH [OF 2] have j: "s' = s1\<lparr>supplyStore := supplyStore s'\<rparr>"
    "\<And>e. supplyOf s' e = supplyOf s1 e + amt cs e" by blast+
  have "s' = s\<lparr>supplyStore := supplyStore s'\<rparr>" by (subst j(1), subst i(1)) simp
  with i(2) j(2) show ?case by simp
qed (simp add: run_simps)

lemma deflate_all:
  "forM cs (\<lambda>c. deflate (Denom c) (Amount c)) s = Ret r s' \<Longrightarrow>
   s' = s\<lparr>supplyStore := supplyStore s'\<rparr> \<and> (\<forall>e. supplyOf s' e = supplyOf s e - amt cs e)"
proof (induction cs arbitrary: s)
  case (Cons c cs)
  then obtain r1 s1 where 1: "deflate (Denom c) (Amount c) s = Ret r1 s1"
    and 2: "forM cs (\<lambda>c. deflate (Denom c) (Amount c)) s1 = Ret r s'" by (auto simp: run_simps)
  from deflate_effect [OF 1] have i: "s1 = s\<lparr>supplyStore := supplyStore s1\<rparr>"
    "\<And>e. supplyOf s1 e = supplyOf s e - (if e = Denom c then Amount c else 0)" by blast+
  from Cons.IH [OF 2] have j: "s' = s1\<lparr>supplyStore := supplyStore s'\<rparr>"
    "\<And>e. supplyOf s' e = supplyOf s1 e - amt cs e" by blast+
  have "s' = s\<lparr>supplyStore := supplyStore s'\<rparr>" by (subst j(1), subst i(1)) simp
  with i(2) j(2) show ?case by simp
qed (simp add: run_simps)

lemma bank_supplyStore [simp]:
  "balance (s\<lparr>supplyStore := x\<rparr>) a d = balance s a d"
  "totalOf (s\<lparr>supplyStore := x\<rparr>) d = totalOf s d"
  "bankOK (s\<lparr>supplyStore := x\<rparr>) = bankOK s"
  by (simp_all add: balance_def coinsOf_def totalOf_def bankOK_def)

text \<open>What minting and burning do to the state: the module account and the recorded supply change.\<close>

definition reissued :: "'x supply_state_scheme \<Rightarrow> 'x supply_state_scheme \<Rightarrow> AccAddress \<Rightarrow>
    (string \<Rightarrow> Dec) \<Rightarrow> bool" where
  "reissued s s' a f \<longleftrightarrow>
     bankOK s' \<and> s' = s\<lparr>accounts := accounts s', supplyStore := supplyStore s'\<rparr> \<and>
     (\<forall>x d. balance s' x d = balance s x d + (if x = a then f d else 0)) \<and>
     (\<forall>d. totalOf s' d = totalOf s d + f d) \<and>
     (\<forall>d. supplyOf s' d = supplyOf s d + f d)"

lemma reissued_supplyInv: "reissued s s' a f \<Longrightarrow> supplyInv s \<Longrightarrow> supplyInv s'"
  by (simp add: reissued_def supplyInv_def)

lemma reissuedI:
  assumes t: "transfers s s1 (\<lambda>x d. if x = a then f d else 0)" and "bankOK s"
    and u: "s' = s1\<lparr>supplyStore := supplyStore s'\<rparr>" "\<And>e. supplyOf s' e = supplyOf s1 e + f e"
  shows "reissued s s' a f"
proof -
  from t obtain A where A: "s1 = s\<lparr>accounts := A\<rparr>" unfolding transfers_def by blast
  from u(1) obtain S where S: "s' = s1\<lparr>supplyStore := S\<rparr>" by blast
  have "totalOf s1 d = totalOf s d + f d" for d
    using transfers_total [OF t assms(2), of "{a}" d] by simp
  then show ?thesis
    using transfers_bankOK [OF t] transfers_balance [OF t] u(2) transfers_supply(3) [OF t]
    unfolding reissued_def by (simp add: S A)
qed

lemma MintCoins_effect:
  assumes "bankOK s" "MintCoins md m s = Ret r s'"
  shows "reissued s s' (moduleAddr s md) (amt m)"
proof -
  from assms(2) obtain addr acc s1 r2 s2 where 1: "mustModuleAccount md s = Ret (addr, acc) s1"
    and 2: "AddCoins addr m s1 = Ret r2 s2"
    and 3: "forM m (\<lambda>c. inflate (Denom c) (Amount c)) s2 = Ret r s'"
    by (auto simp: MintCoins_def run_simps)
  from mustModuleAccount_effect [OF assms(1) 1] have t: "transfers s s1 (\<lambda>_ _. 0)" "moduleAddr s md = addr"
    by (auto simp: moduleAddr_def)
  from transfers_trans [OF t(1) addc.effect [OF transfers_bankOK [OF t(1)] 2]]
  have "transfers s s2 (\<lambda>x d. if x = addr then amt m d else 0)" by (simp add: delta_def)
  from reissuedI [OF this assms(1)] inflate_all [OF 3] t(2) show ?thesis by simp
qed

lemma BurnCoins_effect:
  assumes "bankOK s" "BurnCoins md m s = Ret r s'"
  shows "reissued s s' (moduleAddr s md) (\<lambda>d. - amt m d)"
proof -
  from assms(2) obtain addr acc s1 r2 s2 where 1: "mustModuleAccount md s = Ret (addr, acc) s1"
    and 2: "SubtractCoins addr m s1 = Ret r2 s2"
    and 3: "forM m (\<lambda>c. deflate (Denom c) (Amount c)) s2 = Ret r s'"
    by (auto simp: BurnCoins_def run_simps)
  from mustModuleAccount_effect [OF assms(1) 1] have t: "transfers s s1 (\<lambda>_ _. 0)" "moduleAddr s md = addr"
    by (auto simp: moduleAddr_def)
  from transfers_trans [OF t(1) subc.effect [OF transfers_bankOK [OF t(1)] 2]]
  have "transfers s s2 (\<lambda>x d. if x = addr then - amt m d else 0)"
    by (rule transfers_cong) (simp add: delta_def)
  from reissuedI [OF this assms(1)] deflate_all [OF 3] t(2) show ?thesis by simp
qed


subsection \<open>Ledger steps\<close>

text \<open>
  The common form of what coin operations do to the state: balances change by \<open>f\<close>, the recorded
  supply and the coins held change by \<open>g\<close>, and no other field changes.
\<close>

definition ledger :: "'x supply_state_scheme \<Rightarrow> 'x supply_state_scheme \<Rightarrow>
    (AccAddress \<Rightarrow> string \<Rightarrow> Dec) \<Rightarrow> (string \<Rightarrow> Dec) \<Rightarrow> bool" where
  "ledger s s' f g \<longleftrightarrow>
     bankOK s' \<and> s' = s\<lparr>accounts := accounts s', supplyStore := supplyStore s'\<rparr> \<and>
     (\<forall>a d. balance s' a d = balance s a d + f a d) \<and>
     (\<forall>d. totalOf s' d = totalOf s d + g d) \<and>
     (\<forall>d. supplyOf s' d = supplyOf s d + g d)"

lemma ledger_refl: "bankOK s \<Longrightarrow> ledger s s (\<lambda>_ _. 0) (\<lambda>_. 0)"
  by (simp add: ledger_def)

lemma ledger_trans:
  assumes "ledger s s1 f g" "ledger s1 s2 f' g'"
  shows "ledger s s2 (\<lambda>a d. f a d + f' a d) (\<lambda>d. g d + g' d)"
proof -
  from assms(1) obtain A B where "s1 = s\<lparr>accounts := A, supplyStore := B\<rparr>"
    unfolding ledger_def by blast
  with assms show ?thesis unfolding ledger_def by simp
qed

lemma ledger_bankOK: "ledger s s' f g \<Longrightarrow> bankOK s'"
  by (simp add: ledger_def)

lemma ledger_frame:
  assumes "ledger s s' f g"
  obtains A B where "s' = s\<lparr>accounts := A, supplyStore := B\<rparr>"
  using assms unfolding ledger_def by blast

lemma ledger_moved:
  assumes "transfers s s' (moved src dst m)" "bankOK s"
  shows "ledger s s' (moved src dst m) (\<lambda>_. 0)"
proof -
  from assms(1) obtain A where "s' = s\<lparr>accounts := A\<rparr>" unfolding transfers_def by blast
  then show ?thesis
    using assms moved_total [OF assms] transfers_supply(3) [OF assms(1)]
    by (simp add: ledger_def transfers_def)
qed

lemma ledger_reissued: "reissued s s' a g \<Longrightarrow> ledger s s' (\<lambda>x d. if x = a then g d else 0) g"
  unfolding reissued_def ledger_def by blast

lemma ledger_supplyInv: "ledger s s' f g \<Longrightarrow> supplyInv s \<Longrightarrow> supplyInv s'"
  by (simp add: ledger_def supplyInv_def)

lemmas module_ledger =
  SendCoinsFromAccountToModule_effect [THEN ledger_moved]
  SendCoinsFromModuleToAccount_effect [THEN ledger_moved]
  SendCoinsFromModuleToModule_effect [THEN ledger_moved]
  DelegateCoinsFromAccountToModule_effect [THEN ledger_moved]
  MintCoins_effect [THEN ledger_reissued]
  BurnCoins_effect [THEN ledger_reissued]

section \<open>Properties\<close>

text \<open>
  C10. The recorded supply always equals the coins held: minting adds exactly the minted coins to the
  module account and to the recorded supply, burning removes them from both, and both require the
  permission of the stored module account (otherwise they panic).
\<close>

theorem MintBurn_supply:
  assumes "supplyInv s"
  shows "(MintCoins md m s = Ret r s' \<longrightarrow>
      supplyInv s' \<and> supplyOf s' d = supplyOf s d + amt m d \<and>
      balance s' a d = balance s a d + (if a = moduleAddr s md then amt m d else 0)) \<and>
    (BurnCoins md m s = Ret r s' \<longrightarrow>
      supplyInv s' \<and> supplyOf s' d = supplyOf s d - amt m d \<and>
      balance s' a d = balance s a d - (if a = moduleAddr s md then amt m d else 0)) \<and>
    (accounts s (moduleAddr s md) = Some acc \<and> \<not> HasPermission (accPermissions acc) Minter \<longrightarrow>
      MintCoins md m s \<noteq> Ret r s')"
proof (intro conjI impI)
  have b: "bankOK s" using assms by (simp add: supplyInv_def)
  assume 1: "MintCoins md m s = Ret r s'"
  note e = MintCoins_effect [OF b 1]
  from reissued_supplyInv [OF e assms] show "supplyInv s'" .
  from e show "supplyOf s' d = supplyOf s d + amt m d"
    "balance s' a d = balance s a d + (if a = moduleAddr s md then amt m d else 0)"
    by (simp_all add: reissued_def)
next
  have b: "bankOK s" using assms by (simp add: supplyInv_def)
  assume 1: "BurnCoins md m s = Ret r s'"
  note e = BurnCoins_effect [OF b 1]
  from reissued_supplyInv [OF e assms] show "supplyInv s'" .
  from e show "supplyOf s' d = supplyOf s d - amt m d"
    "balance s' a d = balance s a d - (if a = moduleAddr s md then amt m d else 0)"
    by (simp_all add: reissued_def)
next
  have b: "bankOK s" using assms by (simp add: supplyInv_def)
  assume acc: "accounts s (moduleAddr s md) = Some acc \<and> \<not> HasPermission (accPermissions acc) Minter"
  show "MintCoins md m s \<noteq> Ret r s'"
  proof
    assume "MintCoins md m s = Ret r s'"
    then obtain addr acc' s1 where 1: "mustModuleAccount md s = Ret (addr, acc') s1"
      and h: "HasPermission (accPermissions acc') Minter"
      by (auto simp: MintCoins_def run_simps)
    from mustModuleAccount_effect [OF b 1] have "moduleAddr s md = addr" by (auto simp: moduleAddr_def)
    moreover from 1 have "accounts s addr = None \<or> accounts s addr = Some acc'"
      by (auto simp: mustModuleAccount_def GetModuleAccount_def GetModuleAccountAndPermissions_def
          GetModuleAddressAndPermissions_def GetAccount_def Let_def
          run_simps split: option.splits prod.splits)
    ultimately show False using acc h by auto
  qed
qed

definition exSupply :: supply_state where
  "exSupply = \<lparr>accounts = [''addr-token'' \<mapsto> \<lparr>AccCoins = [mkCoin ''okt'' 5], AccModule = Some (''token'', [''minter'', ''burner''])\<rparr>],
     sendEnabled = True, blacklistedAddrs = (\<lambda>_. False),
     supplyStore = [''okt'' \<mapsto> 5], permAddrs = [''token'' \<mapsto> (''addr-token'', [''minter'', ''burner''])]\<rparr>"

lemma exSupply_inv: "supplyInv exSupply"
  by (simp add: supplyInv_def bankOK_def exSupply_def coinsOf_def accountCoins_def positiveCoins_def
      supplyOf_def totalOf_def balance_def)

theorem MintBurn_supply_witness:
  "\<exists>s'. MintCoins ''token'' [mkCoin ''okt'' 2] exSupply = Ret () s' \<and> supplyOf s' ''okt'' = 7 \<and> supplyInv s'"
proof -
  have "succeeds (MintCoins ''token'' [mkCoin ''okt'' 2] exSupply)" by code_simp
  then obtain s' where s': "MintCoins ''token'' [mkCoin ''okt'' 2] exSupply = Ret () s'"
    by (auto elim: succeedsE)
  have "supplyOf exSupply ''okt'' = 5" by (simp add: supplyOf_def exSupply_def)
  with s' MintBurn_supply [OF exSupply_inv, of "''token''" "[mkCoin ''okt'' 2]" "()" s' "''okt''"]
  show ?thesis by simp
qed

end
