(* ===== verification/Token.thy ===== *)
theory Token
  imports Supply
begin

text \<open>
  The token module: \<open>x/token\<close> (\<open>keeper.go\<close>, \<open>handler.go\<close>, \<open>handler_ibc.go\<close>, \<open>types/msgs.go\<close>,
  \<open>types/util.go\<close>). It issues, mints and burns tokens, transfers their ownership, and locks coins
  for the order module: locked coins are held by the module account \<open>token\<close> and recorded per
  address in the lock store. The block time, the hex hash of the transaction and the set of contract
  addresses come from the context and are fields of the state.
\<close>

section \<open>Definitions\<close>

subsection \<open>Data\<close>

record Token =
  tkDescription :: string
  tkSymbol :: string
  tkOriginalSymbol :: string
  tkWholeName :: string
  tkOriginalTotalSupply :: Dec
  tkType :: int
  tkOwner :: AccAddress
  tkMintable :: bool

record ConfirmOwnership =
  coSymbol :: string
  coAddress :: AccAddress
  coExpire :: int

record TokenParams =
  FeeIssue :: DecCoin
  FeeMint :: DecCoin
  FeeBurn :: DecCoin
  FeeModify :: DecCoin
  FeeChown :: DecCoin
  OwnershipConfirmWindow :: int

record token_state = supply_state +
  tokenStore :: "string \<rightharpoonup> Token"
  userTokens :: "AccAddress \<Rightarrow> string \<Rightarrow> bool"
  tokenNumber :: nat
  confirmStore :: "string \<rightharpoonup> ConfirmOwnership"
  lockStore :: "AccAddress \<rightharpoonup> Coins"
  lockFeeStore :: "AccAddress \<rightharpoonup> Coins"
  tokenParams :: TokenParams
  feeCollectorName :: string
  contractAddrs :: "AccAddress \<Rightarrow> bool"
  blockTime :: int
  txHashHex :: string

definition tokenModule :: string where "tokenModule = ''token''"

definition LockCoinsTypeQuantity :: int where "LockCoinsTypeQuantity = 1"
definition LockCoinsTypeFee :: int where "LockCoinsTypeFee = 2"

definition DescLenLimit :: nat where "DescLenLimit = 256"
definition MultiSendLimit :: nat where "MultiSendLimit = 1000"
definition TotalSupplyUpperbound :: int where "TotalSupplyUpperbound = 90000000000"

definition BlackHoleAddress :: AccAddress where
  "BlackHoleAddress = replicate 20 (char_of (0 :: nat))"

text \<open>The zero value of the struct, which \<open>GetTokenInfo\<close> returns for an unknown symbol.\<close>

definition emptyToken :: Token where
  "emptyToken = \<lparr>tkDescription = [], tkSymbol = [], tkOriginalSymbol = [], tkWholeName = [],
     tkOriginalTotalSupply = 0, tkType = 0, tkOwner = [], tkMintable = False\<rparr>"

subsection \<open>Errors\<close>

definition tokenErr :: "int \<Rightarrow> error" where "tokenErr c = Error ''token'' c"

definition ErrBlockedRecipient :: error where "ErrBlockedRecipient = tokenErr 61001"
definition ErrTokenSendDisabled :: error where "ErrTokenSendDisabled = tokenErr 61002"
definition ErrSendCoinsFromAccountToModuleFailed :: error where
  "ErrSendCoinsFromAccountToModuleFailed = tokenErr 61003"
definition ErrUnrecognizedLockCoinsType :: error where "ErrUnrecognizedLockCoinsType = tokenErr 61004"
definition ErrFailedToUnlockAddress :: error where "ErrFailedToUnlockAddress = tokenErr 61005"
definition ErrTokenInvalidCoins :: error where "ErrTokenInvalidCoins = tokenErr 61006"
definition ErrAddressIsRequired :: error where "ErrAddressIsRequired = tokenErr 61009"
definition ErrGetConfirmOwnership :: error where "ErrGetConfirmOwnership = tokenErr 61010"
definition ErrUpdateLockedCoins :: error where "ErrUpdateLockedCoins = tokenErr 61011"
definition ErrUserInputSymbolIsEmpty :: error where "ErrUserInputSymbolIsEmpty = tokenErr 61013"
definition ErrNotAllowedOriginalSymbol :: error where "ErrNotAllowedOriginalSymbol = tokenErr 61014"
definition ErrWholeNameIsNotValidl :: error where "ErrWholeNameIsNotValidl = tokenErr 61015"
definition ErrDescLenBiggerThanLimit :: error where "ErrDescLenBiggerThanLimit = tokenErr 61016"
definition ErrTotalSupplyOutOfRange :: error where "ErrTotalSupplyOutOfRange = tokenErr 61017"
definition ErrAmountBiggerThanTotalSupplyUpperbound :: error where
  "ErrAmountBiggerThanTotalSupplyUpperbound = tokenErr 61018"
definition ErrAmountIsNotValid :: error where "ErrAmountIsNotValid = tokenErr 61019"
definition ErrMsgSymbolIsEmpty :: error where "ErrMsgSymbolIsEmpty = tokenErr 61020"
definition ErrMintCoinsFailed :: error where "ErrMintCoinsFailed = tokenErr 61021"
definition ErrSendCoinsFromModuleToAccountFailed :: error where
  "ErrSendCoinsFromModuleToAccountFailed = tokenErr 61022"
definition ErrBurnCoinsFailed :: error where "ErrBurnCoinsFailed = tokenErr 61023"
definition ErrConfirmOwnershipNotExistOrBlockTimeAfter :: error where
  "ErrConfirmOwnershipNotExistOrBlockTimeAfter = tokenErr 61024"
definition ErrWholeNameAndDescriptionIsNotModified :: error where
  "ErrWholeNameAndDescriptionIsNotModified = tokenErr 61025"
definition ErrTokenIsNotMintable :: error where "ErrTokenIsNotMintable = tokenErr 61026"
definition ErrMsgTransfersAmountBiggerThanSendLimit :: error where
  "ErrMsgTransfersAmountBiggerThanSendLimit = tokenErr 61027"
definition ErrInputOwnerIsNotEqualTokenOwner :: error where
  "ErrInputOwnerIsNotEqualTokenOwner = tokenErr 61028"
definition ErrCodeinputFromAddressIsNotEqualTokenInfoOwner :: error where
  "ErrCodeinputFromAddressIsNotEqualTokenInfoOwner = tokenErr 61029"
definition ErrCodeConfirmOwnershipAddressNotEqualsMsgAddress :: error where
  "ErrCodeConfirmOwnershipAddressNotEqualsMsgAddress = tokenErr 61030"
definition ErrGetDecimalFromDecimalStringFailed :: error where
  "ErrGetDecimalFromDecimalStringFailed = tokenErr 61031"
definition ErrCodeTotalsupplyExceedsTheUpperLimit :: error where
  "ErrCodeTotalsupplyExceedsTheUpperLimit = tokenErr 61032"
definition ErrBlockedContractRecipient :: error where "ErrBlockedContractRecipient = tokenErr 61033"
definition ErrSendCoinsFromAccountToAccountFailed :: error where
  "ErrSendCoinsFromAccountToAccountFailed = tokenErr 61034"
definition ErrInternal :: error where "ErrInternal = Error ''undefined'' 1"
definition ErrInsufficientCoins :: error where "ErrInsufficientCoins = tokenErr 60107"

subsection \<open>The token store\<close>

definition GetTokenInfo :: "string \<Rightarrow> ('x token_state_scheme, Token) action" where
  "GetTokenInfo symbol = getM (\<lambda>s. case tokenStore s symbol of None \<Rightarrow> emptyToken | Some t \<Rightarrow> t)"

definition GetTokenTotalSupply :: "string \<Rightarrow> ('x token_state_scheme, Dec) action" where
  "GetTokenTotalSupply symbol = GetSupplyByDenom symbol"

definition TokenExist :: "string \<Rightarrow> ('x token_state_scheme, bool) action" where
  "TokenExist symbol = getM (\<lambda>s. tokenStore s symbol \<noteq> None)"

definition DeleteUserToken :: "AccAddress \<Rightarrow> string \<Rightarrow> ('x token_state_scheme, unit) action" where
  "DeleteUserToken owner symbol =
     modifyM (\<lambda>s. s\<lparr>userTokens := (userTokens s)(owner := (userTokens s owner)(symbol := False))\<rparr>)"

text \<open>The token number is a \<open>uint64\<close>.\<close>

definition NewToken :: "Token \<Rightarrow> ('x token_state_scheme, unit) action" where
  "NewToken token =
     modifyM (\<lambda>s. s\<lparr>tokenStore := (tokenStore s)(tkSymbol token \<mapsto> token),
       userTokens := (userTokens s)(tkOwner token := (userTokens s (tkOwner token))(tkSymbol token := True)),
       tokenNumber := (tokenNumber s + 1) mod 2 ^ 64\<rparr>)"

definition UpdateToken :: "Token \<Rightarrow> ('x token_state_scheme, unit) action" where
  "UpdateToken token = modifyM (\<lambda>s. s\<lparr>tokenStore := (tokenStore s)(tkSymbol token \<mapsto> token)\<rparr>)"

definition IsContractAddress :: "AccAddress \<Rightarrow> ('x token_state_scheme, bool) action" where
  "IsContractAddress addr = getM (\<lambda>s. accounts s addr \<noteq> None \<and> contractAddrs s addr)"

definition SendCoinsFromAccountToAccount ::
  "AccAddress \<Rightarrow> AccAddress \<Rightarrow> Coins \<Rightarrow> ('x token_state_scheme, unit) action" where
  "SendCoinsFromAccountToAccount src dst am =
     bindM (BlacklistedAddr dst) (\<lambda>black.
     seqM (failIf black ErrBlockedRecipient)
     (bindM (IsContractAddress dst) (\<lambda>con.
      seqM (failIf con ErrBlockedContractRecipient)
      (SendCoins src dst am))))"

subsection \<open>Locked coins\<close>

definition lockOf :: "int \<Rightarrow> 'x token_state_scheme \<Rightarrow> AccAddress \<rightharpoonup> Coins" where
  "lockOf ty s = (if ty = LockCoinsTypeQuantity then lockStore s else lockFeeStore s)"

definition setLock :: "int \<Rightarrow> AccAddress \<Rightarrow> Coins option \<Rightarrow> 'x token_state_scheme \<Rightarrow> 'x token_state_scheme" where
  "setLock ty addr v s =
     (if ty = LockCoinsTypeQuantity then s\<lparr>lockStore := (lockStore s)(addr := v)\<rparr>
      else s\<lparr>lockFeeStore := (lockFeeStore s)(addr := v)\<rparr>)"

definition newLockedCoins ::
  "Coins option \<Rightarrow> Coins \<Rightarrow> bool \<Rightarrow> ('x token_state_scheme, Coins) action" where
  "newLockedCoins coinsBytes coins doAdd =
     (if doAdd
      then (case coinsBytes of
              None \<Rightarrow> returnM coins
            | Some oldCoins \<Rightarrow> liftM (Add2 oldCoins coins))
      else (case coinsBytes of
              None \<Rightarrow> failM ErrFailedToUnlockAddress
            | Some oldCoins \<Rightarrow>
                bindM (liftM (SafeSub oldCoins coins)) (\<lambda>(newCoins, isNegative).
                seqM (failIf isNegative ErrFailedToUnlockAddress) (returnM newCoins))))"

text \<open>An empty coin set is deleted from the store.\<close>

definition storedCoins :: "Coins \<Rightarrow> Coins option" where
  "storedCoins coins = (if length coins > 0 then Some coins else None)"

definition updateLockedCoins ::
  "AccAddress \<Rightarrow> Coins \<Rightarrow> bool \<Rightarrow> int \<Rightarrow> ('x token_state_scheme, unit) action" where
  "updateLockedCoins addr coins doAdd lockCoinsType =
     seqM (failIf (lockCoinsType \<noteq> LockCoinsTypeQuantity \<and> lockCoinsType \<noteq> LockCoinsTypeFee)
             ErrUnrecognizedLockCoinsType)
     (bindM (getM (\<lambda>s. lockOf lockCoinsType s addr)) (\<lambda>coinsBytes.
      bindM (newLockedCoins coinsBytes coins doAdd) (\<lambda>newCoins.
        modifyM (setLock lockCoinsType addr (storedCoins (SortCoins newCoins))))))"

definition LockCoins :: "AccAddress \<Rightarrow> Coins \<Rightarrow> int \<Rightarrow> ('x token_state_scheme, unit) action" where
  "LockCoins addr coins lockCoinsType =
     seqM (wrapM ErrSendCoinsFromAccountToModuleFailed (SendCoinsFromAccountToModule addr tokenModule coins))
     (updateLockedCoins addr coins True lockCoinsType)"

definition UnlockCoins :: "AccAddress \<Rightarrow> Coins \<Rightarrow> int \<Rightarrow> ('x token_state_scheme, unit) action" where
  "UnlockCoins addr coins lockCoinsType =
     seqM (updateLockedCoins addr coins False lockCoinsType)
     (wrapM ErrSendCoinsFromModuleToAccountFailed (SendCoinsFromModuleToAccount tokenModule addr coins))"

definition GetLockedCoins :: "AccAddress \<Rightarrow> ('x token_state_scheme, Coins) action" where
  "GetLockedCoins addr = getM (\<lambda>s. case lockStore s addr of None \<Rightarrow> [] | Some c \<Rightarrow> c)"

definition BalanceAccount :: "AccAddress \<Rightarrow> Coins \<Rightarrow> Coins \<Rightarrow> ('x token_state_scheme, unit) action" where
  "BalanceAccount addr outputCoins inputCoins =
     seqM (if \<not> coinsIsZero outputCoins
           then wrapM ErrUpdateLockedCoins (updateLockedCoins addr outputCoins False LockCoinsTypeQuantity)
           else returnM ())
     (if \<not> coinsIsZero inputCoins then SendCoinsFromModuleToAccount tokenModule addr inputCoins
      else returnM ())"

subsection \<open>Symbols\<close>

definition NotAllowedOriginSymbol :: "string \<Rightarrow> bool" where
  "NotAllowedOriginSymbol name = hasPrefix ''ammswap'' name"

text \<open>\<open>regOriginalSymbol\<close>: \<open>^[a-z][a-z0-9]{0,5}$\<close>.\<close>

definition regOriginalSymbol :: "string \<Rightarrow> bool" where
  "regOriginalSymbol name =
     (case name of
        [] \<Rightarrow> False
      | c # cs \<Rightarrow> isLowerChar c \<and> length cs \<le> 5 \<and> list_all (\<lambda>x. isLowerChar x \<or> isDigit x) cs)"

definition ValidOriginalSymbol :: "string \<Rightarrow> bool" where
  "ValidOriginalSymbol name \<longleftrightarrow> \<not> NotAllowedOriginSymbol name \<and> regOriginalSymbol name"

text \<open>\<open>reWhole\<close>: \<open>^[a-zA-Z0-9[:space:]]{1,30}$\<close>.\<close>

definition wholeNameValid :: "string \<Rightarrow> bool" where
  "wholeNameValid wholeName \<longleftrightarrow>
     1 \<le> length wholeName \<and> length wholeName \<le> 30 \<and>
     list_all (\<lambda>x. isLowerChar x \<or> isUpperChar x \<or> isDigit x \<or> isSpaceChar x) wholeName"

text \<open>
  \<open>addTokenSuffix\<close>: the suffix is one of the three-digit pieces of the transaction hash, tried from
  the last to the first; the argument counts the pieces left.
\<close>

fun tokenSuffix :: "string \<Rightarrow> string \<Rightarrow> (string \<Rightarrow> bool) \<Rightarrow> nat \<Rightarrow> string option" where
  "tokenSuffix hash originalSymbol exist 0 = None"
| "tokenSuffix hash originalSymbol exist (Suc i) =
     (let name = originalSymbol @ ''-'' @ ToLower (take 3 (drop (3 * i) hash)) in
      if \<not> ValidateDenom name then None
      else if \<not> exist name then Some name
      else tokenSuffix hash originalSymbol exist i)"

definition addTokenSuffix :: "string \<Rightarrow> ('x token_state_scheme, string option) action" where
  "addTokenSuffix originalSymbol =
     getM (\<lambda>s. tokenSuffix (txHashHex s) originalSymbol (\<lambda>n. tokenStore s n \<noteq> None)
            (length (txHashHex s) div 3))"

subsection \<open>Ownership confirmations\<close>

definition GetConfirmOwnership :: "string \<Rightarrow> ('x token_state_scheme, ConfirmOwnership option) action" where
  "GetConfirmOwnership symbol = getM (\<lambda>s. confirmStore s symbol)"

definition SetConfirmOwnership :: "ConfirmOwnership \<Rightarrow> ('x token_state_scheme, unit) action" where
  "SetConfirmOwnership c = modifyM (\<lambda>s. s\<lparr>confirmStore := (confirmStore s)(coSymbol c \<mapsto> c)\<rparr>)"

definition DeleteConfirmOwnership :: "string \<Rightarrow> ('x token_state_scheme, unit) action" where
  "DeleteConfirmOwnership symbol = modifyM (\<lambda>s. s\<lparr>confirmStore := (confirmStore s)(symbol := None)\<rparr>)"

definition SetParams :: "TokenParams \<Rightarrow> ('x token_state_scheme, unit) action" where
  "SetParams p = modifyM (\<lambda>s. s\<lparr>tokenParams := p\<rparr>)"

subsection \<open>Messages\<close>

record MsgTokenIssue =
  tiDescription :: string
  tiSymbol :: string
  tiOriginalSymbol :: string
  tiWholeName :: string
  tiTotalSupply :: string
  tiOwner :: AccAddress
  tiMintable :: bool

record MsgTokenAmount =
  taAmount :: DecCoin
  taOwner :: AccAddress

type_synonym MsgTokenBurn = MsgTokenAmount
type_synonym MsgTokenMint = MsgTokenAmount

record TransferUnit =
  tuTo :: AccAddress
  tuCoins :: Coins

record MsgTokenMultiSend =
  msFrom :: AccAddress
  msTransfers :: "TransferUnit list"

record MsgTransferOwnership =
  toFromAddress :: AccAddress
  toToAddress :: AccAddress
  toSymbol :: string

record MsgTokenModify =
  tmOwner :: AccAddress
  tmSymbol :: string
  tmDescription :: string
  tmWholeName :: string
  tmIsDescriptionModified :: bool
  tmIsWholeNameModified :: bool

record MsgConfirmOwnership =
  mcSymbol :: string
  mcAddress :: AccAddress

definition MsgTokenIssueValidateBasic :: "MsgTokenIssue \<Rightarrow> ('s, unit) action" where
  "MsgTokenIssueValidateBasic msg =
     seqM (failIf (tiOwner msg = []) ErrAddressIsRequired)
     (seqM (failIf (length (tiOriginalSymbol msg) = 0) ErrUserInputSymbolIsEmpty)
     (seqM (failIf (\<not> ValidOriginalSymbol (tiOriginalSymbol msg)) ErrNotAllowedOriginalSymbol)
     (seqM (failIf (\<not> wholeNameValid (tiWholeName msg)) ErrWholeNameIsNotValidl)
     (seqM (failIf (length (tiDescription msg) > DescLenLimit) ErrDescLenBiggerThanLimit)
     (case NewDecFromStr (tiTotalSupply msg) of
        Inl _ \<Rightarrow> failM ErrInternal
      | Inr totalSupply \<Rightarrow>
          failIf (totalSupply > NewDec TotalSupplyUpperbound \<or> totalSupply \<le> ZeroDec)
            ErrTotalSupplyOutOfRange)))))"

definition MsgTokenBurnValidateBasic :: "MsgTokenBurn \<Rightarrow> ('s, unit) action" where
  "MsgTokenBurnValidateBasic msg =
     seqM (failIf (taOwner msg = []) ErrAddressIsRequired)
     (failIf (\<not> coinIsValid (taAmount msg)) ErrInsufficientCoins)"

definition MsgTokenMintValidateBasic :: "MsgTokenMint \<Rightarrow> ('s, unit) action" where
  "MsgTokenMintValidateBasic msg =
     seqM (failIf (taOwner msg = []) ErrAddressIsRequired)
     (seqM (failIf (Amount (taAmount msg) > NewDec TotalSupplyUpperbound)
              ErrAmountBiggerThanTotalSupplyUpperbound)
     (failIf (\<not> coinIsValid (taAmount msg)) ErrAmountIsNotValid))"

definition MsgTokenMultiSendValidateBasic :: "MsgTokenMultiSend \<Rightarrow> ('s, unit) action" where
  "MsgTokenMultiSendValidateBasic msg =
     seqM (failIf (msFrom msg = []) ErrAddressIsRequired)
     (seqM (failIf (length (msTransfers msg) > MultiSendLimit) ErrMsgTransfersAmountBiggerThanSendLimit)
     (forM (msTransfers msg) (\<lambda>t.
        seqM (failIf (\<not> IsAllPositive (tuCoins t) \<or> \<not> IsValid (tuCoins t)) ErrTokenInvalidCoins)
        (failIf (tuTo t = []) ErrAddressIsRequired))))"

definition MsgTokenSendValidateBasic :: "MsgSend \<Rightarrow> ('s, unit) action" where
  "MsgTokenSendValidateBasic msg =
     seqM (failIf (FromAddress msg = []) ErrAddressIsRequired)
     (seqM (failIf (ToAddress msg = []) ErrAddressIsRequired)
     (seqM (failIf (\<not> IsValid (SendAmount msg)) ErrTokenInvalidCoins)
     (failIf (\<not> IsAllPositive (SendAmount msg)) ErrInsufficientCoins)))"

definition MsgTransferOwnershipValidateBasic :: "MsgTransferOwnership \<Rightarrow> ('s, unit) action" where
  "MsgTransferOwnershipValidateBasic msg =
     seqM (failIf (toFromAddress msg = []) ErrAddressIsRequired)
     (seqM (failIf (toToAddress msg = []) ErrAddressIsRequired)
     (seqM (failIf (length (toSymbol msg) = 0) ErrMsgSymbolIsEmpty)
     (failIf (\<not> ValidateDenom (toSymbol msg)) ErrConfirmOwnershipNotExistOrBlockTimeAfter)))"

definition MsgTokenModifyValidateBasic :: "MsgTokenModify \<Rightarrow> ('s, unit) action" where
  "MsgTokenModifyValidateBasic msg =
     seqM (failIf (tmOwner msg = []) ErrAddressIsRequired)
     (seqM (failIf (length (tmSymbol msg) = 0) ErrMsgSymbolIsEmpty)
     (seqM (failIf (\<not> ValidateDenom (tmSymbol msg)) ErrNotAllowedOriginalSymbol)
     (seqM (failIf (tmIsWholeNameModified msg \<and> \<not> wholeNameValid (tmWholeName msg)) ErrWholeNameIsNotValidl)
     (failIf (tmIsDescriptionModified msg \<and> length (tmDescription msg) > DescLenLimit)
        ErrDescLenBiggerThanLimit))))"

definition MsgConfirmOwnershipValidateBasic :: "MsgConfirmOwnership \<Rightarrow> ('s, unit) action" where
  "MsgConfirmOwnershipValidateBasic msg =
     seqM (failIf (mcAddress msg = []) ErrAddressIsRequired)
     (seqM (failIf (length (mcSymbol msg) = 0) ErrMsgSymbolIsEmpty)
     (failIf (\<not> ValidateDenom (mcSymbol msg)) ErrNotAllowedOriginalSymbol))"

subsection \<open>Handlers\<close>

text \<open>The fee of a message: the configured coin of the parameters, sent to the fee collector.\<close>

definition deductFee ::
  "(TokenParams \<Rightarrow> DecCoin) \<Rightarrow> AccAddress \<Rightarrow> ('x token_state_scheme, unit) action" where
  "deductFee fee addr =
     bindM (getM (\<lambda>s. (fee (tokenParams s), feeCollectorName s))) (\<lambda>(c, collector).
     bindM (liftM (ToCoins c)) (\<lambda>feeDecCoins.
      wrapM ErrSendCoinsFromAccountToModuleFailed
        (SendCoinsFromAccountToModule addr collector feeDecCoins)))"

definition handleMsgTokenIssue :: "MsgTokenIssue \<Rightarrow> ('x token_state_scheme, unit) action" where
  "handleMsgTokenIssue msg =
     (case NewDecFromStr (tiTotalSupply msg) of
        Inl _ \<Rightarrow> failM ErrGetDecimalFromDecimalStringFailed
      | Inr totalSupply \<Rightarrow>
          seqM (failIf (totalSupply > NewDec TotalSupplyUpperbound) ErrAmountBiggerThanTotalSupplyUpperbound)
          (bindM (addTokenSuffix (tiOriginalSymbol msg)) (\<lambda>newName.
             case newName of
               None \<Rightarrow> failM ErrTokenInvalidCoins
             | Some symbol \<Rightarrow>
                 let token = \<lparr>tkDescription = tiDescription msg, tkSymbol = symbol,
                       tkOriginalSymbol = tiOriginalSymbol msg, tkWholeName = tiWholeName msg,
                       tkOriginalTotalSupply = totalSupply, tkType = 0,
                       tkOwner = tiOwner msg, tkMintable = tiMintable msg\<rparr> in
                 bindM (liftM (MustParseCoins symbol (tiTotalSupply msg))) (\<lambda>coins.
                 seqM (wrapM ErrMintCoinsFailed (MintCoins tokenModule coins))
                 (seqM (wrapM ErrSendCoinsFromModuleToAccountFailed
                          (SendCoinsFromModuleToAccount tokenModule (tiOwner msg) coins))
                 (seqM (NewToken token)
                 (deductFee FeeIssue (tiOwner msg))))))))"

definition handleMsgTokenBurn :: "MsgTokenBurn \<Rightarrow> ('x token_state_scheme, unit) action" where
  "handleMsgTokenBurn msg =
     bindM (GetTokenInfo (Denom (taAmount msg))) (\<lambda>token.
     seqM (failIf (tkOwner token \<noteq> taOwner msg) ErrInputOwnerIsNotEqualTokenOwner)
     (bindM (liftM (ToCoins (taAmount msg))) (\<lambda>subCoins.
      seqM (wrapM ErrSendCoinsFromAccountToModuleFailed
              (SendCoinsFromAccountToModule (taOwner msg) tokenModule subCoins))
      (seqM (wrapM ErrBurnCoinsFailed (BurnCoins tokenModule subCoins))
      (deductFee FeeBurn (taOwner msg))))))"

definition handleMsgTokenMint :: "MsgTokenMint \<Rightarrow> ('x token_state_scheme, unit) action" where
  "handleMsgTokenMint msg =
     bindM (GetTokenInfo (Denom (taAmount msg))) (\<lambda>token.
     seqM (failIf (tkOwner token \<noteq> taOwner msg) ErrInputOwnerIsNotEqualTokenOwner)
     (seqM (failIf (\<not> tkMintable token) ErrTokenIsNotMintable)
     (bindM (GetSupplyByDenom (Denom (taAmount msg))) (\<lambda>cur.
      bindM (liftM (DecAdd cur (Amount (taAmount msg)))) (\<lambda>totalSupplyAfterMint.
      seqM (failIf (totalSupplyAfterMint > NewDec TotalSupplyUpperbound)
              ErrCodeTotalsupplyExceedsTheUpperLimit)
      (bindM (liftM (ToCoins (taAmount msg))) (\<lambda>mintCoins.
       seqM (wrapM ErrMintCoinsFailed (MintCoins tokenModule mintCoins))
       (seqM (wrapM ErrSendCoinsFromModuleToAccountFailed
                (SendCoinsFromModuleToAccount tokenModule (taOwner msg) mintCoins))
       (deductFee FeeMint (taOwner msg))))))))))"

definition handleTokenMultiSend :: "MsgTokenMultiSend \<Rightarrow> ('x token_state_scheme, unit) action" where
  "handleTokenMultiSend msg =
     bindM GetSendEnabled (\<lambda>enabled.
     seqM (failIf (\<not> enabled) ErrTokenSendDisabled)
     (forM (msTransfers msg) (\<lambda>t.
        wrapM ErrSendCoinsFromAccountToAccountFailed
          (SendCoinsFromAccountToAccount (msFrom msg) (tuTo t) (tuCoins t)))))"

definition handleTokenSend :: "MsgSend \<Rightarrow> ('x token_state_scheme, unit) action" where
  "handleTokenSend msg =
     bindM GetSendEnabled (\<lambda>enabled.
     seqM (failIf (\<not> enabled) ErrTokenSendDisabled)
     (wrapM ErrSendCoinsFromAccountToAccountFailed
        (SendCoinsFromAccountToAccount (FromAddress msg) (ToAddress msg) (SendAmount msg))))"

definition handleWalletMsgSend :: "MsgSend \<Rightarrow> ('x token_state_scheme, unit) action" where
  "handleWalletMsgSend msg =
     bindM GetSendEnabled (\<lambda>enabled.
     seqM (failIf (\<not> enabled) ErrTokenSendDisabled)
     (wrapM ErrSendCoinsFromAccountToAccountFailed
        (SendCoinsFromAccountToAccount (FromAddress msg) (ToAddress msg) (SendAmount msg))))"

definition handleMsgTransferOwnership :: "MsgTransferOwnership \<Rightarrow> ('x token_state_scheme, unit) action" where
  "handleMsgTransferOwnership msg =
     bindM (GetTokenInfo (toSymbol msg)) (\<lambda>tokenInfo.
     seqM (failIf (tkOwner tokenInfo \<noteq> toFromAddress msg) ErrCodeinputFromAddressIsNotEqualTokenInfoOwner)
     (bindM (GetConfirmOwnership (toSymbol msg)) (\<lambda>confirm.
      bindM (getM blockTime) (\<lambda>now.
      seqM (failIf (case confirm of None \<Rightarrow> False | Some c \<Rightarrow> \<not> now > coExpire c)
              ErrConfirmOwnershipNotExistOrBlockTimeAfter)
      (seqM
        (if toToAddress msg = BlackHoleAddress
         then seqM (DeleteUserToken (tkOwner tokenInfo) (tkSymbol tokenInfo))
                (NewToken (tokenInfo\<lparr>tkOwner := toToAddress msg\<rparr>))
         else bindM (getM (\<lambda>s. OwnershipConfirmWindow (tokenParams s))) (\<lambda>window.
                SetConfirmOwnership \<lparr>coSymbol = toSymbol msg, coAddress = toToAddress msg,
                  coExpire = now + window\<rparr>))
        (deductFee FeeChown (toFromAddress msg)))))))"

definition handleMsgConfirmOwnership :: "MsgConfirmOwnership \<Rightarrow> ('x token_state_scheme, unit) action" where
  "handleMsgConfirmOwnership msg =
     bindM (GetConfirmOwnership (mcSymbol msg)) (\<lambda>confirm.
       case confirm of
         None \<Rightarrow> failM ErrGetConfirmOwnership
       | Some c \<Rightarrow>
           bindM (getM blockTime) (\<lambda>now.
             if now > coExpire c
             then seqM (DeleteConfirmOwnership (coSymbol c)) (failM ErrConfirmOwnershipNotExistOrBlockTimeAfter)
             else
               seqM (failIf (coAddress c \<noteq> mcAddress msg) ErrCodeConfirmOwnershipAddressNotEqualsMsgAddress)
               (bindM (GetTokenInfo (mcSymbol msg)) (\<lambda>tokenInfo.
                seqM (DeleteUserToken (tkOwner tokenInfo) (tkSymbol tokenInfo))
                (seqM (NewToken (tokenInfo\<lparr>tkOwner := mcAddress msg\<rparr>))
                (DeleteConfirmOwnership (coSymbol c)))))))"

definition handleMsgTokenModify :: "MsgTokenModify \<Rightarrow> ('x token_state_scheme, unit) action" where
  "handleMsgTokenModify msg =
     bindM (GetTokenInfo (tmSymbol msg)) (\<lambda>token.
     seqM (failIf (tkOwner token \<noteq> tmOwner msg) ErrInputOwnerIsNotEqualTokenOwner)
     (seqM (failIf (\<not> tmIsWholeNameModified msg \<and> \<not> tmIsDescriptionModified msg)
              ErrWholeNameAndDescriptionIsNotModified)
     (let t1 = (if tmIsWholeNameModified msg then token\<lparr>tkWholeName := tmWholeName msg\<rparr> else token);
          t2 = (if tmIsDescriptionModified msg then t1\<lparr>tkDescription := tmDescription msg\<rparr> else t1) in
      seqM (UpdateToken t2) (deductFee FeeModify (tmOwner msg)))))"

datatype TokenMsg =
  TokenIssueMsg MsgTokenIssue | TokenBurnMsg MsgTokenBurn | TokenMintMsg MsgTokenMint |
  TokenMultiSendMsg MsgTokenMultiSend | TokenSendMsg MsgSend |
  TransferOwnershipMsg MsgTransferOwnership | ConfirmOwnershipMsg MsgConfirmOwnership |
  TokenModifyMsg MsgTokenModify | WalletTransferMsg MsgSend | OtherTokenMsg

fun tokenHandler :: "TokenMsg \<Rightarrow> ('x token_state_scheme, unit) action" where
  "tokenHandler (TokenIssueMsg msg) = handleMsgTokenIssue msg"
| "tokenHandler (TokenBurnMsg msg) = handleMsgTokenBurn msg"
| "tokenHandler (TokenMintMsg msg) = handleMsgTokenMint msg"
| "tokenHandler (TokenMultiSendMsg msg) = handleTokenMultiSend msg"
| "tokenHandler (TokenSendMsg msg) = handleTokenSend msg"
| "tokenHandler (TransferOwnershipMsg msg) = handleMsgTransferOwnership msg"
| "tokenHandler (ConfirmOwnershipMsg msg) = handleMsgConfirmOwnership msg"
| "tokenHandler (TokenModifyMsg msg) = handleMsgTokenModify msg"
| "tokenHandler (WalletTransferMsg msg) = handleWalletMsgSend msg"
| "tokenHandler OtherTokenMsg = failM ErrUnknownRequest"

section \<open>Locked coins\<close>

lemma token_fields [simp]:
  "balance (s\<lparr>tokenStore := x1\<rparr>) a d = balance s a d"
  "balance (s\<lparr>userTokens := x2\<rparr>) a d = balance s a d"
  "balance (s\<lparr>tokenNumber := x3\<rparr>) a d = balance s a d"
  "balance (s\<lparr>confirmStore := x4\<rparr>) a d = balance s a d"
  "balance (s\<lparr>lockStore := x5\<rparr>) a d = balance s a d"
  "balance (s\<lparr>lockFeeStore := x5\<rparr>) a d = balance s a d"
  "supplyOf (s\<lparr>tokenStore := x1\<rparr>) d = supplyOf s d"
  "supplyOf (s\<lparr>userTokens := x2\<rparr>) d = supplyOf s d"
  "supplyOf (s\<lparr>tokenNumber := x3\<rparr>) d = supplyOf s d"
  "supplyOf (s\<lparr>confirmStore := x4\<rparr>) d = supplyOf s d"
  "supplyOf (s\<lparr>lockStore := x5\<rparr>) d = supplyOf s d"
  "supplyOf (s\<lparr>lockFeeStore := x5\<rparr>) d = supplyOf s d"
  "moduleAddr (s\<lparr>tokenStore := x1\<rparr>) md = moduleAddr s md"
  "moduleAddr (s\<lparr>userTokens := x2\<rparr>) md = moduleAddr s md"
  "moduleAddr (s\<lparr>tokenNumber := x3\<rparr>) md = moduleAddr s md"
  "moduleAddr (s\<lparr>confirmStore := x4\<rparr>) md = moduleAddr s md"
  "moduleAddr (s\<lparr>lockStore := x5\<rparr>) md = moduleAddr s md"
  "moduleAddr (s\<lparr>lockFeeStore := x5\<rparr>) md = moduleAddr s md"
  by (simp_all add: balance_def coinsOf_def supplyOf_def moduleAddr_def)

lemma token_fields_inv [simp]:
  "bankOK (s\<lparr>tokenStore := x1\<rparr>) = bankOK s" "supplyInv (s\<lparr>tokenStore := x1\<rparr>) = supplyInv s"
  "bankOK (s\<lparr>userTokens := x2\<rparr>) = bankOK s" "supplyInv (s\<lparr>userTokens := x2\<rparr>) = supplyInv s"
  "bankOK (s\<lparr>tokenNumber := x3\<rparr>) = bankOK s" "supplyInv (s\<lparr>tokenNumber := x3\<rparr>) = supplyInv s"
  "bankOK (s\<lparr>confirmStore := x4\<rparr>) = bankOK s" "supplyInv (s\<lparr>confirmStore := x4\<rparr>) = supplyInv s"
  "bankOK (s\<lparr>lockStore := x5\<rparr>) = bankOK s" "supplyInv (s\<lparr>lockStore := x5\<rparr>) = supplyInv s"
  "bankOK (s\<lparr>lockFeeStore := x5\<rparr>) = bankOK s" "supplyInv (s\<lparr>lockFeeStore := x5\<rparr>) = supplyInv s"
  by (simp_all add: bankOK_def coinsOf_def supplyInv_def totalOf_def)

definition lockedIn :: "(AccAddress \<rightharpoonup> Coins) \<Rightarrow> string \<Rightarrow> Dec" where
  "lockedIn m d = (\<Sum>a\<in>dom m. amt (the (m a)) d)"

definition locksWf :: "(AccAddress \<rightharpoonup> Coins) \<Rightarrow> bool" where
  "locksWf m \<longleftrightarrow> finite (dom m) \<and> (\<forall>c\<in>ran m. positiveCoins c)"

definition lockedAmt :: "(AccAddress \<rightharpoonup> Coins) \<Rightarrow> AccAddress \<Rightarrow> string \<Rightarrow> Dec" where
  "lockedAmt m a d = (case m a of None \<Rightarrow> 0 | Some c \<Rightarrow> amt c d)"

definition lockedTotal :: "'x token_state_scheme \<Rightarrow> string \<Rightarrow> Dec" where
  "lockedTotal s d = lockedIn (lockStore s) d + lockedIn (lockFeeStore s) d"

text \<open>
  The invariant of \<open>x/order/keeper/invariant.go\<close>: the token module account holds exactly the locked
  coins and the locked fees, here up to an offset while a handler is under way.
\<close>

definition heldLocked :: "'x token_state_scheme \<Rightarrow> (string \<Rightarrow> Dec) \<Rightarrow> bool" where
  "heldLocked s off \<longleftrightarrow>
     supplyInv s \<and> locksWf (lockStore s) \<and> locksWf (lockFeeStore s) \<and>
     (\<forall>d. balance s (moduleAddr s tokenModule) d = lockedTotal s d + off d)"

definition tokenInv :: "'x token_state_scheme \<Rightarrow> bool" where
  "tokenInv s \<longleftrightarrow> heldLocked s (\<lambda>_. 0)"

lemma lockedIn_remove:
  "finite (dom m) \<Longrightarrow> lockedIn m d = lockedAmt m a d + (\<Sum>x\<in>dom m - {a}. amt (the (m x)) d)"
  using sum.remove [of "dom m" a "\<lambda>x. amt (the (m x)) d"]
  by (cases "m a") (auto simp: lockedIn_def lockedAmt_def domIff)

lemma lockedIn_upd:
  assumes "finite (dom m)"
  shows "lockedIn (m(a := v)) d = lockedIn m d - lockedAmt m a d + (case v of None \<Rightarrow> 0 | Some c \<Rightarrow> amt c d)"
proof -
  have "dom (m(a := v)) - {a} = dom m - {a}" by auto
  moreover have "(\<Sum>x\<in>dom m - {a}. amt (the ((m(a := v)) x)) d) = (\<Sum>x\<in>dom m - {a}. amt (the (m x)) d)"
    by (intro sum.cong) auto
  ultimately show ?thesis
    using lockedIn_remove [OF assms, of d a] lockedIn_remove [of "m(a := v)" d a] assms
    by (simp add: lockedAmt_def)
qed

lemma locksWf_upd:
  "locksWf m \<Longrightarrow> (\<And>c. v = Some c \<Longrightarrow> positiveCoins c) \<Longrightarrow> locksWf (m(a := v))"
  by (cases v) (auto simp: locksWf_def ran_def split: if_splits)

lemma heldLocked_ledger:
  assumes "ledger s s' f g" "heldLocked s off"
  shows "heldLocked s' (\<lambda>d. off d + f (moduleAddr s tokenModule) d)"
proof -
  from assms(1) obtain A B where fr: "s' = s\<lparr>accounts := A, supplyStore := B\<rparr>" by (rule ledger_frame)
  have "supplyInv s'" using ledger_supplyInv [OF assms(1)] assms(2) by (simp add: heldLocked_def)
  with assms fr show ?thesis
    by (simp add: heldLocked_def ledger_def lockedTotal_def moduleAddr_def)
qed

lemma heldLocked_fields [simp]:
  "heldLocked (s\<lparr>tokenStore := x1\<rparr>) off = heldLocked s off"
  "heldLocked (s\<lparr>userTokens := x2\<rparr>) off = heldLocked s off"
  "heldLocked (s\<lparr>tokenNumber := x3\<rparr>) off = heldLocked s off"
  "heldLocked (s\<lparr>confirmStore := x4\<rparr>) off = heldLocked s off"
  by (simp_all add: heldLocked_def lockedTotal_def)

lemma heldLocked_bankOK: "heldLocked s off \<Longrightarrow> bankOK s"
  by (simp add: heldLocked_def supplyInv_def)

text \<open>What \<open>updateLockedCoins\<close> does to the lock of an address.\<close>

lemma SortCoins_sorted: "sortedCoins cs \<Longrightarrow> SortCoins cs = cs"
  unfolding SortCoins_def
  by (induction cs) (auto intro!: insort_is_Cons less_imp_le)

lemma newLockedCoins_Ret:
  assumes "newLockedCoins lk c add s = Ret n s'" "\<And>old. lk = Some old \<Longrightarrow> positiveCoins old" "positiveCoins c"
  shows "s' = s \<and> positiveCoins n \<and>
    (\<forall>d. amt n d = (case lk of None \<Rightarrow> 0 | Some old \<Rightarrow> amt old d) + (if add then amt c d else - amt c d))"
proof (cases lk)
  case None
  with assms show ?thesis by (auto simp: newLockedCoins_def run_simps split: if_splits)
next
  case (Some old)
  have p: "positiveCoins old" using assms(2) Some by simp
  show ?thesis
  proof (cases add)
    case True
    with assms(1) Some have n: "coinsAdd old c = Some n" "s' = s"
      by (simp_all add: newLockedCoins_def Add2_def coinsAdd_def run_simps)
    have "amt n d = amt old d + amt c d" for d using safeAdd_amt n(1) by (simp only: coinsAdd_def)
    with coinsAdd_positive [OF n(1) p assms(3)] n(2) True Some show ?thesis by simp
  next
    case False
    with assms(1) Some have "SafeSub old c = Some (n, False)" "s' = s"
      by (auto simp: newLockedCoins_def run_simps)
    then have n: "coinsSub old c = Some n" "s' = s" by (simp_all add: coinsSub_def)
    have "sortedCoins old" "sortedCoins c" using p assms(3) by (simp_all add: positiveCoins_def)
    from coinsSub_Some [OF n(1) this] n(2) False Some show ?thesis by simp
  qed
qed

lemma updateLockedCoins_effect:
  assumes run: "updateLockedCoins a c add ty s = Ret r s'"
    and wf: "locksWf (lockOf ty s)" and c: "positiveCoins c"
  shows "\<exists>v. s' = setLock ty a v s \<and> (\<forall>n. v = Some n \<longrightarrow> positiveCoins n) \<and>
    (\<forall>d. (case v of None \<Rightarrow> 0 | Some n \<Rightarrow> amt n d) =
         lockedAmt (lockOf ty s) a d + (if add then amt c d else - amt c d)) \<and>
    (ty = LockCoinsTypeQuantity \<or> ty = LockCoinsTypeFee)"
proof -
  from run obtain n s1 where ty: "ty = LockCoinsTypeQuantity \<or> ty = LockCoinsTypeFee"
    and n: "newLockedCoins (lockOf ty s a) c add s = Ret n s1"
    and s': "s' = setLock ty a (storedCoins (SortCoins n)) s1"
    by (auto simp: updateLockedCoins_def run_simps)
  have old: "positiveCoins old" if "lockOf ty s a = Some old" for old
    using wf that by (auto simp: locksWf_def ran_def)
  from newLockedCoins_Ret [OF n old c] have pn: "s1 = s" "positiveCoins n"
    "\<And>d. amt n d = lockedAmt (lockOf ty s) a d + (if add then amt c d else - amt c d)"
    by (auto simp: lockedAmt_def)
  have srt: "SortCoins n = n" using pn(2) by (simp add: SortCoins_sorted positiveCoins_def)
  have amt: "(case storedCoins n of None \<Rightarrow> 0 | Some m \<Rightarrow> amt m d) = amt n d" for d
    by (cases n) (simp_all add: storedCoins_def)
  show ?thesis
  proof (intro exI conjI allI impI)
    show "s' = setLock ty a (storedCoins n) s" using s' by (simp only: pn(1) srt)
    show "positiveCoins m" if "storedCoins n = Some m" for m
      using that pn(2) by (simp add: storedCoins_def split: if_splits)
    show "(case storedCoins n of None \<Rightarrow> 0 | Some m \<Rightarrow> amt m d) =
        lockedAmt (lockOf ty s) a d + (if add then amt c d else - amt c d)" for d
      using pn(3) [of d] amt [of d] by (simp only:)
    show "ty = LockCoinsTypeQuantity \<or> ty = LockCoinsTypeFee" by (rule ty)
  qed
qed

lemma setLock_heldLocked:
  assumes h: "heldLocked s off" and ty: "ty = LockCoinsTypeQuantity \<or> ty = LockCoinsTypeFee"
    and v: "\<And>n. v = Some n \<Longrightarrow> positiveCoins n"
    and chg: "\<And>d. (case v of None \<Rightarrow> 0 | Some n \<Rightarrow> amt n d) = lockedAmt (lockOf ty s) a d + x d"
  shows "heldLocked (setLock ty a v s) (\<lambda>d. off d - x d)"
proof -
  have wf: "locksWf (lockStore s)" "locksWf (lockFeeStore s)" using h by (simp_all add: heldLocked_def)
  then have fin: "finite (dom (lockStore s))" "finite (dom (lockFeeStore s))"
    by (simp_all add: locksWf_def)
  show ?thesis
  proof (cases "ty = LockCoinsTypeQuantity")
    case True
    with h locksWf_upd [OF wf(1) v] lockedIn_upd [OF fin(1), of a v] chg show ?thesis
      by (simp add: heldLocked_def setLock_def lockedTotal_def lockOf_def)
  next
    case False
    with h locksWf_upd [OF wf(2) v] lockedIn_upd [OF fin(2), of a v] chg show ?thesis
      by (simp add: heldLocked_def setLock_def lockedTotal_def lockOf_def)
  qed
qed

lemma lockOf_wf: "heldLocked s off \<Longrightarrow> locksWf (lockOf ty s)"
  by (simp add: heldLocked_def lockOf_def)

lemma updateLockedCoins_heldLocked:
  assumes "updateLockedCoins a c add ty s = Ret r s'" "heldLocked s off" "positiveCoins c"
  shows "heldLocked s' (\<lambda>d. off d - (if add then amt c d else - amt c d))"
proof -
  from updateLockedCoins_effect [OF assms(1) lockOf_wf [OF assms(2)] assms(3)] obtain v where
    v: "s' = setLock ty a v s" "\<And>n. v = Some n \<Longrightarrow> positiveCoins n"
    "\<And>d. (case v of None \<Rightarrow> 0 | Some n \<Rightarrow> amt n d) =
       lockedAmt (lockOf ty s) a d + (if add then amt c d else - amt c d)"
    "ty = LockCoinsTypeQuantity \<or> ty = LockCoinsTypeFee" by blast
  from setLock_heldLocked [OF assms(2) v(4,2,3)] v(1) show ?thesis by simp
qed

lemma setLock_bank [simp]:
  "balance (setLock ty a v s) x d = balance s x d"
  "moduleAddr (setLock ty a v s) md = moduleAddr s md"
  "bankOK (setLock ty a v s) = bankOK s"
  "blacklistedAddrs (setLock ty a v s) = blacklistedAddrs s"
  by (simp_all add: setLock_def)

lemma lockOf_setLock:
  "ty = LockCoinsTypeQuantity \<or> ty = LockCoinsTypeFee \<Longrightarrow>
   lockOf ty (setLock ty a v s) = (lockOf ty s)(a := v)"
  by (auto simp: lockOf_def setLock_def LockCoinsTypeQuantity_def LockCoinsTypeFee_def)

lemma lockOf_ledger: "ledger s s' f g \<Longrightarrow> lockOf ty s' = lockOf ty s"
  by (erule ledger_frame) (simp add: lockOf_def)

lemma moduleAddr_ledger: "ledger s s' f g \<Longrightarrow> moduleAddr s' md = moduleAddr s md"
  by (erule ledger_frame) (simp add: moduleAddr_def)

lemma SendToModule_valid:
  "SendCoinsFromAccountToModule a md c s = Ret r s' \<Longrightarrow> IsValid c"
  by (auto simp: SendCoinsFromAccountToModule_def SendCoins_def run_simps)

lemma SendFromModule_valid:
  "SendCoinsFromModuleToAccount md a c s = Ret r s' \<Longrightarrow> IsValid c"
  by (auto simp: SendCoinsFromModuleToAccount_def SendCoins_def run_simps)

text \<open>Locking moves coins from the account to the lock; the invariant is kept.\<close>

lemma LockCoins_effect:
  assumes inv: "heldLocked s off" and run: "LockCoins a c ty s = Ret r s'"
    and a: "a \<noteq> moduleAddr s tokenModule"
  shows "heldLocked s' off \<and> balance s' a d = balance s a d - amt c d \<and>
    lockedAmt (lockOf ty s') a d = lockedAmt (lockOf ty s) a d + amt c d"
proof -
  from run obtain r1 s1 where 1: "SendCoinsFromAccountToModule a tokenModule c s = Ret r1 s1"
    and 2: "updateLockedCoins a c True ty s1 = Ret r s'"
    by (auto simp: LockCoins_def run_simps)
  have c: "positiveCoins c" by (rule IsValid_positive [OF SendToModule_valid [OF 1]])
  note l = module_ledger(1) [OF heldLocked_bankOK [OF inv] 1 heldLocked_bankOK [OF inv]]
  have m: "moved a (moduleAddr s tokenModule) c (moduleAddr s tokenModule) e = amt c e" for e
    using a by (simp add: moved_def delta_def)
  from heldLocked_ledger [OF l inv] have h1: "heldLocked s1 (\<lambda>d. off d + amt c d)" by (simp add: m)
  from updateLockedCoins_heldLocked [OF 2 h1 c] have "heldLocked s' off" by simp
  moreover from updateLockedCoins_effect [OF 2 lockOf_wf [OF h1] c] obtain v where
    v: "s' = setLock ty a v s1"
    "\<And>d. (case v of None \<Rightarrow> 0 | Some n \<Rightarrow> amt n d) = lockedAmt (lockOf ty s1) a d + amt c d"
    "ty = LockCoinsTypeQuantity \<or> ty = LockCoinsTypeFee" by auto
  moreover have "balance s1 a d = balance s a d - amt c d"
    using l a by (simp add: ledger_def moved_def delta_def)
  ultimately show ?thesis
    by (simp add: lockOf_setLock lockOf_ledger [OF l] lockedAmt_def)
qed

lemma UnlockCoins_effect:
  assumes inv: "heldLocked s off" and run: "UnlockCoins a c ty s = Ret r s'"
    and a: "a \<noteq> moduleAddr s tokenModule" and c: "positiveCoins c"
  shows "heldLocked s' off \<and> balance s' a d = balance s a d + amt c d \<and>
    lockedAmt (lockOf ty s') a d = lockedAmt (lockOf ty s) a d - amt c d"
proof -
  from run obtain r1 s1 where 1: "updateLockedCoins a c False ty s = Ret r1 s1"
    and 2: "SendCoinsFromModuleToAccount tokenModule a c s1 = Ret r s'"
    by (auto simp: UnlockCoins_def run_simps)
  from updateLockedCoins_heldLocked [OF 1 inv c] have h1: "heldLocked s1 (\<lambda>d. off d + amt c d)" by simp
  from updateLockedCoins_effect [OF 1 lockOf_wf [OF inv] c] obtain v where
    v: "s1 = setLock ty a v s"
    "\<And>d. (case v of None \<Rightarrow> 0 | Some n \<Rightarrow> amt n d) = lockedAmt (lockOf ty s) a d - amt c d"
    "ty = LockCoinsTypeQuantity \<or> ty = LockCoinsTypeFee" by auto
  note l = module_ledger(2) [OF heldLocked_bankOK [OF h1] 2 heldLocked_bankOK [OF h1]]
  have m: "moduleAddr s1 tokenModule = moduleAddr s tokenModule" by (simp add: v(1))
  have mv: "moved (moduleAddr s tokenModule) a c (moduleAddr s tokenModule) e = - amt c e" for e
    using a by (simp add: moved_def delta_def)
  from heldLocked_ledger [OF l h1] have "heldLocked s' off" by (simp add: m mv)
  moreover have "balance s' a d = balance s a d + amt c d"
    using l a m by (simp add: ledger_def moved_def delta_def v(1))
  moreover have "lockedAmt (lockOf ty s') a d = lockedAmt (lockOf ty s) a d - amt c d"
    using v lockOf_ledger [OF l, of ty] by (simp add: lockOf_setLock lockedAmt_def)
  ultimately show ?thesis by simp
qed

subsection \<open>Handlers and the invariant\<close>

text \<open>
  What the chain's configuration guarantees: module accounts are blacklisted as recipients, and the
  fee collector is not the token module.
\<close>

definition tokenEnv :: "'x token_state_scheme \<Rightarrow> bool" where
  "tokenEnv s \<longleftrightarrow>
     blacklistedAddrs s (moduleAddr s tokenModule) \<and>
     moduleAddr s (feeCollectorName s) \<noteq> moduleAddr s tokenModule"

fun tokenSigner :: "TokenMsg \<Rightarrow> AccAddress" where
  "tokenSigner (TokenIssueMsg msg) = tiOwner msg"
| "tokenSigner (TokenBurnMsg msg) = taOwner msg"
| "tokenSigner (TokenMintMsg msg) = taOwner msg"
| "tokenSigner (TokenMultiSendMsg msg) = msFrom msg"
| "tokenSigner (TokenSendMsg msg) = FromAddress msg"
| "tokenSigner (TransferOwnershipMsg msg) = toFromAddress msg"
| "tokenSigner (ConfirmOwnershipMsg msg) = mcAddress msg"
| "tokenSigner (TokenModifyMsg msg) = tmOwner msg"
| "tokenSigner (WalletTransferMsg msg) = FromAddress msg"
| "tokenSigner OtherTokenMsg = []"

text \<open>A state in which the invariant and the configuration hold and \<open>a\<close> is not the token module.\<close>

definition tokenGood :: "AccAddress \<Rightarrow> 'x token_state_scheme \<Rightarrow> bool" where
  "tokenGood a s \<longleftrightarrow> tokenInv s \<and> tokenEnv s \<and> a \<noteq> moduleAddr s tokenModule"

lemma tokenGood_bankOK: "tokenGood a s \<Longrightarrow> bankOK s"
  unfolding tokenGood_def tokenInv_def by (blast intro: heldLocked_bankOK)

lemma tokenGood_ledger:
  assumes "ledger s s' f g" "tokenGood a s" "\<And>d. f (moduleAddr s tokenModule) d = 0"
  shows "tokenGood a s'"
proof -
  from assms(1) obtain A B where fr: "s' = s\<lparr>accounts := A, supplyStore := B\<rparr>" by (rule ledger_frame)
  have "tokenEnv s'" using assms(2) by (simp add: tokenGood_def tokenEnv_def fr moduleAddr_def)
  moreover have "tokenInv s'"
    using heldLocked_ledger [OF assms(1), of "\<lambda>_. 0"] assms(2,3) by (simp add: tokenGood_def tokenInv_def)
  ultimately show ?thesis
    using assms(2) by (simp add: tokenGood_def moduleAddr_ledger [OF assms(1)])
qed

lemma tokenGood_fields [simp]:
  "tokenGood a (s\<lparr>tokenStore := x1\<rparr>) = tokenGood a s"
  "tokenGood a (s\<lparr>userTokens := x2\<rparr>) = tokenGood a s"
  "tokenGood a (s\<lparr>tokenNumber := x3\<rparr>) = tokenGood a s"
  "tokenGood a (s\<lparr>confirmStore := x4\<rparr>) = tokenGood a s"
  by (simp_all add: tokenGood_def tokenInv_def tokenEnv_def)

lemma moved_elsewhere: "M \<noteq> a \<Longrightarrow> M \<noteq> b \<Longrightarrow> moved a b c M d = 0"
  by (simp add: moved_def delta_def)

lemma deductFee_ledger:
  assumes "deductFee fee a s = Ret r s'" "bankOK s"
  shows "\<exists>c. ledger s s' (moved a (moduleAddr s (feeCollectorName s)) c) (\<lambda>_. 0)"
proof -
  from assms(1) obtain c where "SendCoinsFromAccountToModule a (feeCollectorName s) c s = Ret r s'"
    by (auto simp: deductFee_def run_simps)
  from module_ledger(1) [OF assms(2) this assms(2)] show ?thesis by blast
qed

lemma deductFee_good:
  assumes "deductFee fee a s = Ret r s'" "tokenGood a s"
  shows "tokenGood a s'"
proof -
  from deductFee_ledger [OF assms(1) tokenGood_bankOK [OF assms(2)]] obtain c where
    l: "ledger s s' (moved a (moduleAddr s (feeCollectorName s)) c) (\<lambda>_. 0)" by blast
  show ?thesis
    by (rule tokenGood_ledger [OF l assms(2)])
      (use assms(2) in \<open>auto simp: tokenGood_def tokenEnv_def intro!: moved_elsewhere\<close>)
qed

lemma SendAccount_good:
  assumes "SendCoinsFromAccountToAccount a dst c s = Ret r s'" "tokenGood a s"
  shows "tokenGood a s'"
proof -
  from assms(1) have b: "\<not> blacklistedAddrs s dst" and "SendCoins a dst c s = Ret r s'"
    by (auto simp: SendCoinsFromAccountToAccount_def BlacklistedAddr_def IsContractAddress_def run_simps)
  from send.effect [OF tokenGood_bankOK [OF assms(2)] this(2)]
  have l: "ledger s s' (moved a dst c) (\<lambda>_. 0)" by (rule ledger_moved) (rule tokenGood_bankOK [OF assms(2)])
  have "moduleAddr s tokenModule \<noteq> dst" using b assms(2) by (auto simp: tokenGood_def tokenEnv_def)
  then show ?thesis
    using assms(2) by (intro tokenGood_ledger [OF l assms(2)] moved_elsewhere) (auto simp: tokenGood_def)
qed

text \<open>Minting and handing the coins over, and taking coins in and burning them.\<close>

lemma mint_send_ledger:
  assumes "MintCoins md c s = Ret r1 s1" "SendCoinsFromModuleToAccount md a c s1 = Ret r s'" "bankOK s"
  shows "ledger s s' (delta a c) (amt c)"
proof -
  note l1 = module_ledger(5) [OF assms(3,1)]
  note l2 = module_ledger(2) [OF ledger_bankOK [OF l1] assms(2) ledger_bankOK [OF l1]]
  from ledger_trans [OF l1 l2] show ?thesis
    by (simp add: moduleAddr_ledger [OF l1] moved_def delta_def)
qed

lemma send_burn_ledger:
  assumes "SendCoinsFromAccountToModule a md c s = Ret r1 s1" "BurnCoins md c s1 = Ret r s'" "bankOK s"
  shows "ledger s s' (\<lambda>x d. - delta a c x d) (\<lambda>d. - amt c d)"
proof -
  note l1 = module_ledger(1) [OF assms(3,1,3)]
  note l2 = module_ledger(6) [OF ledger_bankOK [OF l1] assms(2)]
  from ledger_trans [OF l1 l2] show ?thesis
    by (simp add: moduleAddr_ledger [OF l1] moved_def delta_def ledger_def)
qed

lemma handleMsgTokenIssue_run:
  assumes "handleMsgTokenIssue msg s = Ret r s'"
  shows "\<exists>total sym coins r1 s1 r2 s2 token.
    NewDecFromStr (tiTotalSupply msg) = Inr total \<and> total \<le> NewDec TotalSupplyUpperbound \<and>
    tokenSuffix (txHashHex s) (tiOriginalSymbol msg) (\<lambda>n. tokenStore s n \<noteq> None)
      (length (txHashHex s) div 3) = Some sym \<and>
    MustParseCoins sym (tiTotalSupply msg) = Some coins \<and>
    MintCoins tokenModule coins s = Ret r1 s1 \<and>
    SendCoinsFromModuleToAccount tokenModule (tiOwner msg) coins s1 = Ret r2 s2 \<and>
    tkSymbol token = sym \<and> tkOwner token = tiOwner msg \<and>
    deductFee FeeIssue (tiOwner msg) (s2\<lparr>tokenStore := (tokenStore s2)(sym \<mapsto> token),
       userTokens := (userTokens s2)(tiOwner msg := (userTokens s2 (tiOwner msg))(sym := True)),
       tokenNumber := (tokenNumber s2 + 1) mod 2 ^ 64\<rparr>) = Ret r s'"
proof -
  from assms obtain total where t: "NewDecFromStr (tiTotalSupply msg) = Inr total"
    by (cases "NewDecFromStr (tiTotalSupply msg)") (auto simp: handleMsgTokenIssue_def run_simps)
  with assms obtain sym where sym: "tokenSuffix (txHashHex s) (tiOriginalSymbol msg)
      (\<lambda>n. tokenStore s n \<noteq> None) (length (txHashHex s) div 3) = Some sym"
    by (cases "tokenSuffix (txHashHex s) (tiOriginalSymbol msg)
      (\<lambda>n. tokenStore s n \<noteq> None) (length (txHashHex s) div 3)")
      (auto simp: handleMsgTokenIssue_def addTokenSuffix_def run_simps)
  let ?token = "\<lparr>tkDescription = tiDescription msg, tkSymbol = sym,
       tkOriginalSymbol = tiOriginalSymbol msg, tkWholeName = tiWholeName msg,
       tkOriginalTotalSupply = total, tkType = 0,
       tkOwner = tiOwner msg, tkMintable = tiMintable msg\<rparr>"
  from assms t sym obtain coins r1 s1 r2 s2 where
    "MustParseCoins sym (tiTotalSupply msg) = Some coins" "MintCoins tokenModule coins s = Ret r1 s1"
    "SendCoinsFromModuleToAccount tokenModule (tiOwner msg) coins s1 = Ret r2 s2"
    "deductFee FeeIssue (tiOwner msg) (s2\<lparr>tokenStore := (tokenStore s2)(sym \<mapsto> ?token),
       userTokens := (userTokens s2)(tiOwner msg := (userTokens s2 (tiOwner msg))(sym := True)),
       tokenNumber := (tokenNumber s2 + 1) mod 2 ^ 64\<rparr>) = Ret r s'"
    "total \<le> NewDec TotalSupplyUpperbound"
    by (auto simp: handleMsgTokenIssue_def addTokenSuffix_def NewToken_def run_simps)
  with t sym show ?thesis
    by (intro exI [of _ total] exI [of _ sym] exI [of _ coins] exI [of _ r1] exI [of _ s1]
        exI [of _ r2] exI [of _ s2] exI [of _ ?token]) simp
qed


lemma handleMsgTokenMint_run:
  assumes "handleMsgTokenMint msg s = Ret r s'"
  shows "\<exists>t c r1 s1 r2 s2.
    t = (case tokenStore s (Denom (taAmount msg)) of None \<Rightarrow> emptyToken | Some t \<Rightarrow> t) \<and>
    tkOwner t = taOwner msg \<and> tkMintable t \<and>
    supplyOf s (Denom (taAmount msg)) + Amount (taAmount msg) \<le> NewDec TotalSupplyUpperbound \<and>
    ToCoins (taAmount msg) = Some c \<and> MintCoins tokenModule c s = Ret r1 s1 \<and>
    SendCoinsFromModuleToAccount tokenModule (taOwner msg) c s1 = Ret r2 s2 \<and>
    deductFee FeeMint (taOwner msg) s2 = Ret r s'"
  using assms
  by (simp add: handleMsgTokenMint_def GetTokenInfo_def GetSupplyByDenom_def run_simps not_less)

lemma handleMsgTokenBurn_run:
  assumes "handleMsgTokenBurn msg s = Ret r s'"
  shows "\<exists>t c r1 s1 r2 s2.
    t = (case tokenStore s (Denom (taAmount msg)) of None \<Rightarrow> emptyToken | Some t \<Rightarrow> t) \<and>
    tkOwner t = taOwner msg \<and>
    ToCoins (taAmount msg) = Some c \<and>
    SendCoinsFromAccountToModule (taOwner msg) tokenModule c s = Ret r1 s1 \<and>
    BurnCoins tokenModule c s1 = Ret r2 s2 \<and>
    deductFee FeeBurn (taOwner msg) s2 = Ret r s'"
  using assms by (simp add: handleMsgTokenBurn_def GetTokenInfo_def run_simps)

lemma delta_elsewhere: "M \<noteq> a \<Longrightarrow> delta a c M d = 0"
  by (simp add: delta_def)

lemma handleMsgTokenIssue_good:
  assumes "handleMsgTokenIssue msg s = Ret r s'" "tokenGood (tiOwner msg) s"
  shows "tokenGood (tiOwner msg) s'"
proof -
  from handleMsgTokenIssue_run [OF assms(1)] obtain sym coins r1 s1 r2 s2 token where
    1: "MintCoins tokenModule coins s = Ret r1 s1"
    "SendCoinsFromModuleToAccount tokenModule (tiOwner msg) coins s1 = Ret r2 s2"
    and 2: "deductFee FeeIssue (tiOwner msg) (s2\<lparr>tokenStore := (tokenStore s2)(sym \<mapsto> token),
       userTokens := (userTokens s2)(tiOwner msg := (userTokens s2 (tiOwner msg))(sym := True)),
       tokenNumber := (tokenNumber s2 + 1) mod 2 ^ 64\<rparr>) = Ret r s'" by blast
  have "tokenGood (tiOwner msg) s2"
    using assms(2)
    by (intro tokenGood_ledger [OF mint_send_ledger [OF 1 tokenGood_bankOK [OF assms(2)]] assms(2)]
        delta_elsewhere) (auto simp: tokenGood_def)
  with deductFee_good [OF 2] show ?thesis by simp
qed

lemma handleMsgTokenMint_good:
  assumes "handleMsgTokenMint msg s = Ret r s'" "tokenGood (taOwner msg) s"
  shows "tokenGood (taOwner msg) s'"
proof -
  from handleMsgTokenMint_run [OF assms(1)] obtain c r1 s1 r2 s2 where
    1: "MintCoins tokenModule c s = Ret r1 s1"
    "SendCoinsFromModuleToAccount tokenModule (taOwner msg) c s1 = Ret r2 s2"
    and 2: "deductFee FeeMint (taOwner msg) s2 = Ret r s'" by blast
  have "tokenGood (taOwner msg) s2"
    using assms(2)
    by (intro tokenGood_ledger [OF mint_send_ledger [OF 1 tokenGood_bankOK [OF assms(2)]] assms(2)]
        delta_elsewhere) (auto simp: tokenGood_def)
  with deductFee_good [OF 2] show ?thesis by simp
qed

lemma handleMsgTokenBurn_good:
  assumes "handleMsgTokenBurn msg s = Ret r s'" "tokenGood (taOwner msg) s"
  shows "tokenGood (taOwner msg) s'"
proof -
  from handleMsgTokenBurn_run [OF assms(1)] obtain c r1 s1 r2 s2 where
    1: "SendCoinsFromAccountToModule (taOwner msg) tokenModule c s = Ret r1 s1"
    "BurnCoins tokenModule c s1 = Ret r2 s2"
    and 2: "deductFee FeeBurn (taOwner msg) s2 = Ret r s'" by blast
  have "tokenGood (taOwner msg) s2"
    using assms(2)
    by (intro tokenGood_ledger [OF send_burn_ledger [OF 1 tokenGood_bankOK [OF assms(2)]] assms(2)])
      (auto simp: tokenGood_def delta_def)
  with deductFee_good [OF 2] show ?thesis by simp
qed

lemma sends_good:
  "handleTokenSend m s = Ret r s' \<Longrightarrow> tokenGood (FromAddress m) s \<Longrightarrow> tokenGood (FromAddress m) s'"
  "handleWalletMsgSend m s = Ret r s' \<Longrightarrow> tokenGood (FromAddress m) s \<Longrightarrow> tokenGood (FromAddress m) s'"
  by (auto simp: handleTokenSend_def handleWalletMsgSend_def GetSendEnabled_def run_simps
      intro: SendAccount_good)

lemma handleTokenMultiSend_good:
  assumes "handleTokenMultiSend msg s = Ret r s'" "tokenGood (msFrom msg) s"
  shows "tokenGood (msFrom msg) s'"
proof -
  from assms(1) have "forM (msTransfers msg) (\<lambda>t.
        wrapM ErrSendCoinsFromAccountToAccountFailed
          (SendCoinsFromAccountToAccount (msFrom msg) (tuTo t) (tuCoins t))) s = Ret r s'"
    by (simp only: handleTokenMultiSend_def GetSendEnabled_def run_simps) blast
  then show ?thesis
    using assms(2) by (rule forM_invariant) (simp add: run_simps SendAccount_good)
qed

lemma handleMsgTransferOwnership_good:
  assumes "handleMsgTransferOwnership msg s = Ret r s'" "tokenGood (toFromAddress msg) s"
  shows "tokenGood (toFromAddress msg) s'"
proof -
  from assms(1) obtain s1 where "deductFee FeeChown (toFromAddress msg) s1 = Ret r s'"
    "tokenGood (toFromAddress msg) s1 = tokenGood (toFromAddress msg) s"
    by (auto simp: handleMsgTransferOwnership_def GetTokenInfo_def GetConfirmOwnership_def
        DeleteUserToken_def NewToken_def SetConfirmOwnership_def run_simps split: if_splits)
  with deductFee_good assms(2) show ?thesis by blast
qed

lemma handleMsgConfirmOwnership_good:
  assumes "handleMsgConfirmOwnership msg s = Ret r s'" "tokenGood (mcAddress msg) s"
  shows "tokenGood (mcAddress msg) s'"
  using assms
  by (auto simp: handleMsgConfirmOwnership_def GetTokenInfo_def GetConfirmOwnership_def
      DeleteUserToken_def NewToken_def DeleteConfirmOwnership_def run_simps split: if_splits option.splits)

lemma handleMsgTokenModify_good:
  assumes "handleMsgTokenModify msg s = Ret r s'" "tokenGood (tmOwner msg) s"
  shows "tokenGood (tmOwner msg) s'"
proof -
  from assms(1) obtain s1 where "deductFee FeeModify (tmOwner msg) s1 = Ret r s'"
    "tokenGood (tmOwner msg) s1 = tokenGood (tmOwner msg) s"
    by (auto simp: handleMsgTokenModify_def GetTokenInfo_def UpdateToken_def Let_def run_simps)
  with deductFee_good assms(2) show ?thesis by blast
qed

lemma tokenHandler_good:
  "tokenHandler msg s = Ret r s' \<Longrightarrow> tokenGood (tokenSigner msg) s \<Longrightarrow> tokenGood (tokenSigner msg) s'"
  by (cases msg)
    (auto simp: run_simps intro: handleMsgTokenIssue_good handleMsgTokenMint_good handleMsgTokenBurn_good
      sends_good handleTokenMultiSend_good handleMsgTransferOwnership_good
      handleMsgConfirmOwnership_good handleMsgTokenModify_good)

subsection \<open>The coins of a new token\<close>

lemma isUpperChar_code: "isUpperChar c \<longleftrightarrow> 65 \<le> (of_char c :: nat) \<and> (of_char c :: nat) \<le> 90"
  by (simp add: isUpperChar_def inRange_def char_le_iff)

definition isLetter :: "char \<Rightarrow> bool" where
  "isLetter c \<longleftrightarrow> isLowerChar c \<or> isUpperChar c"

lemma isLetter_not: "isLetter c \<Longrightarrow> \<not> isAmountChar c \<and> \<not> isSpaceChar c"
  by (auto simp: isLetter_def isLowerChar_code isUpperChar_code isAmountChar_def isDigit_def
      decimalPoint_def isSpaceChar_def)

lemma ValidateDenom_chars:
  assumes "ValidateDenom s"
  shows "s \<noteq> [] \<and> isLetter (hd s) \<and> list_all (\<lambda>c. \<not> isSpaceChar c \<and> c \<noteq> CHR '','') s"
proof -
  have low: "isDenomChar c \<Longrightarrow> \<not> isSpaceChar c \<and> c \<noteq> CHR '',''" for c
    by (auto simp: isDenomChar_not_space)
      (auto simp: isDenomChar_def isLowerChar_code isDigit_def)
  have okt: "list_all isDenomChar ''okt'' \<and> isLowerChar (hd ''okt'')"
    by (simp add: isDenomChar_def isLowerChar_code)
  have ibc: "(isLowerChar x \<or> isUpperChar x \<or> isDigit x \<or> x = CHR ''/'' \<or> x = CHR ''-'') \<Longrightarrow>
      \<not> isSpaceChar x \<and> x \<noteq> CHR '',''" for x
    by (auto simp: isLowerChar_code isUpperChar_code isDigit_def isSpaceChar_def)
  consider "s = ''okt''" | "reDnm s" | "rePoolTokenDnm s" | "validIBCCoinDenom s"
    using assms by (auto simp: ValidateDenom_def DefaultBondDenom_def split: if_splits)
  then show ?thesis
  proof cases
    case 1
    with okt low show ?thesis by (auto simp: isLetter_def list_all_iff)
  next
    case 2
    from reDnm_chars [OF this] low show ?thesis by (auto simp: isLetter_def list_all_iff)
  next
    case 3
    from rePool_chars [OF this] low show ?thesis by (auto simp: isLetter_def list_all_iff)
  next
    case 4
    then show ?thesis
      using ibc by (auto simp: validIBCCoinDenom_def isLetter_def list_all_iff split: list.splits)
  qed
qed

definition isSignedChar :: "char \<Rightarrow> bool" where
  "isSignedChar c \<longleftrightarrow> isAmountChar c \<or> c = CHR ''-'' \<or> c = CHR ''+''"

lemma SetString_chars: "SetString s = Some n \<Longrightarrow> list_all isSignedChar s"
  by (auto simp: SetString_def SetUnsigned_def isSignedChar_def isAmountChar_def list_all_iff
      split: list.splits if_splits)

lemma combineDec_chars: "combineDec neg s n = Inr d \<Longrightarrow> list_all isSignedChar s"
  by (auto simp: combineDec_def split: if_splits option.splits dest!: SetString_chars)

lemma NewDecFromStr_chars:
  assumes "NewDecFromStr s = Inr d"
  shows "s \<noteq> [] \<and> list_all isSignedChar s"
proof -
  define str where "str = (if hd s = CHR ''-'' then tl s else s)"
  from assms have ne: "s \<noteq> []" by (auto simp: NewDecFromStr_def)
  have sub: "set s \<subseteq> insert (CHR ''-'') (set str)"
    using ne by (cases s) (auto simp: str_def)
  have "list_all isSignedChar str"
  proof -
    from assms ne obtain a b n where "(splitOn decimalPoint str = [a] \<and> b = []) \<or> splitOn decimalPoint str = [a, b]"
      and c: "combineDec (hd s = CHR ''-'') (a @ b) n = Inr d"
      by (auto simp: NewDecFromStr_def Let_def str_def [symmetric] split: if_splits list.splits)
    then have "set str \<subseteq> insert decimalPoint (set (a @ b))"
      using splitOn_chars [of str decimalPoint] by auto
    with combineDec_chars [OF c] show ?thesis
      by (auto simp: list_all_iff isSignedChar_def isAmountChar_def subset_iff)
  qed
  with sub ne show ?thesis by (auto simp: list_all_iff isSignedChar_def subset_iff)
qed

lemma isSignedChar_plain: "isSignedChar c \<Longrightarrow> \<not> isSpaceChar c \<and> c \<noteq> CHR '',''"
  by (auto simp: isSignedChar_def isAmountChar_def isDigit_def decimalPoint_def isSpaceChar_def)

lemma reDecAmt_Nil [simp]: "\<not> reDecAmt []"
  by (simp add: reDecAmt_def)

lemma ParseDecCoin_amount_denom:
  assumes "NewDecFromStr s = Inr t" "ValidateDenom d" "ParseDecCoin (s @ d) = Some (Inr c)"
  shows "c = mkCoin d t"
proof -
  have s: "s \<noteq> []" "list_all isSignedChar s" using NewDecFromStr_chars [OF assms(1)] by auto
  have d: "d \<noteq> []" "isLetter (hd d)" "list_all (\<lambda>c. \<not> isSpaceChar c \<and> c \<noteq> CHR '','') d"
    using ValidateDenom_chars [OF assms(2)] by auto
  have "\<not> isSpaceChar (hd (s @ d))" "\<not> isSpaceChar (last (s @ d))"
    using s d isSignedChar_plain by (auto simp: list_all_iff)
  then have trim: "TrimSpace (s @ d) = s @ d" using s(1) by (intro TrimSpace_id) auto
  have nd: "\<not> isAmountChar (hd d)" "\<not> isSpaceChar (hd d)" using isLetter_not [OF d(2)] by auto
  define a where "a = takeWhile isAmountChar (s @ d)"
  define e where "e = dropWhile isSpaceChar (dropWhile isAmountChar (s @ d))"
  have am: "parseMatches (Some (a, e)) = Some (Inr c) \<and> reDecAmt a"
    using assms(3) unfolding ParseDecCoin_def IBCParseDecCoin_def Let_def trim reDecCoin_def ibcReDecCoin_def
    by (auto simp: a_def e_def parseMatches_def split: if_splits)
  have "list_all isAmountChar s"
  proof (rule ccontr)
    assume "\<not> list_all isAmountChar s"
    then have ne: "dropWhile isAmountChar s \<noteq> []" by (auto simp: list_all_iff)
    define x where "x = hd (dropWhile isAmountChar s)"
    have x: "\<not> isAmountChar x" "x \<in> set s"
      using hd_dropWhile [OF ne] hd_in_set [OF ne] set_dropWhileD by (force simp: x_def)+
    have xs: "dropWhile isAmountChar (s @ d) = dropWhile isAmountChar s @ d"
      using \<open>\<not> list_all isAmountChar s\<close> by (auto simp: list_all_iff dropWhile_append1)
    have "\<not> isSpaceChar x" using s(2) x(2) isSignedChar_plain by (auto simp: list_all_iff)
    then have "hd e = x" using ne xs by (cases "dropWhile isAmountChar s") (auto simp: e_def x_def)
    moreover have "ValidateDenom e" using am by (auto simp: parseMatches_def split: sum.splits if_splits)
    ultimately have "isLetter x" using ValidateDenom_chars by blast
    moreover have "x = CHR ''-'' \<or> x = CHR ''+''"
      using s(2) x by (auto simp: list_all_iff isSignedChar_def)
    ultimately show False by (auto simp: isLetter_def isLowerChar_code isUpperChar_code)
  qed
  then have "a = s" "e = d"
    using nd d(1) unfolding a_def e_def
    by (cases d; simp add: list_all_iff takeWhile_append2 dropWhile_append2)+
  with am assms(1,2) show ?thesis
    by (auto simp: parseMatches_def NewDecCoinFromDec_def split: if_splits)
qed

lemma MustParseCoins_single:
  assumes "NewDecFromStr s = Inr t" "ValidateDenom d" "MustParseCoins d s = Some cs"
  shows "cs = [mkCoin d t]"
proof -
  have s: "s \<noteq> []" "list_all isSignedChar s" using NewDecFromStr_chars [OF assms(1)] by auto
  have d: "d \<noteq> []" "list_all (\<lambda>c. \<not> isSpaceChar c \<and> c \<noteq> CHR '','') d"
    using ValidateDenom_chars [OF assms(2)] by auto
  have plain: "\<not> isSpaceChar c \<and> c \<noteq> CHR '',''" if "c \<in> set (s @ d)" for c
    using that s(2) d(2) isSignedChar_plain by (auto simp: list_all_iff)
  have "TrimSpace (s @ d) = s @ d"
    using s(1) d(1) plain by (intro TrimSpace_id) auto
  moreover have "splitOn (CHR '','') (s @ d) = [s @ d]"
    using plain by (intro splitOn_absent) blast
  ultimately obtain c where "ParseDecCoin (s @ d) = Some (Inr c)" and "cs = SortCoins [c]"
    using assms(3) s(1)
    by (cases "ParseDecCoin (s @ d)"; cases "the (ParseDecCoin (s @ d))")
      (auto simp: MustParseCoins_def ParseDecCoins_def Let_def split: if_splits)
  with ParseDecCoin_amount_denom [OF assms(1,2)] show ?thesis by (simp add: SortCoins_sorted)
qed

lemma tokenSuffix_fresh:
  "tokenSuffix h orig ex n = Some nm \<Longrightarrow> ValidateDenom nm \<and> \<not> ex nm"
  by (induction n) (auto simp: Let_def split: if_splits)

lemma ToCoins_amt: "ToCoins c = Some cs \<Longrightarrow> amt cs d = (if Denom c = d then Amount c else 0)"
  by (auto simp: ToCoins_def NewCoins_def Let_def removeZeroCoins_def coin_simps split: if_splits)

lemma ToCoins_nonneg: "ToCoins c = Some cs \<Longrightarrow> 0 \<le> Amount c"
  using ToCoins_amt [of c cs "Denom c"]
  by (auto simp: ToCoins_def NewCoins_def Let_def coin_simps split: if_splits
      dest!: IsValid_positive positiveCoins_amt)

section \<open>The specification of the token module\<close>

text \<open>
  What the module promises, without accounts, fees and coin sets: who owns a token, whether it may be
  minted, its supply, and the pending ownership offers with the time they expire.
\<close>

record token_view =
  vOwner :: "string \<rightharpoonup> AccAddress"
  vMintable :: "string \<Rightarrow> bool"
  vSupply :: "string \<Rightarrow> Dec"
  vPending :: "string \<rightharpoonup> AccAddress \<times> int"

definition tokenView :: "'x token_state_scheme \<Rightarrow> token_view" where
  "tokenView s = \<lparr>vOwner = (\<lambda>k. map_option tkOwner (tokenStore s k)),
     vMintable = (\<lambda>k. case tokenStore s k of None \<Rightarrow> False | Some t \<Rightarrow> tkMintable t),
     vSupply = supplyOf s,
     vPending = (\<lambda>k. map_option (\<lambda>c. (coAddress c, coExpire c)) (confirmStore s k))\<rparr>"

inductive tokenStep :: "int \<Rightarrow> AccAddress \<Rightarrow> token_view \<Rightarrow> token_view \<Rightarrow> bool" where
  issue: "vOwner v k = None \<Longrightarrow> 0 \<le> x \<Longrightarrow> x \<le> NewDec TotalSupplyUpperbound \<Longrightarrow>
    tokenStep now a v (v\<lparr>vOwner := (vOwner v)(k \<mapsto> a), vMintable := (vMintable v)(k := m),
      vSupply := (vSupply v)(k := vSupply v k + x)\<rparr>)"
| mint: "vOwner v k = Some a \<Longrightarrow> vMintable v k \<Longrightarrow> 0 \<le> x \<Longrightarrow>
    vSupply v k + x \<le> NewDec TotalSupplyUpperbound \<Longrightarrow>
    tokenStep now a v (v\<lparr>vSupply := (vSupply v)(k := vSupply v k + x)\<rparr>)"
| burn: "vOwner v k = Some a \<Longrightarrow> 0 \<le> x \<Longrightarrow>
    tokenStep now a v (v\<lparr>vSupply := (vSupply v)(k := vSupply v k - x)\<rparr>)"
| offer: "vOwner v k = Some a \<Longrightarrow> (\<forall>b e. vPending v k = Some (b, e) \<longrightarrow> e < now) \<Longrightarrow>
    tokenStep now a v (v\<lparr>vPending := (vPending v)(k \<mapsto> (b, now + w))\<rparr>)"
| abandon: "vOwner v k = Some a \<Longrightarrow> (\<forall>b e. vPending v k = Some (b, e) \<longrightarrow> e < now) \<Longrightarrow>
    tokenStep now a v (v\<lparr>vOwner := (vOwner v)(k \<mapsto> BlackHoleAddress)\<rparr>)"
| accept: "vPending v k = Some (a, e) \<Longrightarrow> now \<le> e \<Longrightarrow> vOwner v k = Some b \<Longrightarrow>
    tokenStep now a v (v\<lparr>vOwner := (vOwner v)(k \<mapsto> a), vPending := (vPending v)(k := None)\<rparr>)"
| stutter: "tokenStep now a v v"

text \<open>The stores are keyed by the symbol, and an offer is for a token that exists.\<close>

definition storesWf :: "'x token_state_scheme \<Rightarrow> bool" where
  "storesWf s \<longleftrightarrow>
     (\<forall>k t. tokenStore s k = Some t \<longrightarrow> tkSymbol t = k) \<and>
     (\<forall>k c. confirmStore s k = Some c \<longrightarrow> coSymbol c = k \<and> tokenStore s k \<noteq> None)"

lemma storesWfD:
  "storesWf s \<Longrightarrow> tokenStore s k = Some t \<Longrightarrow> tkSymbol t = k"
  "storesWf s \<Longrightarrow> confirmStore s k = Some c \<Longrightarrow> coSymbol c = k"
  "storesWf s \<Longrightarrow> confirmStore s k = Some c \<Longrightarrow> \<exists>t. tokenStore s k = Some t"
  by (auto simp: storesWf_def)

lemma ledger_stores:
  assumes "ledger s s' f g"
  shows "tokenStore s' = tokenStore s \<and> confirmStore s' = confirmStore s \<and> blockTime s' = blockTime s \<and>
    supplyOf s' = (\<lambda>d. supplyOf s d + g d)"
proof -
  from assms obtain A B where fr: "s' = s\<lparr>accounts := A, supplyStore := B\<rparr>" by (rule ledger_frame)
  have "supplyOf s' d = supplyOf s d + g d" for d using assms by (simp add: ledger_def)
  then have "supplyOf s' = (\<lambda>d. supplyOf s d + g d)" ..
  with fr show ?thesis by simp
qed

lemma tokenView_ledger: "ledger s s' f (\<lambda>_. 0) \<Longrightarrow> tokenView s' = tokenView s"
  by (drule ledger_stores) (simp add: tokenView_def)

lemma storesWf_ledger: "ledger s s' f g \<Longrightarrow> storesWf s' = storesWf s"
  by (drule ledger_stores) (simp add: storesWf_def)

text \<open>What a step of the implementation promises: the specification's step, and the two invariants.\<close>

definition refinesStep :: "AccAddress \<Rightarrow> 'x token_state_scheme \<Rightarrow> 'x token_state_scheme \<Rightarrow> bool" where
  "refinesStep a s s' \<longleftrightarrow> tokenStep (blockTime s) a (tokenView s) (tokenView s') \<and> bankOK s' \<and> storesWf s'"

lemma refines_ledger:
  assumes "ledger s s' f (\<lambda>_. 0)" "storesWf s"
  shows "refinesStep a s s'"
  using assms
  by (simp add: refinesStep_def tokenView_ledger storesWf_ledger ledger_bankOK tokenStep.stutter)

lemma refines_fee:
  assumes "refinesStep a s s1" "deductFee fee b s1 = Ret r s'" "bankOK s1"
  shows "refinesStep a s s'"
proof -
  from deductFee_ledger [OF assms(2,3)] obtain f where l: "ledger s1 s' f (\<lambda>_. 0)" by blast
  with assms(1) show ?thesis
    by (simp add: refinesStep_def tokenView_ledger [OF l] storesWf_ledger [OF l] ledger_bankOK [OF l])
qed

lemma handleMsgTokenIssue_refines:
  assumes run: "handleMsgTokenIssue msg s = Ret r s'" and ok: "bankOK s" "storesWf s"
  shows "refinesStep (tiOwner msg) s s'"
proof -
  from handleMsgTokenIssue_run [OF run] obtain t k coins r1 s1 r2 s2 token where
    t: "NewDecFromStr (tiTotalSupply msg) = Inr t" "t \<le> NewDec TotalSupplyUpperbound"
    and k: "tokenSuffix (txHashHex s) (tiOriginalSymbol msg) (\<lambda>n. tokenStore s n \<noteq> None)
      (length (txHashHex s) div 3) = Some k"
    and c: "MustParseCoins k (tiTotalSupply msg) = Some coins"
    and 1: "MintCoins tokenModule coins s = Ret r1 s1"
    "SendCoinsFromModuleToAccount tokenModule (tiOwner msg) coins s1 = Ret r2 s2"
    and tk: "tkSymbol token = k" "tkOwner token = tiOwner msg"
    and 2: "deductFee FeeIssue (tiOwner msg) (s2\<lparr>tokenStore := (tokenStore s2)(k \<mapsto> token),
       userTokens := (userTokens s2)(tiOwner msg := (userTokens s2 (tiOwner msg))(k := True)),
       tokenNumber := (tokenNumber s2 + 1) mod 2 ^ 64\<rparr>) = Ret r s'"
    by blast
  let ?s3 = "s2\<lparr>tokenStore := (tokenStore s2)(k \<mapsto> token),
       userTokens := (userTokens s2)(tiOwner msg := (userTokens s2 (tiOwner msg))(k := True)),
       tokenNumber := (tokenNumber s2 + 1) mod 2 ^ 64\<rparr>"
  have fresh: "ValidateDenom k" "tokenStore s k = None" using tokenSuffix_fresh [OF k] by auto
  have coins: "coins = [mkCoin k t]" by (rule MustParseCoins_single [OF t(1) fresh(1) c])
  have "0 \<le> amt coins k"
    by (rule positiveCoins_amt [OF IsValid_positive [OF SendFromModule_valid [OF 1(2)]]])
  then have t0: "0 \<le> t" by (simp add: coins)
  note l = mint_send_ledger [OF 1 ok(1)]
  from ledger_stores [OF l] have st: "tokenStore s2 = tokenStore s" "confirmStore s2 = confirmStore s"
    "\<And>d. supplyOf s2 d = supplyOf s d + amt coins d" by auto
  have "tokenView ?s3 = (tokenView s)\<lparr>vOwner := (vOwner (tokenView s))(k \<mapsto> tiOwner msg),
      vMintable := (vMintable (tokenView s))(k := tkMintable token),
      vSupply := (vSupply (tokenView s))(k := vSupply (tokenView s) k + t)\<rparr>"
    by (simp add: tokenView_def) (auto simp: fun_eq_iff tk st coins)
  moreover have "vOwner (tokenView s) k = None" by (simp add: tokenView_def fresh)
  moreover have "storesWf ?s3" using ok(2) tk(1) by (auto simp: storesWf_def st)
  moreover have "bankOK ?s3" using ledger_bankOK [OF l] by simp
  ultimately have "refinesStep (tiOwner msg) s ?s3" "bankOK ?s3"
    using t(2) t0 by (simp_all add: refinesStep_def tokenStep.issue)
  from refines_fee [OF this(1) 2 this(2)] show ?thesis .
qed

lemma refines_resupply:
  assumes l: "ledger s s1 f (\<lambda>d. if k = d then x else 0)" and wf: "storesWf s"
    and step: "tokenStep (blockTime s) a (tokenView s)
      ((tokenView s)\<lparr>vSupply := (vSupply (tokenView s))(k := vSupply (tokenView s) k + x)\<rparr>)"
  shows "refinesStep a s s1"
proof -
  note st = ledger_stores [OF l]
  have "supplyOf s1 = (supplyOf s)(k := supplyOf s k + x)"
    using st by (auto simp: fun_eq_iff)
  with st have "tokenView s1 = (tokenView s)\<lparr>vSupply := (vSupply (tokenView s))(k := vSupply (tokenView s) k + x)\<rparr>"
    by (simp add: tokenView_def)
  with step wf show ?thesis
    by (simp add: refinesStep_def storesWf_ledger [OF l] ledger_bankOK [OF l])
qed

lemma owner_token:
  "t = (case tokenStore s k of None \<Rightarrow> emptyToken | Some t \<Rightarrow> t) \<Longrightarrow> tkOwner t = a \<Longrightarrow> a \<noteq> [] \<Longrightarrow>
   tokenStore s k = Some t"
  by (auto simp: emptyToken_def split: option.splits)

lemma handleMsgTokenMint_refines:
  assumes run: "handleMsgTokenMint msg s = Ret r s'" and ok: "bankOK s" "storesWf s" "taOwner msg \<noteq> []"
  shows "refinesStep (taOwner msg) s s'"
proof -
  let ?k = "Denom (taAmount msg)" and ?x = "Amount (taAmount msg)"
  from handleMsgTokenMint_run [OF run] obtain t c r1 s1 r2 s2 where
    t: "t = (case tokenStore s ?k of None \<Rightarrow> emptyToken | Some t \<Rightarrow> t)"
    "tkOwner t = taOwner msg" "tkMintable t" "supplyOf s ?k + ?x \<le> NewDec TotalSupplyUpperbound"
    and c: "ToCoins (taAmount msg) = Some c" and 1: "MintCoins tokenModule c s = Ret r1 s1"
    "SendCoinsFromModuleToAccount tokenModule (taOwner msg) c s1 = Ret r2 s2"
    and 2: "deductFee FeeMint (taOwner msg) s2 = Ret r s'" by blast
  have am: "amt c = (\<lambda>d. if ?k = d then ?x else 0)" by (rule ext) (rule ToCoins_amt [OF c])
  note l = mint_send_ledger [OF 1 ok(1), unfolded am]
  have "tokenStore s ?k = Some t" by (rule owner_token [OF t(1,2) ok(3)])
  with t ToCoins_nonneg [OF c]
  have "refinesStep (taOwner msg) s s2"
    by (intro refines_resupply [OF l ok(2)] tokenStep.mint) (simp_all add: tokenView_def)
  from refines_fee [OF this 2 ledger_bankOK [OF l]] show ?thesis .
qed

lemma handleMsgTokenBurn_refines:
  assumes run: "handleMsgTokenBurn msg s = Ret r s'" and ok: "bankOK s" "storesWf s" "taOwner msg \<noteq> []"
  shows "refinesStep (taOwner msg) s s'"
proof -
  let ?k = "Denom (taAmount msg)" and ?x = "Amount (taAmount msg)"
  from handleMsgTokenBurn_run [OF run] obtain t c r1 s1 r2 s2 where
    t: "t = (case tokenStore s ?k of None \<Rightarrow> emptyToken | Some t \<Rightarrow> t)" "tkOwner t = taOwner msg"
    and c: "ToCoins (taAmount msg) = Some c"
    and 1: "SendCoinsFromAccountToModule (taOwner msg) tokenModule c s = Ret r1 s1"
    "BurnCoins tokenModule c s1 = Ret r2 s2"
    and 2: "deductFee FeeBurn (taOwner msg) s2 = Ret r s'" by blast
  have am: "(\<lambda>d. - amt c d) = (\<lambda>d. if ?k = d then - ?x else 0)"
    by (rule ext) (simp add: ToCoins_amt [OF c])
  note l = send_burn_ledger [OF 1 ok(1), unfolded am]
  have "tokenStore s ?k = Some t" by (rule owner_token [OF t(1,2) ok(3)])
  then have "vOwner (tokenView s) ?k = Some (taOwner msg)" using t(2) by (simp add: tokenView_def)
  then have "tokenStep (blockTime s) (taOwner msg) (tokenView s) ((tokenView s)\<lparr>vSupply :=
      (vSupply (tokenView s))(?k := vSupply (tokenView s) ?k + - ?x)\<rparr>)"
    using tokenStep.burn [of "tokenView s" ?k "taOwner msg" ?x] ToCoins_nonneg [OF c] by simp
  from refines_resupply [OF l ok(2) this] have "refinesStep (taOwner msg) s s2" .
  from refines_fee [OF this 2 ledger_bankOK [OF l]] show ?thesis .
qed

lemma refines_sends:
  assumes "forM ts (\<lambda>t. wrapM e (SendCoinsFromAccountToAccount a (tuTo t) (tuCoins t))) s = Ret r s'"
    "bankOK s" "storesWf s"
  shows "\<exists>f. ledger s s' f (\<lambda>_. 0)"
proof -
  have "(\<lambda>s1. \<exists>f. ledger s s1 f (\<lambda>_. 0)) s'"
  proof (rule forM_invariant [OF assms(1)])
    show "\<exists>f. ledger s s f (\<lambda>_. 0)" using ledger_refl [OF assms(2)] by blast
    fix t s1 r2 s2
    assume "\<exists>f. ledger s s1 f (\<lambda>_. 0)"
      and run: "wrapM e (SendCoinsFromAccountToAccount a (tuTo t) (tuCoins t)) s1 = Ret r2 s2"
    then obtain f where l: "ledger s s1 f (\<lambda>_. 0)" by blast
    from run have "SendCoins a (tuTo t) (tuCoins t) s1 = Ret r2 s2"
      by (auto simp: SendCoinsFromAccountToAccount_def BlacklistedAddr_def IsContractAddress_def run_simps)
    from ledger_moved [OF send.effect [OF ledger_bankOK [OF l] this] ledger_bankOK [OF l]]
    show "\<exists>f. ledger s s2 f (\<lambda>_. 0)" using ledger_trans [OF l] by fastforce
  qed
  then show ?thesis .
qed

lemma refines_send:
  assumes "SendCoinsFromAccountToAccount a b c s = Ret r s'" "bankOK s" "storesWf s"
  shows "refinesStep a s s'"
proof -
  from assms(1) have "SendCoins a b c s = Ret r s'"
    by (auto simp: SendCoinsFromAccountToAccount_def BlacklistedAddr_def IsContractAddress_def run_simps)
  from ledger_moved [OF send.effect [OF assms(2) this] assms(2)] refines_ledger [OF _ assms(3)]
  show ?thesis by blast
qed

lemma handleMsgTransferOwnership_refines:
  assumes run: "handleMsgTransferOwnership msg s = Ret r s'"
    and ok: "bankOK s" "storesWf s" "toFromAddress msg \<noteq> []"
  shows "refinesStep (toFromAddress msg) s s'"
proof -
  let ?k = "toSymbol msg" and ?a = "toFromAddress msg"
  define t where "t = (case tokenStore s ?k of None \<Rightarrow> emptyToken | Some t \<Rightarrow> t)"
  define t' where "t' = t\<lparr>tkOwner := BlackHoleAddress\<rparr>"
  from run have t2: "tkOwner t = ?a"
    and exp: "(case confirmStore s ?k of None \<Rightarrow> False | Some c \<Rightarrow> \<not> blockTime s > coExpire c) = False"
    by (simp_all add: handleMsgTransferOwnership_def GetTokenInfo_def GetConfirmOwnership_def t_def run_simps)
  have "\<exists>s1 u n. s1 = (if toToAddress msg = BlackHoleAddress
       then s\<lparr>tokenStore := (tokenStore s)(tkSymbol t \<mapsto> t'), userTokens := u, tokenNumber := n\<rparr>
       else s\<lparr>confirmStore := (confirmStore s)(?k \<mapsto> \<lparr>coSymbol = ?k, coAddress = toToAddress msg,
         coExpire = blockTime s + OwnershipConfirmWindow (tokenParams s)\<rparr>)\<rparr>) \<and>
     deductFee FeeChown ?a s1 = Ret r s'"
    using run
    by (cases "toToAddress msg = BlackHoleAddress")
      (auto simp: handleMsgTransferOwnership_def GetTokenInfo_def GetConfirmOwnership_def t_def [symmetric]
        t'_def [symmetric] DeleteUserToken_def NewToken_def SetConfirmOwnership_def run_simps)
  then obtain s1 u n where 
    s1: "s1 = (if toToAddress msg = BlackHoleAddress
       then s\<lparr>tokenStore := (tokenStore s)(tkSymbol t \<mapsto> t'), userTokens := u, tokenNumber := n\<rparr>
       else s\<lparr>confirmStore := (confirmStore s)(?k \<mapsto> \<lparr>coSymbol = ?k, coAddress = toToAddress msg,
         coExpire = blockTime s + OwnershipConfirmWindow (tokenParams s)\<rparr>)\<rparr>)"
    and 2: "deductFee FeeChown ?a s1 = Ret r s'" by blast
  have tk: "tokenStore s ?k = Some t" by (rule owner_token [OF t_def t2 ok(3)])
  have own: "vOwner (tokenView s) ?k = Some ?a" using tk t2 by (simp add: tokenView_def)
  have pend: "\<forall>b e. vPending (tokenView s) ?k = Some (b, e) \<longrightarrow> e < blockTime s"
    using exp by (auto simp: tokenView_def split: option.splits)
  have bank: "bankOK s1" using ok(1) by (subst s1) simp
  have "refinesStep ?a s s1"
  proof (cases "toToAddress msg = BlackHoleAddress")
    case True
    with s1 have s1: "s1 = s\<lparr>tokenStore := (tokenStore s)(?k \<mapsto> t'), userTokens := u, tokenNumber := n\<rparr>"
      using storesWfD(1) [OF ok(2) tk] by simp
    have "tokenView s1 = (tokenView s)\<lparr>vOwner := (vOwner (tokenView s))(?k \<mapsto> BlackHoleAddress)\<rparr>"
      by (auto simp: s1 tokenView_def fun_eq_iff tk t'_def)
    moreover have "storesWf s1" using ok(2) tk storesWfD(1) [OF ok(2) tk] by (auto simp: s1 storesWf_def t'_def)
    ultimately show ?thesis using tokenStep.abandon [OF own pend] bank by (simp add: refinesStep_def)
  next
    case False
    with s1 have s1: "s1 = s\<lparr>confirmStore := (confirmStore s)(?k \<mapsto> \<lparr>coSymbol = ?k, coAddress = toToAddress msg,
         coExpire = blockTime s + OwnershipConfirmWindow (tokenParams s)\<rparr>)\<rparr>" by simp
    have "tokenView s1 = (tokenView s)\<lparr>vPending := (vPending (tokenView s))(?k \<mapsto>
        (toToAddress msg, blockTime s + OwnershipConfirmWindow (tokenParams s)))\<rparr>"
      by (simp add: s1 tokenView_def) (auto simp: fun_eq_iff)
    moreover have "storesWf s1" using ok(2) tk by (auto simp: storesWf_def s1)
    ultimately show ?thesis using tokenStep.offer [OF own pend] bank by (simp add: refinesStep_def)
  qed
  from refines_fee [OF this 2 bank] show ?thesis .
qed

lemma handleMsgConfirmOwnership_refines:
  assumes run: "handleMsgConfirmOwnership msg s = Ret r s'" and ok: "bankOK s" "storesWf s"
  shows "refinesStep (mcAddress msg) s s'"
proof -
  let ?k = "mcSymbol msg" and ?a = "mcAddress msg"
  from run obtain c where c: "confirmStore s ?k = Some c"
    by (auto simp: handleMsgConfirmOwnership_def GetConfirmOwnership_def run_simps split: option.splits)
  from storesWfD(3) [OF ok(2) c] obtain t where t: "tokenStore s ?k = Some t" by blast
  note keys = storesWfD(1) [OF ok(2) t] storesWfD(2) [OF ok(2) c]
  from run c t have e: "blockTime s \<le> coExpire c" "coAddress c = ?a"
    and s': "s' = s\<lparr>tokenStore := (tokenStore s)(?k \<mapsto> t\<lparr>tkOwner := ?a\<rparr>),
         userTokens := userTokens s', tokenNumber := tokenNumber s', confirmStore := (confirmStore s)(?k := None)\<rparr>"
    by (auto simp: handleMsgConfirmOwnership_def GetConfirmOwnership_def GetTokenInfo_def keys
        DeleteUserToken_def NewToken_def DeleteConfirmOwnership_def run_simps split: if_splits)
  have "tokenView s' = (tokenView s)\<lparr>vOwner := (vOwner (tokenView s))(?k \<mapsto> ?a),
      vPending := (vPending (tokenView s))(?k := None)\<rparr>"
    by (subst s') (auto simp: tokenView_def fun_eq_iff t)
  moreover have "vPending (tokenView s) ?k = Some (?a, coExpire c)" "vOwner (tokenView s) ?k = Some (tkOwner t)"
    using c e t by (simp_all add: tokenView_def)
  moreover have "storesWf s'" using ok(2) keys by (subst s') (auto simp: storesWf_def)
  moreover have "bankOK s'" using ok(1) by (subst s') simp
  ultimately show ?thesis
    using tokenStep.accept [of "tokenView s" ?k ?a "coExpire c" "blockTime s"] e(1)
    by (simp add: refinesStep_def)
qed

lemma handleMsgTokenModify_refines:
  assumes run: "handleMsgTokenModify msg s = Ret r s'"
    and ok: "bankOK s" "storesWf s" "tmOwner msg \<noteq> []"
  shows "refinesStep (tmOwner msg) s s'"
proof -
  let ?k = "tmSymbol msg"
  define t where "t = (case tokenStore s ?k of None \<Rightarrow> emptyToken | Some t \<Rightarrow> t)"
  define t1 where "t1 = (if tmIsWholeNameModified msg then t\<lparr>tkWholeName := tmWholeName msg\<rparr> else t)"
  define t2 where "t2 = (if tmIsDescriptionModified msg then t1\<lparr>tkDescription := tmDescription msg\<rparr> else t1)"
  have t2: "tkOwner t2 = tkOwner t" "tkMintable t2 = tkMintable t" "tkSymbol t2 = tkSymbol t"
    by (simp_all add: t1_def t2_def)
  from run have o: "tkOwner t = tmOwner msg"
    and 2: "deductFee FeeModify (tmOwner msg) (s\<lparr>tokenStore := (tokenStore s)(tkSymbol t2 \<mapsto> t2)\<rparr>) = Ret r s'"
    unfolding t2_def t1_def t_def
    by (simp_all add: handleMsgTokenModify_def GetTokenInfo_def UpdateToken_def Let_def run_simps)
  have tk: "tokenStore s ?k = Some t" by (rule owner_token [OF t_def o ok(3)])
  note key = storesWfD(1) [OF ok(2) tk]
  have "tokenView (s\<lparr>tokenStore := (tokenStore s)(tkSymbol t2 \<mapsto> t2)\<rparr>) = tokenView s"
    using tk t2 key by (auto simp: tokenView_def fun_eq_iff)
  then have "refinesStep (tmOwner msg) s (s\<lparr>tokenStore := (tokenStore s)(tkSymbol t2 \<mapsto> t2)\<rparr>)"
    using ok t2 key by (auto simp: refinesStep_def storesWf_def tokenStep.stutter)
  from refines_fee [OF this 2] ok(1) show ?thesis by simp
qed

lemma handleTokenMultiSend_refines:
  assumes "handleTokenMultiSend msg s = Ret r s'" "bankOK s" "storesWf s"
  shows "refinesStep a s s'"
proof -
  from assms(1) have "forM (msTransfers msg) (\<lambda>t.
        wrapM ErrSendCoinsFromAccountToAccountFailed
          (SendCoinsFromAccountToAccount (msFrom msg) (tuTo t) (tuCoins t))) s = Ret r s'"
    by (simp only: handleTokenMultiSend_def GetSendEnabled_def run_simps) blast
  from refines_sends [OF this assms(2,3)] refines_ledger [OF _ assms(3)] show ?thesis by blast
qed

lemma handleSend_refines:
  assumes "handleTokenSend msg s = Ret r s' \<or> handleWalletMsgSend msg s = Ret r s'" "bankOK s" "storesWf s"
  shows "refinesStep (FromAddress msg) s s'"
  using assms
  by (auto simp: handleTokenSend_def handleWalletMsgSend_def GetSendEnabled_def run_simps
      intro: refines_send)

lemma handler_refines:
  assumes "tokenHandler msg s = Ret r s'" "bankOK s" "storesWf s" "tokenSigner msg \<noteq> []"
  shows "refinesStep (tokenSigner msg) s s'"
  using assms
  by (cases msg)
    (auto simp: run_simps intro: handleMsgTokenIssue_refines handleMsgTokenMint_refines
      handleMsgTokenBurn_refines handleTokenMultiSend_refines handleSend_refines
      handleMsgTransferOwnership_refines handleMsgConfirmOwnership_refines handleMsgTokenModify_refines)

text \<open>Messages delivered one after the other, each at the time of its block.\<close>

fun deliverTokenMsgs :: "(int \<times> TokenMsg) list \<Rightarrow> 'x token_state_scheme \<Rightarrow> 'x token_state_scheme" where
  "deliverTokenMsgs [] s = s"
| "deliverTokenMsgs ((now, msg) # ms) s =
     deliverTokenMsgs ms (deliver (tokenHandler msg) (s\<lparr>blockTime := now\<rparr>))"

lemma blockTime_fields [simp]:
  "tokenView (s\<lparr>blockTime := now\<rparr>) = tokenView s" "storesWf (s\<lparr>blockTime := now\<rparr>) = storesWf s"
  "bankOK (s\<lparr>blockTime := now\<rparr>) = bankOK s"
  by (simp_all add: tokenView_def storesWf_def bankOK_def coinsOf_def fun_eq_iff supplyOf_def)

lemma deliver_refines:
  assumes "bankOK s" "storesWf s" "tokenSigner msg \<noteq> []"
  shows "refinesStep (tokenSigner msg) s (deliver (tokenHandler msg) s)"
  using assms handler_refines [of msg s]
  by (cases "tokenHandler msg s") (auto simp: refinesStep_def tokenStep.stutter)

text \<open>
  Properties of the specification carry over to the implementation: an invariant of the
  specification's steps at the allowed times and signers holds after every sequence of messages.
\<close>

lemma deliverTokenMsgs_invariant:
  assumes step: "\<And>now a v v'. P now v \<Longrightarrow> ok a \<Longrightarrow> tokenStep now a v v' \<Longrightarrow> P now v'"
    and mono: "\<And>now later v. P now v \<Longrightarrow> now \<le> later \<Longrightarrow> P later v"
    and signer: "\<And>a. ok a \<Longrightarrow> a \<noteq> []"
  shows "bankOK s \<Longrightarrow> storesWf s \<Longrightarrow> P now (tokenView s) \<Longrightarrow> sorted (now # map fst ms) \<Longrightarrow>
    (\<forall>m\<in>set ms. ok (tokenSigner (snd m))) \<Longrightarrow>
    P (last (now # map fst ms)) (tokenView (deliverTokenMsgs ms s))"
proof (induction ms s arbitrary: now rule: deliverTokenMsgs.induct)
  case (2 t msg ms s)
  let ?s = "s\<lparr>blockTime := t\<rparr>" and ?s' = "deliver (tokenHandler msg) (s\<lparr>blockTime := t\<rparr>)"
  have ok: "ok (tokenSigner msg)" using "2.prems" by simp
  have "refinesStep (tokenSigner msg) ?s ?s'"
    using "2.prems" signer [OF ok] by (intro deliver_refines) simp_all
  then have r: "tokenStep t (tokenSigner msg) (tokenView s) (tokenView ?s')" "bankOK ?s'" "storesWf ?s'"
    by (simp_all add: refinesStep_def)
  have "P t (tokenView s)" using mono "2.prems" by auto
  from "2.IH" [OF r(2,3) step [OF this ok r(1)]] "2.prems" show ?case by simp
qed simp

text \<open>The invariant of a token that was given to the black hole.\<close>

definition abandoned :: "string \<Rightarrow> Dec \<Rightarrow> int \<Rightarrow> token_view \<Rightarrow> bool" where
  "abandoned k x now v \<longleftrightarrow> vOwner v k = Some BlackHoleAddress \<and> vSupply v k = x \<and>
     (\<forall>b e. vPending v k = Some (b, e) \<longrightarrow> e < now)"

lemma abandoned_step:
  assumes "abandoned k x now v" "a \<noteq> BlackHoleAddress" "tokenStep now a v v'"
  shows "abandoned k x now v'"
  using assms(3) assms(1,2) by (cases rule: tokenStep.cases) (auto simp: abandoned_def)

lemma abandoned_mono: "abandoned k x now v \<Longrightarrow> now \<le> later \<Longrightarrow> abandoned k x later v"
  by (force simp: abandoned_def)

text \<open>The bound on the supply of issued tokens.\<close>

definition boundedSupply :: "token_view \<Rightarrow> bool" where
  "boundedSupply v \<longleftrightarrow> (\<forall>k. vSupply v k \<le> (if vOwner v k = None then 0 else NewDec TotalSupplyUpperbound))"

lemma boundedSupply_step:
  assumes "boundedSupply v" "tokenStep now a v v'"
  shows "boundedSupply v'"
  unfolding boundedSupply_def
proof
  fix j
  have "vSupply v j \<le> (if vOwner v j = None then 0 else NewDec TotalSupplyUpperbound)"
    using assms(1) by (simp add: boundedSupply_def)
  with assms(2) show "vSupply v' j \<le> (if vOwner v' j = None then 0 else NewDec TotalSupplyUpperbound)"
    by (cases rule: tokenStep.cases) (auto split: if_splits)
qed

section \<open>Properties\<close>

text \<open>
  C2. Every message of the token module, delivered to a state in which the module account holds
  exactly the locked coins and the supply equals the sum of the balances, leaves such a state behind,
  when its signer is not the token module's account.
\<close>

theorem tokenHandler_invariant:
  assumes "tokenInv s" "tokenEnv s" "tokenSigner msg \<noteq> moduleAddr s tokenModule"
  shows "tokenInv (deliver (tokenHandler msg) s) \<and> supplyInv (deliver (tokenHandler msg) s)"
proof -
  have good: "tokenGood (tokenSigner msg) s" using assms by (simp add: tokenGood_def)
  have "tokenGood (tokenSigner msg) (deliver (tokenHandler msg) s)"
    using good by (rule deliver_invariant) (rule tokenHandler_good [OF _ good])
  then show ?thesis by (simp add: tokenGood_def tokenInv_def heldLocked_def)
qed


text \<open>
  C3. The token module refines its specification: every message that succeeds is a step of
  \<^const>\<open>tokenStep\<close> for the signer at the time of the block (issuing a fresh symbol within the bound,
  minting or burning by the owner, offering a token to a new owner, giving it to the black hole,
  accepting an offer that has not expired, or nothing), and keeps the stores and the bank well formed.
\<close>

theorem tokenHandler_refines:
  assumes "bankOK s" "storesWf s" "tokenSigner msg \<noteq> []" "tokenHandler msg s = Ret r s'"
  shows "tokenStep (blockTime s) (tokenSigner msg) (tokenView s) (tokenView s') \<and> bankOK s' \<and> storesWf s'"
  using handler_refines [OF assms(4,1,2,3)] by (simp add: refinesStep_def)

text \<open>
  C11. A token given to the black hole address, with no offer still open, keeps its owner and its
  supply for ever: no sequence of messages at non-decreasing times, none signed by the black hole,
  mints it, burns it or changes its owner.
\<close>

theorem blackHole_final:
  assumes "bankOK s" "storesWf s" "tokenStore s k = Some t" "tkOwner t = BlackHoleAddress"
    "\<forall>c. confirmStore s k = Some c \<longrightarrow> coExpire c < now"
    "sorted (now # map fst ms)" "\<forall>m\<in>set ms. tokenSigner (snd m) \<notin> {[], BlackHoleAddress}"
  shows "map_option tkOwner (tokenStore (deliverTokenMsgs ms s) k) = Some BlackHoleAddress \<and>
    supplyOf (deliverTokenMsgs ms s) k = supplyOf s k"
proof -
  let ?P = "abandoned k (supplyOf s k)" and ?ok = "\<lambda>a. a \<notin> {[], BlackHoleAddress}"
  have 1: "?P now (tokenView s)"
    using assms(3-5) by (auto simp: abandoned_def tokenView_def)
  have 2: "?P now v \<Longrightarrow> ?ok a \<Longrightarrow> tokenStep now a v v' \<Longrightarrow> ?P now v'" for now a v v'
    by (rule abandoned_step [of k _ now v a v']) simp_all
  have 3: "?ok a \<Longrightarrow> a \<noteq> []" for a by simp
  have "?P (last (now # map fst ms)) (tokenView (deliverTokenMsgs ms s))"
    by (rule deliverTokenMsgs_invariant [of ?P ?ok, OF 2 abandoned_mono 3 assms(1,2) 1 assms(6,7)])
  then show ?thesis by (auto simp: abandoned_def tokenView_def)
qed

text \<open>
  C12. The supply of an issued token never exceeds the upper bound of ninety billion, through any
  sequence of messages of the token module.
\<close>

theorem supply_bounded:
  assumes "bankOK s" "storesWf s" "boundedSupply (tokenView s)"
    "sorted (now # map fst ms)" "\<forall>m\<in>set ms. tokenSigner (snd m) \<noteq> []"
  shows "supplyOf (deliverTokenMsgs ms s) k \<le> NewDec TotalSupplyUpperbound"
proof -
  from deliverTokenMsgs_invariant [of "\<lambda>_. boundedSupply" "\<lambda>a. a \<noteq> []",
      OF boundedSupply_step _ _ assms(1-5)]
  have "boundedSupply (tokenView (deliverTokenMsgs ms s))" by simp
  then have "supplyOf (deliverTokenMsgs ms s) k \<le> (if tokenStore (deliverTokenMsgs ms s) k = None then 0
      else NewDec TotalSupplyUpperbound)"
    unfolding boundedSupply_def by (drule_tac spec [of _ k]) (simp add: tokenView_def split: if_splits)
  moreover have "0 \<le> NewDec TotalSupplyUpperbound" by code_simp
  ultimately show ?thesis by (simp split: if_splits)
qed

text \<open>Witnesses.\<close>

definition exParams :: TokenParams where
  "exParams = \<lparr>FeeIssue = mkCoin ''okt'' 1, FeeMint = mkCoin ''okt'' 1, FeeBurn = mkCoin ''okt'' 1,
     FeeModify = mkCoin ''okt'' 1, FeeChown = mkCoin ''okt'' 1, OwnershipConfirmWindow = 10\<rparr>"

definition exTk :: "string \<Rightarrow> AccAddress \<Rightarrow> Token" where
  "exTk k a = \<lparr>tkDescription = [], tkSymbol = k, tkOriginalSymbol = ''abc'', tkWholeName = ''abc'',
     tkOriginalTotalSupply = 7, tkType = 0, tkOwner = a, tkMintable = True\<rparr>"

definition exToken :: "AccAddress \<Rightarrow> token_state" where
  "exToken a = \<lparr>accounts = [''alice'' \<mapsto> \<lparr>AccCoins = [mkCoin ''abc'' 7, mkCoin ''okt'' 5], AccModule = None\<rparr>],
     sendEnabled = True, blacklistedAddrs = (\<lambda>x. x = ''addr-token''),
     supplyStore = [''abc'' \<mapsto> 7, ''okt'' \<mapsto> 5],
     permAddrs = [''token'' \<mapsto> (''addr-token'', [''minter'', ''burner'']), ''fee'' \<mapsto> (''addr-fee'', [])],
     tokenStore = [''abc'' \<mapsto> exTk ''abc'' a, ''okt'' \<mapsto> exTk ''okt'' ''gov''], userTokens = (\<lambda>_ _. False), tokenNumber = 1,
     confirmStore = Map.empty, lockStore = Map.empty, lockFeeStore = Map.empty, tokenParams = exParams,
     feeCollectorName = ''fee'', contractAddrs = (\<lambda>_. False), blockTime = 0, txHashHex = ''ABCDEF''\<rparr>"

lemma exToken_wf:
  "bankOK (exToken a)" "storesWf (exToken a)" "tokenInv (exToken a)" "tokenEnv (exToken a)"
  "boundedSupply (tokenView (exToken a))"
proof -
  show ok: "bankOK (exToken a)"
    by (auto simp: bankOK_def exToken_def coinsOf_def accountCoins_def positiveCoins_def)
  show "storesWf (exToken a)" by (simp add: storesWf_def exToken_def exTk_def)
  have "supplyInv (exToken a)"
    using ok by (auto simp: supplyInv_def exToken_def supplyOf_def totalOf_def balance_def coinsOf_def accountCoins_def)
  then show "tokenInv (exToken a)"
    by (simp add: tokenInv_def heldLocked_def locksWf_def lockedTotal_def lockedIn_def balance_def
        coinsOf_def accountCoins_def exToken_def moduleAddr_def tokenModule_def)
  show "tokenEnv (exToken a)" by (simp add: tokenEnv_def exToken_def moduleAddr_def tokenModule_def)
  show "boundedSupply (tokenView (exToken a))"
    by (auto simp: boundedSupply_def tokenView_def exToken_def supplyOf_def 
        TotalSupplyUpperbound_def NewDec_def precisionReuse_def Precision_def)
qed

definition exMint :: MsgTokenMint where
  "exMint = \<lparr>taAmount = mkCoin ''abc'' 3, taOwner = ''alice''\<rparr>"

theorem tokenHandler_invariant_witness:
  "tokenInv (deliver (tokenHandler (TokenMintMsg exMint)) (exToken ''alice'')) \<and>
   supplyInv (deliver (tokenHandler (TokenMintMsg exMint)) (exToken ''alice''))"
  by (rule tokenHandler_invariant [OF exToken_wf(3,4)])
    (simp add: exMint_def exToken_def moduleAddr_def tokenModule_def)


theorem tokenHandler_refines_witness:
  "\<exists>s'. tokenHandler (TokenMintMsg exMint) (exToken ''alice'') = Ret () s' \<and>
    tokenStep 0 ''alice'' (tokenView (exToken ''alice'')) (tokenView s')"
proof -
  have "succeeds (tokenHandler (TokenMintMsg exMint) (exToken ''alice''))" by code_simp
  then obtain s' where s': "tokenHandler (TokenMintMsg exMint) (exToken ''alice'') = Ret () s'"
    by (auto elim: succeedsE)
  from tokenHandler_refines [OF exToken_wf(1,2) _ s'] s' show ?thesis
    by (simp add: exMint_def exToken_def)
qed

theorem blackHole_final_witness:
  "supplyOf (deliverTokenMsgs [(1, TokenMintMsg exMint), (4, TokenBurnMsg exMint)] (exToken BlackHoleAddress)) ''abc'' = 7"
proof -
  let ?ms = "[(1, TokenMintMsg exMint), (4, TokenBurnMsg exMint)]"
  have alice: "''alice'' \<noteq> BlackHoleAddress" by code_simp
  have "\<forall>m\<in>set ?ms. tokenSigner (snd m) \<notin> {[], BlackHoleAddress}"
    using alice by (simp add: exMint_def)
  with blackHole_final [OF exToken_wf(1,2), of "BlackHoleAddress" "''abc''" "exTk ''abc'' BlackHoleAddress" 0 ?ms]
  show ?thesis by (simp add: exToken_def exTk_def supplyOf_def)
qed

theorem supply_bounded_witness:
  "supplyOf (deliverTokenMsgs [(1, TokenMintMsg exMint)] (exToken ''alice'')) ''abc'' \<le> NewDec TotalSupplyUpperbound"
  by (rule supply_bounded [OF exToken_wf(1,2,5), of 0]) (simp_all add: exMint_def)

end
