(* ===== verification/OrderTypes.thy ===== *)
theory OrderTypes
  imports Coins "HOL-Library.Multiset"
begin

text \<open>
  The data of the order module: \<open>x/order/types\<close> (\<open>order.go\<close>, \<open>depth_book.go\<close>, \<open>product_lock.go\<close>,
  \<open>keys.go\<close>, \<open>const.go\<close>). An order's life (placing, filling, cancelling, expiring), its identifier,
  and the depth book, a list of price levels sorted by price from high to low that is searched with
  \<open>sort.Search\<close>. The field \<open>ExtraInfo\<close>, a JSON object of strings, is modelled as the map it encodes.
\<close>

section \<open>Definitions\<close>

text \<open>Go's \<open>sort.Search\<close> on the index range from \<open>i\<close> to \<open>j\<close>.\<close>

function sortSearch :: "(nat \<Rightarrow> bool) \<Rightarrow> nat \<Rightarrow> nat \<Rightarrow> nat" where
  "sortSearch f i j =
     (if i < j
      then let h = (i + j) div 2 in
        if \<not> f h then sortSearch f (h + 1) j else sortSearch f i h
      else i)"
  by pat_completeness auto
termination
  by (relation "measure (\<lambda>(f, i, j). j - i)") auto

declare sortSearch.simps [simp del]

text \<open>Indexing a slice panics out of range.\<close>

definition sliceAt :: "'a list \<Rightarrow> nat \<Rightarrow> 'a option" where
  "sliceAt xs i = (if i < length xs then Some (xs ! i) else None)"

subsection \<open>Orders\<close>

definition BuyOrder :: string where "BuyOrder = ''BUY''"
definition SellOrder :: string where "SellOrder = ''SELL''"

definition OrderStatusOpen :: int where "OrderStatusOpen = 0"
definition OrderStatusFilled :: int where "OrderStatusFilled = 1"
definition OrderStatusCancelled :: int where "OrderStatusCancelled = 2"
definition OrderStatusExpired :: int where "OrderStatusExpired = 3"
definition OrderStatusPartialFilledCancelled :: int where "OrderStatusPartialFilledCancelled = 4"
definition OrderStatusPartialFilledExpired :: int where "OrderStatusPartialFilledExpired = 5"

definition OrderStatusString :: "int \<Rightarrow> string" where
  "OrderStatusString p =
     (if p = OrderStatusOpen then ''Open''
      else if p = OrderStatusFilled then ''Filled''
      else if p = OrderStatusCancelled then ''Cancelled''
      else if p = OrderStatusExpired then ''Expired''
      else if p = OrderStatusPartialFilledCancelled then ''PartialFilledCancelled''
      else if p = OrderStatusPartialFilledExpired then ''PartialFilledExpired''
      else ''Unknown'')"

record Order =
  oTxHash :: string
  oOrderID :: string
  oSender :: string
  oProduct :: string
  oSide :: string
  oPrice :: Dec
  oQuantity :: Dec
  oStatus :: int
  oFilledAvgPrice :: Dec
  oRemainQuantity :: Dec
  oRemainLocked :: Dec
  oTimestamp :: int
  oOrderExpireBlocks :: int
  oFeePerBlock :: DecCoin
  oExtraInfo :: "string \<rightharpoonup> string"

text \<open>The unset average price is stored and read back as zero.\<close>

definition NewOrder ::
  "string \<Rightarrow> string \<Rightarrow> string \<Rightarrow> string \<Rightarrow> Dec \<Rightarrow> Dec \<Rightarrow> int \<Rightarrow> int \<Rightarrow> DecCoin \<Rightarrow> Order option" where
  "NewOrder txHash sender product side price quantity timestamp orderExpireBlocks feePerBlock = do {
     locked \<leftarrow> (if side = BuyOrder then DecMul price quantity else Some quantity);
     Some \<lparr>oTxHash = txHash, oOrderID = [], oSender = sender, oProduct = product, oSide = side,
       oPrice = price, oQuantity = quantity, oStatus = OrderStatusOpen, oFilledAvgPrice = 0,
       oRemainQuantity = quantity, oRemainLocked = locked, oTimestamp = timestamp,
       oOrderExpireBlocks = orderExpireBlocks, oFeePerBlock = feePerBlock, oExtraInfo = Map.empty\<rparr> }"

definition setExtraInfoWithKeyValue :: "string \<Rightarrow> string \<Rightarrow> Order \<Rightarrow> Order" where
  "setExtraInfoWithKeyValue key v order = order\<lparr>oExtraInfo := (oExtraInfo order)(key \<mapsto> v)\<rparr>"

definition GetExtraInfoWithKey :: "string \<Rightarrow> Order \<Rightarrow> string" where
  "GetExtraInfoWithKey key order = (case oExtraInfo order key of None \<Rightarrow> [] | Some v \<Rightarrow> v)"

definition RecordOrderNewFee :: "DecCoins \<Rightarrow> Order \<Rightarrow> Order" where
  "RecordOrderNewFee fee = setExtraInfoWithKeyValue ''newFee'' (coinsToString fee)"

definition RecordOrderCancelFee :: "DecCoins \<Rightarrow> Order \<Rightarrow> Order" where
  "RecordOrderCancelFee fee = setExtraInfoWithKeyValue ''cancelFee'' (coinsToString fee)"

definition recordOrderExpireFee :: "DecCoins \<Rightarrow> Order \<Rightarrow> Order" where
  "recordOrderExpireFee fee = setExtraInfoWithKeyValue ''expireFee'' (coinsToString fee)"

definition RecordOrderReceiveFee :: "DecCoins \<Rightarrow> Order \<Rightarrow> Order" where
  "RecordOrderReceiveFee fee = setExtraInfoWithKeyValue ''receiveFee'' (coinsToString fee)"

definition RecordOrderDealFee :: "DecCoins \<Rightarrow> Order \<Rightarrow> Order option" where
  "RecordOrderDealFee fee order =
     (let oldValue = GetExtraInfoWithKey ''dealFee'' order in
      if oldValue = [] then Some (setExtraInfoWithKeyValue ''dealFee'' (coinsToString fee) order)
      else do {
        r \<leftarrow> ParseDecCoins oldValue;
        (case r of
           Inl _ \<Rightarrow> Some order
         | Inr oldFee \<Rightarrow> do {
             newFee \<leftarrow> Add2 oldFee fee;
             Some (setExtraInfoWithKeyValue ''dealFee'' (coinsToString newFee) order) }) })"

definition OrderFill :: "Dec \<Rightarrow> Dec \<Rightarrow> Order \<Rightarrow> Order option" where
  "OrderFill price fillAmount order = do {
     done0 \<leftarrow> DecSub (oQuantity order) (oRemainQuantity order);
     filledSum \<leftarrow> DecMul (oFilledAvgPrice order) done0;
     paid \<leftarrow> DecMul price fillAmount;
     newFilledSum \<leftarrow> DecAdd filledSum paid;
     remain \<leftarrow> DecSub (oRemainQuantity order) fillAmount;
     done1 \<leftarrow> DecSub (oQuantity order) remain;
     avg \<leftarrow> DecQuo newFilledSum done1;
     locked \<leftarrow> (if oSide order = BuyOrder then DecSub (oRemainLocked order) paid
               else DecSub (oRemainLocked order) fillAmount);
     Some (order\<lparr>oRemainQuantity := remain, oFilledAvgPrice := avg, oRemainLocked := locked,
       oStatus := (if remain = 0 then OrderStatusFilled else oStatus order)\<rparr>) }"

definition OrderCancel :: "Order \<Rightarrow> Order" where
  "OrderCancel order = order\<lparr>oStatus :=
     (if oRemainQuantity order = oQuantity order then OrderStatusCancelled
      else OrderStatusPartialFilledCancelled)\<rparr>"

definition OrderExpire :: "Order \<Rightarrow> Order" where
  "OrderExpire order = order\<lparr>oStatus :=
     (if oRemainQuantity order = oQuantity order then OrderStatusExpired
      else OrderStatusPartialFilledExpired)\<rparr>"

definition NeedLockCoins :: "Order \<Rightarrow> DecCoins option" where
  "NeedLockCoins order =
     (if oSide order = BuyOrder then do {
        token \<leftarrow> sliceAt (splitOn (CHR ''_'') (oProduct order)) 1;
        amount \<leftarrow> DecMul (oPrice order) (oQuantity order);
        Some [mkCoin token amount] }
      else do {
        token \<leftarrow> sliceAt (splitOn (CHR ''_'') (oProduct order)) 0;
        Some [mkCoin token (oQuantity order)] })"

definition NeedUnlockCoins :: "Order \<Rightarrow> DecCoins option" where
  "NeedUnlockCoins order =
     (if oSide order = BuyOrder then do {
        token \<leftarrow> sliceAt (splitOn (CHR ''_'') (oProduct order)) 1;
        Some [mkCoin token (oRemainLocked order)] }
      else do {
        token \<leftarrow> sliceAt (splitOn (CHR ''_'') (oProduct order)) 0;
        Some [mkCoin token (oRemainLocked order)] })"

definition OrderUnlock :: "Order \<Rightarrow> Order" where
  "OrderUnlock order = order\<lparr>oRemainLocked := 0\<rparr>"

subsection \<open>Order identifiers\<close>

definition intText :: "int \<Rightarrow> string" where
  "intText i = (if i < 0 then CHR ''-'' # natText (nat (- i)) else natText (nat i))"

text \<open>The verb \<open>%010d\<close>; the sign counts for the width.\<close>

definition intText10 :: "int \<Rightarrow> string" where
  "intText10 i =
     (if i < 0 then CHR ''-'' # padLeft 9 (natText (nat (- i))) else padLeft 10 (natText (nat i)))"

definition FormatOrderID :: "int \<Rightarrow> int \<Rightarrow> string" where
  "FormatOrderID blockHeight orderNum =
     ''ID'' @ (if blockHeight > 9999999999 then intText blockHeight else intText10 blockHeight) @
     ''-'' @ intText orderNum"

definition FormatOrderIDPrefix :: "int \<Rightarrow> string" where
  "FormatOrderIDPrefix blockHeight =
     ''ID'' @ (if blockHeight > 9999999999 then intText blockHeight else intText10 blockHeight) @ ''-''"

text \<open>The verb \<open>%d\<close> of \<open>Sscanf\<close>: blanks, a sign, decimal digits; the value is an \<open>int64\<close>.\<close>

definition scanInt :: "string \<Rightarrow> (int \<times> string) option" where
  "scanInt s =
     (let t = dropWhile (\<lambda>c. isSpaceChar c \<and> c \<noteq> char_of (10 :: nat)) s;
          neg = (case t of [] \<Rightarrow> False | c # _ \<Rightarrow> c = CHR ''-'');
          u = (case t of [] \<Rightarrow> [] | c # cs \<Rightarrow> if c = CHR ''-'' \<or> c = CHR ''+'' then cs else t);
          ds = takeWhile isDigit u;
          v = (if neg then - int (digitsVal ds) else int (digitsVal ds)) in
      if ds = [] \<or> \<not> IsInt64 v then None else Some (v, dropWhile isDigit u))"

definition GetBlockHeightFromOrderID :: "string \<Rightarrow> int" where
  "GetBlockHeightFromOrderID orderID =
     (if \<not> hasPrefix ''ID'' orderID then 0
      else case scanInt (drop 2 orderID) of
        None \<Rightarrow> 0
      | Some (blockHeight, rest) \<Rightarrow>
          if \<not> hasPrefix ''-'' rest then 0
          else case scanInt (drop 1 rest) of None \<Rightarrow> 0 | Some _ \<Rightarrow> blockHeight)"

definition FormatOrderIDsKey :: "string \<Rightarrow> Dec \<Rightarrow> string \<Rightarrow> string" where
  "FormatOrderIDsKey product price side = product @ '':'' @ DecToString price @ '':'' @ side"

record ProductLock =
  plBlockHeight :: int
  plPrice :: Dec
  plQuantity :: Dec
  plBuyExecuted :: Dec
  plSellExecuted :: Dec

record Deal =
  dOrderID :: string
  dSide :: string
  dQuantity :: Dec
  dFee :: string
  dFeeReceiver :: string

record MatchResult =
  mrBlockHeight :: int
  mrPrice :: Dec
  mrQuantity :: Dec
  mrDeals :: "Deal list"

subsection \<open>The depth book\<close>

record DepthBookItem =
  iPrice :: Dec
  iBuyQuantity :: Dec
  iSellQuantity :: Dec

type_synonym DepthBook = "DepthBookItem list"

definition newItem :: "Order \<Rightarrow> DepthBookItem" where
  "newItem order = \<lparr>iPrice = oPrice order,
     iBuyQuantity = (if oSide order = BuyOrder then oRemainQuantity order else ZeroDec),
     iSellQuantity = (if oSide order = BuyOrder then ZeroDec else oRemainQuantity order)\<rparr>"

text \<open>The first index whose price does not exceed the order's.\<close>

definition searchPrice :: "Dec \<Rightarrow> DepthBook \<Rightarrow> nat" where
  "searchPrice price items = sortSearch (\<lambda>i. price \<ge> iPrice (items ! i)) 0 (length items)"

definition InsertOrder :: "Order \<Rightarrow> DepthBook \<Rightarrow> DepthBook option" where
  "InsertOrder order items =
     (if items = [] \<or> oPrice order < iPrice (items ! (length items - 1)) then Some (items @ [newItem order])
      else let index = searchPrice (oPrice order) items in do {
        item \<leftarrow> sliceAt items index;
        if oPrice order = iPrice item then
          if oSide order = BuyOrder then do {
            q \<leftarrow> DecAdd (iBuyQuantity item) (oRemainQuantity order);
            Some (items[index := item\<lparr>iBuyQuantity := q\<rparr>]) }
          else do {
            q \<leftarrow> DecAdd (iSellQuantity item) (oRemainQuantity order);
            Some (items[index := item\<lparr>iSellQuantity := q\<rparr>]) }
        else Some (take index items @ [newItem order] @ drop index items) })"

definition RemoveIfEmpty :: "nat \<Rightarrow> DepthBook \<Rightarrow> (DepthBook \<times> bool) option" where
  "RemoveIfEmpty index items = do {
     item \<leftarrow> sliceAt items index;
     if iBuyQuantity item = 0 \<and> iSellQuantity item = 0
     then Some (take index items @ drop (index + 1) items, True)
     else Some (items, False) }"

text \<open>\<open>Sub\<close> of the depth book.\<close>

definition bookSub :: "nat \<Rightarrow> Dec \<Rightarrow> string \<Rightarrow> DepthBook \<Rightarrow> DepthBook option" where
  "bookSub index num side items =
     (if side = BuyOrder then do {
        item \<leftarrow> sliceAt items index;
        q \<leftarrow> DecSub (iBuyQuantity item) num;
        Some (items[index := item\<lparr>iBuyQuantity := q\<rparr>]) }
      else if side = SellOrder then do {
        item \<leftarrow> sliceAt items index;
        q \<leftarrow> DecSub (iSellQuantity item) num;
        Some (items[index := item\<lparr>iSellQuantity := q\<rparr>]) }
      else Some items)"

definition RemoveOrder :: "Order \<Rightarrow> DepthBook \<Rightarrow> DepthBook option" where
  "RemoveOrder order items =
     (let index = searchPrice (oPrice order) items in
      if index < length items \<and> iPrice (items ! index) = oPrice order then do {
        items' \<leftarrow> bookSub index (oRemainQuantity order) (oSide order) items;
        (items'', _) \<leftarrow> RemoveIfEmpty index items';
        Some items'' }
      else Some items)"

section \<open>Binary search\<close>

lemma sortSearch_spec:
  assumes "i \<le> j" and mono: "\<And>a b. i \<le> a \<Longrightarrow> a \<le> b \<Longrightarrow> b < j \<Longrightarrow> f a \<Longrightarrow> f b"
  shows "i \<le> sortSearch f i j \<and> sortSearch f i j \<le> j \<and>
    (\<forall>k. i \<le> k \<longrightarrow> k < sortSearch f i j \<longrightarrow> \<not> f k) \<and> (\<forall>k. sortSearch f i j \<le> k \<longrightarrow> k < j \<longrightarrow> f k)"
  using assms
proof (induction f i j rule: sortSearch.induct)
  case (1 f i j)
  show ?case
  proof (cases "i < j")
    case False
    then have "sortSearch f i j = i" by (subst sortSearch.simps) simp
    with False "1.prems"(1) show ?thesis by simp
  next
    case True
    define h where "h = (i + j) div 2"
    have h: "i \<le> h" "h < j" using True by (auto simp: h_def)
    show ?thesis
    proof (cases "f h")
      case False
      have m: "f b" if "h + 1 \<le> a" "a \<le> b" "b < j" "f a" for a b
        using that h by (intro "1.prems"(2) [of a b]) simp_all
      have lt: "\<not> f k" if "i \<le> k" "k \<le> h" for k using "1.prems"(2) [of k h] that h False by blast
      have le: "h + 1 \<le> j" using h by simp
      have eq: "sortSearch f i j = sortSearch f (h + 1) j"
        using True False by (subst sortSearch.simps) (simp add: h_def [symmetric] Let_def)
      have IH: "h + 1 \<le> sortSearch f (h + 1) j \<and> sortSearch f (h + 1) j \<le> j \<and>
          (\<forall>k. h + 1 \<le> k \<longrightarrow> k < sortSearch f (h + 1) j \<longrightarrow> \<not> f k) \<and>
          (\<forall>k. sortSearch f (h + 1) j \<le> k \<longrightarrow> k < j \<longrightarrow> f k)"
        by (rule "1.IH"(1) [OF True h_def False le]) (rule m)
      have "\<not> f k" if "i \<le> k" "k < sortSearch f (h + 1) j" for k
        using lt [of k] IH that by (cases "k \<le> h") simp_all
      with IH h show ?thesis unfolding eq by auto
    next
      case fh: True
      have m: "f b" if "i \<le> a" "a \<le> b" "b < h" "f a" for a b
        using that h by (intro "1.prems"(2) [of a b]) simp_all
      have ge: "f k" if "h \<le> k" "k < j" for k using "1.prems"(2) [of h k] that h fh by blast
      have eq: "sortSearch f i j = sortSearch f i h"
        using True fh by (subst sortSearch.simps) (simp add: h_def [symmetric] Let_def)
      have nf: "\<not> \<not> f h" using fh by simp
      have IH: "i \<le> sortSearch f (i) h \<and> sortSearch f (i) h \<le> h \<and>
          (\<forall>k. i \<le> k \<longrightarrow> k < sortSearch f (i) h \<longrightarrow> \<not> f k) \<and>
          (\<forall>k. sortSearch f (i) h \<le> k \<longrightarrow> k < h \<longrightarrow> f k)"
        by (rule "1.IH"(2) [OF True h_def nf h(1)]) (rule m)
      have "f k" if "sortSearch f i h \<le> k" "k < j" for k
        using ge [of k] IH that by (cases "h \<le> k") simp_all
      with IH h show ?thesis unfolding eq by auto
    qed
  qed
qed

section \<open>The depth book\<close>

definition bookSorted :: "DepthBook \<Rightarrow> bool" where
  "bookSorted items \<longleftrightarrow> sorted_wrt (\<lambda>a b. iPrice b < iPrice a) items"

text \<open>What the book holds at a price.\<close>

definition buyAt :: "DepthBook \<Rightarrow> Dec \<Rightarrow> Dec" where
  "buyAt items p = (\<Sum>x\<leftarrow>items. if iPrice x = p then iBuyQuantity x else 0)"

definition sellAt :: "DepthBook \<Rightarrow> Dec \<Rightarrow> Dec" where
  "sellAt items p = (\<Sum>x\<leftarrow>items. if iPrice x = p then iSellQuantity x else 0)"

lemma at_simps [simp]:
  "buyAt [] p = 0" "sellAt [] p = 0"
  "buyAt (x # xs) p = (if iPrice x = p then iBuyQuantity x else 0) + buyAt xs p"
  "sellAt (x # xs) p = (if iPrice x = p then iSellQuantity x else 0) + sellAt xs p"
  "buyAt (xs @ ys) p = buyAt xs p + buyAt ys p"
  "sellAt (xs @ ys) p = sellAt xs p + sellAt ys p"
  by (simp_all add: buyAt_def sellAt_def)

lemma bookSorted_simps [simp]:
  "bookSorted []"
  "bookSorted (x # xs) \<longleftrightarrow> (\<forall>y\<in>set xs. iPrice y < iPrice x) \<and> bookSorted xs"
  "bookSorted (xs @ ys) \<longleftrightarrow> bookSorted xs \<and> bookSorted ys \<and> (\<forall>x\<in>set xs. \<forall>y\<in>set ys. iPrice y < iPrice x)"
  by (simp_all add: bookSorted_def sorted_wrt_append)

lemma bookSorted_nth: "bookSorted items \<Longrightarrow> i < j \<Longrightarrow> j < length items \<Longrightarrow> iPrice (items ! j) < iPrice (items ! i)"
  unfolding bookSorted_def by (drule (2) sorted_wrt_nth_less)

text \<open>The search splits a sorted book at the price.\<close>

lemma book_split:
  assumes "bookSorted items"
  obtains as bs where "items = as @ bs" "searchPrice p items = length as"
    "\<forall>x\<in>set as. p < iPrice x" "\<forall>x\<in>set bs. iPrice x \<le> p"
proof -
  let ?f = "\<lambda>i. p \<ge> iPrice (items ! i)" and ?k = "searchPrice p items"
  have mono: "?f b" if "a \<le> b" "b < length items" "?f a" for a b
    using bookSorted_nth [OF assms, of a b] that by (cases "a = b") auto
  have "0 \<le> ?k \<and> ?k \<le> length items \<and> (\<forall>i. 0 \<le> i \<longrightarrow> i < ?k \<longrightarrow> \<not> ?f i) \<and>
      (\<forall>i. ?k \<le> i \<longrightarrow> i < length items \<longrightarrow> ?f i)"
    unfolding searchPrice_def by (rule sortSearch_spec) (simp, rule mono)
  then have k: "?k \<le> length items" "\<forall>i<?k. \<not> ?f i" "\<forall>i. ?k \<le> i \<longrightarrow> i < length items \<longrightarrow> ?f i" by simp_all
  show thesis
  proof (rule that [of "take ?k items" "drop ?k items"])
    show "\<forall>x\<in>set (take ?k items). p < iPrice x" using k by (auto simp: in_set_conv_nth not_le)
    show "\<forall>x\<in>set (drop ?k items). iPrice x \<le> p" using k by (auto simp: in_set_conv_nth)
  qed (use k in auto)
qed

lemma split_search:
  assumes "bookSorted (as @ bs)" "\<forall>x\<in>set as. p < iPrice x" "\<forall>x\<in>set bs. iPrice x \<le> p"
  shows "searchPrice p (as @ bs) = length as"
proof -
  from assms(1) obtain cs ds where s: "as @ bs = cs @ ds" "searchPrice p (as @ bs) = length cs"
    "\<forall>x\<in>set cs. p < iPrice x" "\<forall>x\<in>set ds. iPrice x \<le> p" by (rule book_split)
  have tw: "takeWhile (\<lambda>x. p < iPrice x) (us @ vs) = us"
    if "\<forall>x\<in>set us. p < iPrice x" "\<forall>x\<in>set vs. iPrice x \<le> p" for us vs
    using that by (cases vs) (auto simp: takeWhile_append not_less)
  have "as = cs" using tw [OF assms(2,3)] tw [OF s(3,4)] s(1) by simp
  with s(2) show ?thesis by simp
qed

definition addToItem :: "Order \<Rightarrow> DepthBookItem \<Rightarrow> DepthBookItem option" where
  "addToItem order item =
     (if oSide order = BuyOrder
      then map_option (\<lambda>q. item\<lparr>iBuyQuantity := q\<rparr>) (DecAdd (iBuyQuantity item) (oRemainQuantity order))
      else map_option (\<lambda>q. item\<lparr>iSellQuantity := q\<rparr>) (DecAdd (iSellQuantity item) (oRemainQuantity order)))"

lemma bind_Some_map: "Option.bind x (\<lambda>q. Some (f q)) = map_option f x"
  by (cases x) simp_all

lemma InsertOrder_split:
  assumes "bookSorted (as @ bs)" "\<forall>x\<in>set as. oPrice order < iPrice x" "\<forall>x\<in>set bs. iPrice x \<le> oPrice order"
  shows "InsertOrder order (as @ bs) =
    (case bs of [] \<Rightarrow> Some (as @ [newItem order])
     | b # bs' \<Rightarrow> if iPrice b = oPrice order then map_option (\<lambda>b'. as @ b' # bs') (addToItem order b)
         else Some (as @ newItem order # bs))"
proof (cases bs)
  case Nil
  then have "as @ bs = [] \<or> oPrice order < iPrice ((as @ bs) ! (length (as @ bs) - 1))"
    using assms(2) by (cases as rule: rev_cases) auto
  with Nil show ?thesis by (simp add: InsertOrder_def)
next
  case (Cons b bs')
  have s: "searchPrice (oPrice order) (as @ bs) = length as" by (rule split_search [OF assms])
  have "(as @ bs) ! (length (as @ bs) - 1) = last bs" using Cons last_conv_nth [of "as @ bs"] by simp
  then have "(as @ bs) ! (length (as @ bs) - 1) \<in> set bs" using Cons by simp
  then have "\<not> (as @ bs = [] \<or> oPrice order < iPrice ((as @ bs) ! (length (as @ bs) - 1)))"
    using assms(3) Cons by force
  with s Cons show ?thesis
    by (simp add: InsertOrder_def Let_def sliceAt_def addToItem_def bind_Some_map option.map_comp comp_def)
qed

definition subFromItem :: "Order \<Rightarrow> DepthBookItem \<Rightarrow> DepthBookItem option" where
  "subFromItem order item =
     (if oSide order = BuyOrder
      then map_option (\<lambda>q. item\<lparr>iBuyQuantity := q\<rparr>) (DecSub (iBuyQuantity item) (oRemainQuantity order))
      else if oSide order = SellOrder
      then map_option (\<lambda>q. item\<lparr>iSellQuantity := q\<rparr>) (DecSub (iSellQuantity item) (oRemainQuantity order))
      else Some item)"

definition emptyItem :: "DepthBookItem \<Rightarrow> bool" where
  "emptyItem item \<longleftrightarrow> iBuyQuantity item = 0 \<and> iSellQuantity item = 0"

lemma RemoveOrder_split:
  assumes "bookSorted (as @ bs)" "\<forall>x\<in>set as. oPrice order < iPrice x" "\<forall>x\<in>set bs. iPrice x \<le> oPrice order"
  shows "RemoveOrder order (as @ bs) =
    (case bs of [] \<Rightarrow> Some as
     | b # bs' \<Rightarrow> if iPrice b = oPrice order
         then map_option (\<lambda>b'. if emptyItem b' then as @ bs' else as @ b' # bs') (subFromItem order b)
         else Some (as @ bs))"
proof (cases bs)
  case Nil
  have "searchPrice (oPrice order) (as @ bs) = length as" by (rule split_search [OF assms])
  with Nil show ?thesis by (simp add: RemoveOrder_def)
next
  case (Cons b bs')
  have s: "searchPrice (oPrice order) (as @ bs) = length as" by (rule split_search [OF assms])
  have sub: "bookSub (length as) (oRemainQuantity order) (oSide order) (as @ b # bs') =
      map_option (\<lambda>b'. as @ b' # bs') (subFromItem order b)"
    by (simp add: bookSub_def sliceAt_def subFromItem_def bind_Some_map option.map_comp comp_def)
  have rm: "RemoveIfEmpty (length as) (as @ b' # bs') =
      Some (if emptyItem b' then (as @ bs', True) else (as @ b' # bs', False))" for b'
    by (simp add: RemoveIfEmpty_def sliceAt_def emptyItem_def)
  from s Cons show ?thesis
    by (cases "subFromItem order b") (simp_all add: RemoveOrder_def Let_def sub rm)
qed

text \<open>A well-formed book: sorted, no negative quantity, no empty level.\<close>

definition bookOK :: "DepthBook \<Rightarrow> bool" where
  "bookOK items \<longleftrightarrow> bookSorted items \<and>
     (\<forall>x\<in>set items. 0 \<le> iBuyQuantity x \<and> 0 \<le> iSellQuantity x \<and> \<not> emptyItem x)"

lemma addToItem_Some:
  assumes "addToItem order b = Some b'"
  shows "iPrice b' = iPrice b \<and>
    iBuyQuantity b' = iBuyQuantity b + (if oSide order = BuyOrder then oRemainQuantity order else 0) \<and>
    iSellQuantity b' = iSellQuantity b + (if oSide order = BuyOrder then 0 else oRemainQuantity order)"
  using assms by (auto simp: addToItem_def split: if_splits)

lemma newItem_simps [simp]:
  "iPrice (newItem order) = oPrice order"
  "iBuyQuantity (newItem order) = (if oSide order = BuyOrder then oRemainQuantity order else 0)"
  "iSellQuantity (newItem order) = (if oSide order = BuyOrder then 0 else oRemainQuantity order)"
  by (simp_all add: newItem_def)

lemma at_absent:
  "(\<forall>x\<in>set xs. iPrice x \<noteq> p) \<Longrightarrow> buyAt xs p = 0"
  "(\<forall>x\<in>set xs. iPrice x \<noteq> p) \<Longrightarrow> sellAt xs p = 0"
  by (induction xs) auto

text \<open>The two ways an insertion goes.\<close>

lemma InsertOrder_cases:
  assumes srt: "bookSorted items" and run: "InsertOrder order items = Some items'"
  obtains (new) as bs where "items = as @ bs" "\<forall>x\<in>set as. oPrice order < iPrice x"
      "\<forall>x\<in>set bs. iPrice x < oPrice order" "items' = as @ newItem order # bs"
    | (old) as b bs b' where "items = as @ b # bs" "\<forall>x\<in>set as. oPrice order < iPrice x"
      "\<forall>x\<in>set bs. iPrice x < oPrice order" "iPrice b = oPrice order" "addToItem order b = Some b'"
      "items' = as @ b' # bs"
proof -
  from srt obtain as bs where s: "items = as @ bs" "\<forall>x\<in>set as. oPrice order < iPrice x"
    "\<forall>x\<in>set bs. iPrice x \<le> oPrice order" by (rule book_split)
  note eq = InsertOrder_split [OF srt [unfolded s(1)] s(2,3)]
  show thesis
  proof (cases bs)
    case Nil
    then show thesis using new [of as bs] s eq run by simp
  next
    case (Cons b cs)
    show thesis
    proof (cases "iPrice b = oPrice order")
      case True
      then obtain b' where "addToItem order b = Some b'" "items' = as @ b' # cs"
        using eq run s Cons by (cases "addToItem order b") auto
      then show thesis using old [of as b cs b'] True s Cons srt by simp
    next
      case False
      then have "iPrice b < oPrice order" using s Cons by simp
      then have "\<forall>x\<in>set bs. iPrice x < oPrice order" using srt s Cons by auto
      then show thesis using new [of as bs] False s eq run Cons by simp
    qed
  qed
qed

lemma InsertOrder_effect:
  assumes ok: "bookOK items" and q: "0 < oRemainQuantity order" and run: "InsertOrder order items = Some items'"
  shows "bookOK items' \<and>
    buyAt items' p = buyAt items p + (if oSide order = BuyOrder \<and> p = oPrice order then oRemainQuantity order else 0) \<and>
    sellAt items' p = sellAt items p + (if oSide order \<noteq> BuyOrder \<and> p = oPrice order then oRemainQuantity order else 0)"
proof -
  have "bookSorted items" using ok by (simp add: bookOK_def)
  from this run show ?thesis
  proof (cases rule: InsertOrder_cases)
    case new
    with ok q show ?thesis by (auto simp: bookOK_def emptyItem_def)
  next
    case old
    with addToItem_Some [OF old(5)] ok q show ?thesis by (auto simp: bookOK_def emptyItem_def)
  qed
qed

lemma InsertOrder_defined:
  assumes "bookSorted items" "\<bar>buyAt items (oPrice order) + oRemainQuantity order\<bar> < decLimit"
    "\<bar>sellAt items (oPrice order) + oRemainQuantity order\<bar> < decLimit"
  shows "\<exists>items'. InsertOrder order items = Some items'"
proof -
  from assms(1) obtain as bs where s: "items = as @ bs" "\<forall>x\<in>set as. oPrice order < iPrice x"
    "\<forall>x\<in>set bs. iPrice x \<le> oPrice order" by (rule book_split)
  note eq = InsertOrder_split [OF assms(1) [unfolded s(1)] s(2,3)]
  have as: "buyAt as (oPrice order) = 0" "sellAt as (oPrice order) = 0" using s(2) by (auto intro!: at_absent)
  show ?thesis
  proof (cases bs)
    case Nil
    with eq s(1) show ?thesis by simp
  next
    case (Cons b cs)
    show ?thesis
    proof (cases "iPrice b = oPrice order")
      case True
      then have "\<forall>x\<in>set cs. iPrice x \<noteq> oPrice order" using assms(1) s Cons by auto
      then have "buyAt items (oPrice order) = iBuyQuantity b" "sellAt items (oPrice order) = iSellQuantity b"
        using s(1) Cons as True at_absent [of cs] by simp_all
      then have "\<exists>b'. addToItem order b = Some b'" using assms(2,3) by (simp add: addToItem_def)
      with eq s(1) Cons True show ?thesis by auto
    qed (use eq s(1) Cons in simp)
  qed
qed

lemma RemoveOrder_effect:
  assumes ok: "bookOK items" and run: "RemoveOrder order items = Some items'"
    and side: "oSide order = BuyOrder \<or> oSide order = SellOrder"
    and q: "oSide order = BuyOrder \<longrightarrow> oRemainQuantity order \<le> buyAt items (oPrice order)"
      "oSide order = SellOrder \<longrightarrow> oRemainQuantity order \<le> sellAt items (oPrice order)"
      "0 < oRemainQuantity order"
  shows "bookOK items' \<and>
    buyAt items' p = buyAt items p - (if oSide order = BuyOrder \<and> p = oPrice order then oRemainQuantity order else 0) \<and>
    sellAt items' p = sellAt items p - (if oSide order = SellOrder \<and> p = oPrice order then oRemainQuantity order else 0)"
proof -
  have srt: "bookSorted items" using ok by (simp add: bookOK_def)
  then obtain as bs where s: "items = as @ bs" "\<forall>x\<in>set as. oPrice order < iPrice x"
    "\<forall>x\<in>set bs. iPrice x \<le> oPrice order" by (rule book_split)
  note eq = RemoveOrder_split [OF srt [unfolded s(1)] s(2,3)]
  have ne: "BuyOrder \<noteq> SellOrder" by (simp add: BuyOrder_def SellOrder_def)
  have as: "buyAt as (oPrice order) = 0" "sellAt as (oPrice order) = 0" using s(2) by (auto intro!: at_absent)
  obtain b cs where bs: "bs = b # cs"
    using q side s(1) as by (cases bs) auto
  have cs: "\<forall>x\<in>set cs. iPrice x \<noteq> oPrice order" using srt s bs by auto
  have b: "iPrice b = oPrice order"
  proof (rule ccontr)
    assume "iPrice b \<noteq> oPrice order"
    then have "buyAt items (oPrice order) = 0" "sellAt items (oPrice order) = 0"
      using s(1) bs as at_absent [OF cs] by simp_all
    with q side show False by auto
  qed
  have at: "buyAt items (oPrice order) = iBuyQuantity b" "sellAt items (oPrice order) = iSellQuantity b"
    using s(1) bs as b at_absent [OF cs] by simp_all
  from run eq s(1) bs b obtain b' where b': "subFromItem order b = Some b'"
    "items' = (if emptyItem b' then as @ cs else as @ b' # cs)"
    by (cases "subFromItem order b") auto
  have sub: "iPrice b' = iPrice b"
    "iBuyQuantity b' = iBuyQuantity b - (if oSide order = BuyOrder then oRemainQuantity order else 0)"
    "iSellQuantity b' = iSellQuantity b - (if oSide order = SellOrder then oRemainQuantity order else 0)"
    using b'(1) side ne by (auto simp: subFromItem_def split: if_splits)
  show ?thesis
  proof (cases "emptyItem b'")
    case True
    with sub b have "p = oPrice order \<Longrightarrow> buyAt items' p = 0" "p = oPrice order \<Longrightarrow> sellAt items' p = 0"
      using b'(2) as at_absent [OF cs] by simp_all
    with True sub b b'(2) ok s(1) bs at show ?thesis by (auto simp: bookOK_def emptyItem_def)
  next
    case False
    with sub b b'(2) ok s(1) bs at q show ?thesis by (auto simp: bookOK_def emptyItem_def)
  qed
qed

lemma sides_differ [simp]: "BuyOrder \<noteq> SellOrder" "SellOrder \<noteq> BuyOrder"
  by (simp_all add: BuyOrder_def SellOrder_def)

lemma Insert_Remove:
  assumes ok: "bookOK items" and q: "0 < oRemainQuantity order"
    and side: "oSide order = BuyOrder \<or> oSide order = SellOrder"
    and run: "InsertOrder order items = Some items'"
  shows "RemoveOrder order items' = Some items"
proof -
  have srt: "bookSorted items" using ok by (simp add: bookOK_def)
  have srt': "bookSorted items'" using InsertOrder_effect [OF ok q run] by (simp add: bookOK_def)
  from srt run show ?thesis
  proof (cases rule: InsertOrder_cases)
    case (new as bs)
    have "\<forall>x\<in>set (newItem order # bs). iPrice x \<le> oPrice order" using new(3) by auto
    note RemoveOrder_split [OF srt' [unfolded new(4)] new(2) this]
    moreover have "subFromItem order (newItem order) = Some (newItem order\<lparr>iBuyQuantity := 0, iSellQuantity := 0\<rparr>)"
      using side by (auto simp: subFromItem_def newItem_def DecSub_def checkDec_def)
    ultimately show ?thesis using new by (simp add: emptyItem_def)
  next
    case (old as b bs b')
    note b' = addToItem_Some [OF old(5)]
    have "\<forall>x\<in>set (b' # bs). iPrice x \<le> oPrice order" using old(3,4) b' by auto
    note RemoveOrder_split [OF srt' [unfolded old(6)] old(2) this]
    moreover have b: "0 \<le> iBuyQuantity b" "0 \<le> iSellQuantity b" "\<not> emptyItem b"
      using ok old(1) by (auto simp: bookOK_def)
    then have "subFromItem order b' = Some b"
      using side old(5) q by (auto simp: subFromItem_def addToItem_def)
    ultimately show ?thesis using old b b' by simp
  qed
qed

lemma sum_mset_nonneg_int: "(\<And>y. y \<in># ys \<Longrightarrow> 0 \<le> f y) \<Longrightarrow> 0 \<le> (\<Sum>y\<in>#ys. f y :: int)"
  by (induction ys) simp_all

text \<open>
  What the rest of the module needs of a book: a quantity per key that an insertion raises and a
  removal lowers by the amount of the order.
\<close>

locale order_book =
  fixes ins :: "'o \<Rightarrow> 'b \<Rightarrow> 'b option"
    and rem :: "'o \<Rightarrow> 'b \<Rightarrow> 'b option"
    and inv :: "'b \<Rightarrow> bool"
    and qty :: "'b \<Rightarrow> 'k \<Rightarrow> int"
    and key :: "'o \<Rightarrow> 'k"
    and amount :: "'o \<Rightarrow> int"
    and valid :: "'o \<Rightarrow> bool"
  assumes ins_law: "inv b \<Longrightarrow> valid x \<Longrightarrow> ins x b = Some b' \<Longrightarrow>
      inv b' \<and> qty b' k = qty b k + (if k = key x then amount x else 0)"
    and rem_law: "inv b \<Longrightarrow> valid x \<Longrightarrow> amount x \<le> qty b (key x) \<Longrightarrow> rem x b = Some b' \<Longrightarrow>
      inv b' \<and> qty b' k = qty b k - (if k = key x then amount x else 0)"
    and amount_pos: "valid x \<Longrightarrow> 0 < amount x"
begin

definition represents :: "'b \<Rightarrow> 'o multiset \<Rightarrow> bool" where
  "represents b xs \<longleftrightarrow> inv b \<and> (\<forall>x\<in>#xs. valid x) \<and>
     (\<forall>k. qty b k = (\<Sum>x\<in>#xs. if k = key x then amount x else 0))"

lemma represents_insert:
  "represents b xs \<Longrightarrow> valid x \<Longrightarrow> ins x b = Some b' \<Longrightarrow> represents b' (add_mset x xs)"
  using ins_law [of b x b'] by (auto simp: represents_def)

lemma represents_covers:
  assumes "represents b xs" "x \<in># xs"
  shows "amount x \<le> qty b (key x)"
proof -
  obtain ys where xs: "xs = add_mset x ys" using assms(2) by (rule mset_add)
  have "0 \<le> (\<Sum>y\<in>#ys. if key x = key y then amount y else 0)"
    using assms(1) xs by (intro sum_mset_nonneg_int) (auto simp: represents_def intro: less_imp_le amount_pos)
  with assms(1) xs show ?thesis by (simp add: represents_def)
qed

lemma represents_remove:
  assumes r: "represents b xs" and x: "x \<in># xs" and run: "rem x b = Some b'"
  shows "represents b' (xs - {#x#})"
proof -
  obtain ys where xs: "xs = add_mset x ys" using x by (rule mset_add)
  from r x have "inv b" "valid x" by (auto simp: represents_def)
  from rem_law [OF this represents_covers [OF r x] run] r xs show ?thesis
    by (simp add: represents_def)
qed

end

definition validOrder :: "Order \<Rightarrow> bool" where
  "validOrder order \<longleftrightarrow> 0 < oRemainQuantity order \<and> (oSide order = BuyOrder \<or> oSide order = SellOrder)"

definition bookQty :: "DepthBook \<Rightarrow> string \<times> Dec \<Rightarrow> Dec" where
  "bookQty items k = (if fst k = BuyOrder then buyAt items (snd k)
     else if fst k = SellOrder then sellAt items (snd k) else 0)"

definition orderKey :: "Order \<Rightarrow> string \<times> Dec" where
  "orderKey order = (oSide order, oPrice order)"

interpretation depth: order_book InsertOrder RemoveOrder bookOK bookQty orderKey oRemainQuantity validOrder
proof (unfold_locales, goal_cases)
  case (1 b x b' k)
  then show ?case
    using InsertOrder_effect [of b x b' "snd k"]
    by (cases k) (auto simp: validOrder_def bookQty_def orderKey_def)
next
  case (2 b x b' k)
  then show ?case
    using RemoveOrder_effect [of b x b' "snd k"]
    by (cases k) (auto simp: validOrder_def bookQty_def orderKey_def)
next
  case (3 x)
  then show ?case by (simp add: validOrder_def)
qed

text \<open>A sequence of placings and cancellations.\<close>

fun runBook :: "(bool \<times> Order) list \<Rightarrow> DepthBook \<Rightarrow> DepthBook option" where
  "runBook [] items = Some items"
| "runBook ((place, order) # ops) items = do {
     items' \<leftarrow> (if place then InsertOrder order items else RemoveOrder order items);
     runBook ops items' }"

text \<open>The orders left open, when only open orders are cancelled.\<close>

fun openOrders :: "(bool \<times> Order) list \<Rightarrow> Order multiset \<Rightarrow> Order multiset option" where
  "openOrders [] xs = Some xs"
| "openOrders ((place, order) # ops) xs =
     (if place then openOrders ops (add_mset order xs)
      else if order \<in># xs then openOrders ops (xs - {#order#}) else None)"

lemma runBook_represents:
  "depth.represents items xs \<Longrightarrow> (\<forall>op\<in>set ops. validOrder (snd op)) \<Longrightarrow>
   runBook ops items = Some items' \<Longrightarrow> openOrders ops xs = Some xs' \<Longrightarrow> depth.represents items' xs'"
proof (induction ops items arbitrary: xs rule: runBook.induct)
  case (2 place order ops items)
  from "2.prems"(3) obtain items1 where
    1: "(if place then InsertOrder order items else RemoveOrder order items) = Some items1"
    "runBook ops items1 = Some items'" by auto
  show ?case
  proof (cases place)
    case True
    with 1 "2.prems" "2.IH" [OF 1(1)] depth.represents_insert [of items xs order items1]
    show ?thesis by simp
  next
    case False
    with "2.prems"(4) have "order \<in># xs" by (simp split: if_splits)
    with False 1 "2.prems" "2.IH" [OF 1(1)] depth.represents_remove [of items xs order items1]
    show ?thesis by simp
  qed
qed simp

lemma runBook_empty: "depth.represents [] {#}"
  by (simp add: depth.represents_def bookOK_def bookQty_def)

section \<open>Properties\<close>

text \<open>
  C16. The depth book is the exact summary of the open orders: after any sequence of placings and
  cancellations that starts from the empty book and cancels only open orders, the book is sorted by
  falling price, has no empty level, and at every price holds on each side the total remaining
  quantity of the open orders there.
\<close>

theorem depthBook_represents:
  assumes "\<forall>op\<in>set ops. validOrder (snd op)" "runBook ops [] = Some items" "openOrders ops {#} = Some xs"
  shows "bookOK items \<and>
    buyAt items p = (\<Sum>x\<in>#xs. if oSide x = BuyOrder \<and> oPrice x = p then oRemainQuantity x else 0) \<and>
    sellAt items p = (\<Sum>x\<in>#xs. if oSide x = SellOrder \<and> oPrice x = p then oRemainQuantity x else 0)"
proof -
  have r: "depth.represents items xs" by (rule runBook_represents [OF runBook_empty assms])
  have "bookQty items (side, p) = (\<Sum>x\<in>#xs. if (side, p) = orderKey x then oRemainQuantity x else 0)" for side
    using r by (simp add: depth.represents_def)
  from this [of BuyOrder] this [of SellOrder] r show ?thesis
    by (simp add: depth.represents_def bookQty_def orderKey_def eq_commute)
qed

text \<open>
  C17. Removing an order from the book right after inserting it gives back the very same book.
\<close>

theorem InsertRemove_roundtrip:
  assumes "bookOK items" "validOrder order" "InsertOrder order items = Some items'"
  shows "bookOK items' \<and> RemoveOrder order items' = Some items"
  using assms Insert_Remove [of items order items'] InsertOrder_effect [of items order items']
  by (simp add: validOrder_def)

text \<open>Witnesses.\<close>

definition exOrder :: "string \<Rightarrow> string \<Rightarrow> Dec \<Rightarrow> Dec \<Rightarrow> Order" where
  "exOrder i side p q = \<lparr>oTxHash = [], oOrderID = i, oSender = ''alice'', oProduct = ''abc_okt'', oSide = side,
     oPrice = p, oQuantity = q, oStatus = 0, oFilledAvgPrice = 0, oRemainQuantity = q, oRemainLocked = q,
     oTimestamp = 0, oOrderExpireBlocks = 10, oFeePerBlock = mkCoin ''okt'' 0, oExtraInfo = Map.empty\<rparr>"

theorem depthBook_represents_witness:
  "buyAt [\<lparr>iPrice = 9, iBuyQuantity = 5, iSellQuantity = 0\<rparr>, \<lparr>iPrice = 7, iBuyQuantity = 0, iSellQuantity = 1\<rparr>] 9 = 5"
proof -
  let ?ops = "[(True, exOrder ''a'' ''BUY'' 9 2), (True, exOrder ''b'' ''SELL'' 7 1),
    (True, exOrder ''c'' ''BUY'' 9 5), (False, exOrder ''a'' ''BUY'' 9 2)]"
  have 1: "\<forall>op\<in>set ?ops. validOrder (snd op)"
    by (simp add: validOrder_def exOrder_def BuyOrder_def SellOrder_def)
  have 2: "runBook ?ops [] = Some [\<lparr>iPrice = 9, iBuyQuantity = 5, iSellQuantity = 0\<rparr>,
      \<lparr>iPrice = 7, iBuyQuantity = 0, iSellQuantity = 1\<rparr>]" by code_simp
  have 3: "openOrders ?ops {#} = Some {#exOrder ''b'' ''SELL'' 7 1, exOrder ''c'' ''BUY'' 9 5#}"
    by (simp add: add_mset_commute)
  from depthBook_represents [OF 1 2 3, of 9] show ?thesis
    by (simp add: exOrder_def BuyOrder_def SellOrder_def)
qed

theorem InsertRemove_roundtrip_witness:
  "RemoveOrder (exOrder ''c'' ''BUY'' 9 5) [\<lparr>iPrice = 9, iBuyQuantity = 6, iSellQuantity = 0\<rparr>] =
     Some [\<lparr>iPrice = 9, iBuyQuantity = 1, iSellQuantity = 0\<rparr>]"
proof -
  have "InsertOrder (exOrder ''c'' ''BUY'' 9 5) [\<lparr>iPrice = 9, iBuyQuantity = 1, iSellQuantity = 0\<rparr>] =
      Some [\<lparr>iPrice = 9, iBuyQuantity = 6, iSellQuantity = 0\<rparr>]" by code_simp
  from InsertRemove_roundtrip [OF _ _ this] show ?thesis
    by (simp add: bookOK_def emptyItem_def validOrder_def exOrder_def BuyOrder_def)
qed

section \<open>Order identifiers\<close>

text \<open>The digits of the block height in an identifier.\<close>

definition heightText :: "int \<Rightarrow> string" where
  "heightText h = (if h > 9999999999 then intText h else intText10 h)"

lemma heightText:
  assumes "0 \<le> h"
  shows "heightText h \<noteq> [] \<and> list_all isDigit (heightText h) \<and> int (digitsVal (heightText h)) = h"
  using assms natText_digits
  by (auto simp: heightText_def intText_def intText10_def padLeft_def list_all_iff)

lemma FormatOrderID_height:
  "FormatOrderID h n = ''ID'' @ heightText h @ ''-'' @ intText n"
  "FormatOrderIDPrefix h = ''ID'' @ heightText h @ ''-''"
  by (simp_all add: FormatOrderID_def FormatOrderIDPrefix_def heightText_def)

lemma isDigit_plain: "isDigit c \<Longrightarrow> \<not> isSpaceChar c \<and> c \<noteq> CHR ''-'' \<and> c \<noteq> CHR ''+''"
  by (auto simp: isDigit_def isSpaceChar_def)

lemma scanInt_digits:
  assumes "ds \<noteq> []" "list_all isDigit ds" "r = [] \<or> \<not> isDigit (hd r)" "int (digitsVal ds) < 2 ^ 63"
  shows "scanInt (ds @ r) = Some (int (digitsVal ds), r)"
proof -
  obtain c cs where ds: "ds = c # cs" using assms(1) by (cases ds) auto
  have c: "\<not> isSpaceChar c" "c \<noteq> CHR ''-''" "c \<noteq> CHR ''+''"
    using isDigit_plain assms(2) ds by auto
  have tw: "takeWhile isDigit (ds @ r) = ds" "dropWhile isDigit (ds @ r) = r"
    using assms(2,3) by (cases r; auto simp: list_all_iff takeWhile_append dropWhile_append)+
  have "IsInt64 (int (digitsVal ds))" using assms(4) by (simp add: IsInt64_def)
  with c tw assms(1) show ?thesis unfolding scanInt_def by (simp add: ds Let_def)
qed

lemma digits_cancel:
  assumes "list_all isDigit a" "list_all isDigit b" "a @ CHR ''-'' # r = b @ CHR ''-'' # r'"
  shows "a = b \<and> r = r'"
proof -
  have tw: "takeWhile isDigit (x @ CHR ''-'' # y) = x" if "list_all isDigit x" for x y
    using that by (auto simp: list_all_iff takeWhile_append isDigit_def)
  from arg_cong [OF assms(3), of "takeWhile isDigit"] have "a = b" using tw assms(1,2) by simp
  with assms(3) show ?thesis by simp
qed

text \<open>
  C19. The block height is recovered from an order's identifier, for every height and order number
  that fits in an \<open>int64\<close>; and the prefix by which expired orders are looked up matches exactly the
  identifiers of its own block, also where the fixed width of ten digits is exceeded.
\<close>

theorem FormatOrderID_height_roundtrip:
  assumes "0 \<le> h" "h < 2 ^ 63" "0 \<le> n" "n < 2 ^ 63"
  shows "GetBlockHeightFromOrderID (FormatOrderID h n) = h \<and>
    (\<forall>h'\<ge>0. hasPrefix (FormatOrderIDPrefix h') (FormatOrderID h n) \<longleftrightarrow> h' = h)"
proof -
  note H = heightText [OF assms(1)]
  have n: "intText n \<noteq> []" "list_all isDigit (intText n)" "int (digitsVal (intText n)) = n"
    using assms(3) natText_digits by (auto simp: intText_def list_all_iff)
  have d: "\<not> isDigit (CHR ''-'')" by (simp add: isDigit_def)
  have s1: "scanInt (heightText h @ CHR ''-'' # intText n) = Some (h, CHR ''-'' # intText n)"
    using scanInt_digits [of "heightText h" "CHR ''-'' # intText n"] H assms(2) d by simp
  have s2: "scanInt (intText n) = Some (n, [])"
    using scanInt_digits [of "intText n" "[]"] n assms(4) by simp
  have "GetBlockHeightFromOrderID (FormatOrderID h n) = h"
    by (simp add: GetBlockHeightFromOrderID_def FormatOrderID_height hasPrefix_def s1 s2)
  moreover have "hasPrefix (FormatOrderIDPrefix h') (FormatOrderID h n) \<longleftrightarrow> h' = h" if h': "0 \<le> h'" for h'
  proof
    assume "hasPrefix (FormatOrderIDPrefix h') (FormatOrderID h n)"
    then obtain r where "FormatOrderID h n = FormatOrderIDPrefix h' @ r"
      unfolding hasPrefix_def by (metis append_take_drop_id)
    then have "heightText h @ CHR ''-'' # intText n = heightText h' @ CHR ''-'' # r"
      by (simp add: FormatOrderID_height)
    then have "heightText h = heightText h'" using digits_cancel H heightText [OF h'] by blast
    with H heightText [OF h'] show "h' = h" by metis
  qed (simp add: hasPrefix_def FormatOrderID_height)
  ultimately show ?thesis by blast
qed

theorem FormatOrderID_height_roundtrip_witness:
  "GetBlockHeightFromOrderID (FormatOrderID 10000000000 7) = 10000000000"
  using FormatOrderID_height_roundtrip [of 10000000000 7] by simp

section \<open>Filling an order\<close>

text \<open>
  The invariant of an open order: the locked coins pay for what remains, exactly for a sell order
  and at the limit price for a buy order.
\<close>

definition orderOK :: "Order \<Rightarrow> bool" where
  "orderOK x \<longleftrightarrow> 0 \<le> oRemainQuantity x \<and> oRemainQuantity x \<le> oQuantity x \<and>
     (if oSide x = BuyOrder then oPrice x * oRemainQuantity x \<le> oRemainLocked x * precisionReuse
      else oRemainLocked x = oRemainQuantity x)"

lemma DecMul_exact:
  assumes "DecMul a b = Some c" "precisionReuse dvd a * b"
  shows "c * precisionReuse = a * b"
proof -
  obtain k where k: "a * b = k * precisionReuse" using assms(2) by (auto elim!: dvdE simp: mult.commute)
  from assms(1) have "c = chopPrecisionAndRound (a * b)" by (simp add: DecMul_Some)
  with k show ?thesis by simp
qed

lemma OrderFill_SomeE:
  assumes "OrderFill price am x = Some x'"
  obtains paid avg where "DecMul price am = Some paid"
    "x' = x\<lparr>oRemainQuantity := oRemainQuantity x - am, oFilledAvgPrice := avg,
      oRemainLocked := (if oSide x = BuyOrder then oRemainLocked x - paid else oRemainLocked x - am),
      oStatus := (if oRemainQuantity x - am = 0 then OrderStatusFilled else oStatus x)\<rparr>"
proof -
  from assms obtain paid locked avg where "DecMul price am = Some paid"
    "(if oSide x = BuyOrder then DecSub (oRemainLocked x) paid else DecSub (oRemainLocked x) am) = Some locked"
    "x' = x\<lparr>oRemainQuantity := oRemainQuantity x - am, oFilledAvgPrice := avg, oRemainLocked := locked,
      oStatus := (if oRemainQuantity x - am = 0 then OrderStatusFilled else oStatus x)\<rparr>"
    unfolding OrderFill_def option_bind_Some_iff DecSub_Some DecAdd_Some by blast
  then show thesis by (intro that [of paid avg]) (simp_all split: if_splits)
qed

text \<open>
  C18. Filling an order reduces the remaining quantity by the filled amount, closes it exactly when
  nothing remains, and keeps it backed by locked coins: a sell order's lock stays equal to what
  remains, and a buy order filled at a price not above its limit keeps at least the limit price of
  what remains, so the lock never becomes negative. The amount paid is taken to be representable
  without rounding, as the digits allowed for prices and quantities ensure.
\<close>

theorem OrderFill_backed:
  assumes "orderOK x" "0 < am" "am \<le> oRemainQuantity x" "OrderFill price am x = Some x'"
    "oSide x = BuyOrder \<longrightarrow> price \<le> oPrice x" "precisionReuse dvd price * am" "0 \<le> oPrice x"
  shows "orderOK x' \<and> 0 \<le> oRemainLocked x' \<and> oRemainQuantity x' = oRemainQuantity x - am \<and>
    (oStatus x = OrderStatusOpen \<longrightarrow> (oStatus x' = OrderStatusFilled \<longleftrightarrow> oRemainQuantity x' = 0))"
proof -
  from assms(4) obtain paid avg where paid: "DecMul price am = Some paid"
    and x': "x' = x\<lparr>oRemainQuantity := oRemainQuantity x - am, oFilledAvgPrice := avg,
      oRemainLocked := (if oSide x = BuyOrder then oRemainLocked x - paid else oRemainLocked x - am),
      oStatus := (if oRemainQuantity x - am = 0 then OrderStatusFilled else oStatus x)\<rparr>"
    by (rule OrderFill_SomeE)
  note ex = DecMul_exact [OF paid assms(6)]
  have "oPrice x * (oRemainQuantity x - am) \<le> (oRemainLocked x - paid) * precisionReuse" if b: "oSide x = BuyOrder"
  proof -
    have "price * am \<le> oPrice x * am" using assms(2,5) b by (intro mult_right_mono) auto
    moreover have "oPrice x * oRemainQuantity x \<le> oRemainLocked x * precisionReuse"
      using assms(1) b by (simp add: orderOK_def)
    ultimately show ?thesis using ex by (simp add: algebra_simps)
  qed
  then have ok: "orderOK x'" using assms(1-3) x' by (auto simp: orderOK_def)
  moreover have "0 \<le> oRemainLocked x'"
  proof (cases "oSide x' = BuyOrder")
    case True
    have "0 \<le> oPrice x' * oRemainQuantity x'" using assms(3,7) x' by simp
    also have "\<dots> \<le> oRemainLocked x' * precisionReuse" using ok True by (simp add: orderOK_def)
    finally show ?thesis using precisionReuse_pos by (auto simp: zero_le_mult_iff simp del: precisionReuse_pos)
  qed (use ok in \<open>simp add: orderOK_def\<close>)
  ultimately show ?thesis using x' by (auto simp: OrderStatusOpen_def OrderStatusFilled_def)
qed

theorem OrderFill_backed_witness:
  "\<exists>x'. OrderFill (NewDec 2) 3 (exOrder ''a'' ''SELL'' 1 5) = Some x' \<and> oRemainQuantity x' = 2 \<and> orderOK x'"
proof -
  have "OrderFill (NewDec 2) 3 (exOrder ''a'' ''SELL'' 1 5) \<noteq> None" by code_simp
  then obtain x' where x': "OrderFill (NewDec 2) 3 (exOrder ''a'' ''SELL'' 1 5) = Some x'" by auto
  have ok: "orderOK (exOrder ''a'' ''SELL'' 1 5)" by (simp add: orderOK_def exOrder_def BuyOrder_def)
  from OrderFill_backed [OF ok _ _ x'] x' show ?thesis
    by (simp add: exOrder_def BuyOrder_def NewDec_def)
qed

end
