(* ===== verification/Auction.thy ===== *)
theory Auction
  imports OrderTypes
begin

text \<open>
  The price of the periodic auction: \<open>x/order/match/periodicauction/match.go\<close>, from
  \<open>preMatchProcessing\<close> to \<open>periodicAuctionMatchPrice\<close>. The specification is the classical call
  auction: at a price, the demand is what buyers at that price or above want, the supply what
  sellers at that price or below offer, and the volume the smaller of the two.
\<close>

section \<open>Definitions\<close>

text \<open>The running sums of the loops of \<open>preMatchProcessing\<close>.\<close>

fun runningSum :: "Dec \<Rightarrow> Dec list \<Rightarrow> Dec list option" where
  "runningSum acc [] = Some []"
| "runningSum acc (x # xs) = do {
     s \<leftarrow> DecAdd acc x;
     r \<leftarrow> runningSum s xs;
     Some (s # r) }"

definition preMatchProcessing :: "DepthBook \<Rightarrow> (Dec list \<times> Dec list) option" where
  "preMatchProcessing items =
     (if items = [] then Some ([], [])
      else do {
        buys \<leftarrow> runningSum (iBuyQuantity (hd items)) (map iBuyQuantity (tl items));
        sells \<leftarrow> runningSum (iSellQuantity (last items)) (rev (map iSellQuantity (butlast items)));
        Some (iBuyQuantity (hd items) # buys, rev (iSellQuantity (last items) # sells)) })"

definition execRule0 :: "Dec list \<Rightarrow> Dec list \<Rightarrow> Dec \<times> Dec list" where
  "execRule0 buyAmountSum sellAmountSum =
     (let execution = map2 MinDec buyAmountSum sellAmountSum in
      (foldl (\<lambda>maxExecution e. MaxDec e maxExecution) ZeroDec execution, execution))"

definition execRule1 :: "Dec \<Rightarrow> Dec list \<Rightarrow> nat list" where
  "execRule1 maxExecution execution = filter (\<lambda>i. execution ! i = maxExecution) [0..<length execution]"

fun mapOption :: "('a \<Rightarrow> 'b option) \<Rightarrow> 'a list \<Rightarrow> 'b list option" where
  "mapOption f [] = Some []"
| "mapOption f (x # xs) = do { y \<leftarrow> f x; ys \<leftarrow> mapOption f xs; Some (y # ys) }"

definition execRule2 :: "Dec list \<Rightarrow> Dec list \<Rightarrow> nat list \<Rightarrow> (nat list \<times> Dec list) option" where
  "execRule2 buyAmountSum sellAmountSum indexesRule1 = do {
     imbalance \<leftarrow> mapOption (\<lambda>i. DecSub (buyAmountSum ! i) (sellAmountSum ! i)) indexesRule1;
     imbalance0 \<leftarrow> sliceAt imbalance 0;
     let minAbsImbalance = foldl (\<lambda>m x. MinDec m \<bar>x\<bar>) \<bar>imbalance0\<bar> (tl imbalance);
     Some (map fst (filter (\<lambda>(i, x). \<bar>x\<bar> = minAbsImbalance) (zip indexesRule1 imbalance)), imbalance) }"

text \<open>The price in the given range that is closest to the reference price; the range runs from high to low.\<close>

definition bestPriceFromRefPrice :: "Dec \<Rightarrow> Dec \<Rightarrow> Dec \<Rightarrow> Dec" where
  "bestPriceFromRefPrice minPrice maxPrice refPrice =
     (if minPrice \<le> refPrice then minPrice
      else if maxPrice \<ge> refPrice then maxPrice
      else refPrice)"

definition MustNewDecFromStr :: "string \<Rightarrow> Dec option" where
  "MustNewDecFromStr s = (case NewDecFromStr s of Inl _ \<Rightarrow> None | Inr d \<Rightarrow> Some d)"

definition execRule3 ::
  "DepthBook \<Rightarrow> nat \<Rightarrow> Dec \<Rightarrow> int \<Rightarrow> nat list \<Rightarrow> Dec list \<Rightarrow> Dec option" where
  "execRule3 items offset refPrice pricePrecision indexesRule2 imbalance = do {
     first \<leftarrow> sliceAt indexesRule2 0;
     let lst = last indexesRule2;
     imbFirst \<leftarrow> (if offset \<le> first then sliceAt imbalance (first - offset) else None);
     firstItem \<leftarrow> sliceAt items first;
     lastItem \<leftarrow> sliceAt items lst;
     if imbFirst > ZeroDec then do {
       rate \<leftarrow> MustNewDecFromStr ''1.05'';
       newRefPrice \<leftarrow> DecMul refPrice rate;
       newRefPrice \<leftarrow> RoundDecimal newRefPrice pricePrecision;
       Some (bestPriceFromRefPrice (iPrice firstItem) (iPrice lastItem) newRefPrice) }
     else do {
       imbLast \<leftarrow> (if offset \<le> lst then sliceAt imbalance (lst - offset) else None);
       if imbLast < ZeroDec then do {
         rate \<leftarrow> MustNewDecFromStr ''0.95'';
         newRefPrice \<leftarrow> DecMul refPrice rate;
         newRefPrice \<leftarrow> RoundDecimal newRefPrice pricePrecision;
         Some (bestPriceFromRefPrice (iPrice firstItem) (iPrice lastItem) newRefPrice) }
       else do {
         newRefPrice \<leftarrow> RoundDecimal refPrice pricePrecision;
         Some (bestPriceFromRefPrice (iPrice firstItem) (iPrice lastItem) newRefPrice) } } }"

definition periodicAuctionMatchPrice :: "DepthBook \<Rightarrow> int \<Rightarrow> Dec \<Rightarrow> (Dec \<times> Dec) option" where
  "periodicAuctionMatchPrice items pricePrecision refPrice = do {
     (buyAmountSum, sellAmountSum) \<leftarrow> preMatchProcessing items;
     if length buyAmountSum = 0 then Some (ZeroDec, ZeroDec)
     else let (maxExecution, execution) = execRule0 buyAmountSum sellAmountSum in
       if maxExecution = 0 then Some (refPrice, maxExecution)
       else let indexesRule1 = execRule1 maxExecution execution in
         if length indexesRule1 = 1 then do {
           item \<leftarrow> sliceAt items (indexesRule1 ! 0);
           Some (iPrice item, maxExecution) }
         else do {
           (indexesRule2, imbalance) \<leftarrow> execRule2 buyAmountSum sellAmountSum indexesRule1;
           if length indexesRule2 = 1 then do {
             item \<leftarrow> sliceAt items (indexesRule2 ! 0);
             Some (iPrice item, maxExecution) }
           else do {
             offset \<leftarrow> sliceAt indexesRule1 0;
             bestPrice \<leftarrow> execRule3 items offset refPrice pricePrecision indexesRule2 imbalance;
             Some (bestPrice, maxExecution) } } }"

section \<open>Demand, supply and volume\<close>

definition demand :: "DepthBook \<Rightarrow> Dec \<Rightarrow> Dec" where
  "demand items p = (\<Sum>x\<leftarrow>items. if p \<le> iPrice x then iBuyQuantity x else 0)"

definition offer :: "DepthBook \<Rightarrow> Dec \<Rightarrow> Dec" where
  "offer items p = (\<Sum>x\<leftarrow>items. if iPrice x \<le> p then iSellQuantity x else 0)"

definition volume :: "DepthBook \<Rightarrow> Dec \<Rightarrow> Dec" where
  "volume items p = min (demand items p) (offer items p)"

definition imbalanceAt :: "DepthBook \<Rightarrow> Dec \<Rightarrow> Dec" where
  "imbalanceAt items p = demand items p - offer items p"

lemma demand_simps [simp]:
  "demand [] p = 0" "demand (x # xs) p = (if p \<le> iPrice x then iBuyQuantity x else 0) + demand xs p"
  "demand (xs @ ys) p = demand xs p + demand ys p"
  "offer [] p = 0" "offer (x # xs) p = (if iPrice x \<le> p then iSellQuantity x else 0) + offer xs p"
  "offer (xs @ ys) p = offer xs p + offer ys p"
  by (simp_all add: demand_def offer_def)

definition nonneg :: "DepthBook \<Rightarrow> bool" where
  "nonneg items \<longleftrightarrow> (\<forall>x\<in>set items. 0 \<le> iBuyQuantity x \<and> 0 \<le> iSellQuantity x)"

lemma nonneg_simps [simp]:
  "nonneg []" "nonneg (x # xs) \<longleftrightarrow> 0 \<le> iBuyQuantity x \<and> 0 \<le> iSellQuantity x \<and> nonneg xs"
  by (auto simp: nonneg_def)

lemma demand_antimono: "nonneg items \<Longrightarrow> p \<le> q \<Longrightarrow> demand items q \<le> demand items p"
  by (induction items) auto

lemma offer_mono: "nonneg items \<Longrightarrow> p \<le> q \<Longrightarrow> offer items p \<le> offer items q"
  by (induction items) auto

lemma demand_nonneg: "nonneg items \<Longrightarrow> 0 \<le> demand items p" "nonneg items \<Longrightarrow> 0 \<le> offer items p"
  by (induction items) auto

lemma demand_zero: "(\<forall>x\<in>set items. iPrice x < p) \<Longrightarrow> demand items p = 0"
  by (induction items) auto

lemma demand_cong:
  "(\<And>x. x \<in> set items \<Longrightarrow> p \<le> iPrice x \<longleftrightarrow> q \<le> iPrice x) \<Longrightarrow> demand items p = demand items q"
  by (induction items) auto

text \<open>The volume at any price is reached at a level of the book.\<close>

lemma volume_at_level:
  assumes "nonneg items" "0 < volume items p"
  shows "\<exists>x\<in>set items. volume items p \<le> volume items (iPrice x)"
proof -
  let ?L = "{iPrice x | x. x \<in> set items \<and> p \<le> iPrice x}"
  have "0 < demand items p" using assms(2) by (simp add: volume_def)
  then have ne: "?L \<noteq> {}" using demand_zero [of items p] by (force simp: not_le)
  have fin: "finite ?L" by simp
  define q where "q = Min ?L"
  have q: "q \<in> ?L" "\<And>r. r \<in> ?L \<Longrightarrow> q \<le> r" using Min_in [OF fin ne] Min_le [OF fin] by (auto simp: q_def)
  then obtain x where x: "x \<in> set items" "q = iPrice x" "p \<le> q" by auto
  have "demand items p = demand items q"
    by (rule demand_cong) (use q(2) x(3) in force)
  moreover have "offer items p \<le> offer items q" by (rule offer_mono [OF assms(1) x(3)])
  ultimately have "volume items p \<le> volume items (iPrice x)" using x by (auto simp: volume_def min_def)
  with x show ?thesis by blast
qed

text \<open>Between two prices with the maximal volume the volume is maximal, and the imbalance is between theirs.\<close>

lemma volume_between:
  assumes "nonneg items" "lo \<le> p" "p \<le> hi" "volume items lo = m" "volume items hi = m"
    "volume items p \<le> m"
  shows "volume items p = m \<and> imbalanceAt items hi \<le> imbalanceAt items p \<and> imbalanceAt items p \<le> imbalanceAt items lo"
  using demand_antimono [OF assms(1,2)] demand_antimono [OF assms(1,3)] offer_mono [OF assms(1,2)]
    offer_mono [OF assms(1,3)] assms(4-6)
  by (auto simp: volume_def imbalanceAt_def)


section \<open>The running sums\<close>

lemma runningSum_Some:
  assumes "0 \<le> acc" "\<forall>x\<in>set xs. 0 \<le> x" "acc + sum_list xs < decLimit"
  shows "runningSum acc xs = Some (map (\<lambda>i. acc + sum_list (take (Suc i) xs)) [0..<length xs])"
  using assms
proof (induction xs arbitrary: acc)
  case (Cons x xs)
  have nn: "0 \<le> sum_list xs" using Cons.prems(2) by (intro sum_list_nonneg_int) auto
  have add: "DecAdd acc x = Some (acc + x)" using Cons.prems nn by simp
  have up: "[0..<Suc n] = 0 # map Suc [0..<n]" for n
    by (simp only: map_Suc_upt upt_conv_Cons zero_less_Suc)
  from Cons.IH [of "acc + x"] Cons.prems show ?case
    by (simp add: add up comp_def add.assoc del: upt_Suc)
qed simp

lemma demand_split: "demand items p = demand (take k items) p + demand (drop k items) p"
  "offer items p = offer (take k items) p + offer (drop k items) p"
  using demand_simps(3) [of "take k items" "drop k items" p] demand_simps(6) [of "take k items" "drop k items" p]
  by (simp_all del: demand_simps)

lemma demand_take:
  assumes "bookSorted items" "i < length items"
  shows "demand items (iPrice (items ! i)) = sum_list (map iBuyQuantity (take (Suc i) items))"
proof -
  have "iPrice (items ! i) \<le> iPrice x" if "x \<in> set (take (Suc i) items)" for x
  proof -
    obtain k where "k < Suc i" "x = items ! k" using \<open>x \<in> set (take (Suc i) items)\<close> assms(2)
      by (auto simp: in_set_conv_nth)
    with bookSorted_nth [OF assms(1), of k i] assms(2) show ?thesis by (cases "k = i") auto
  qed
  then have "demand (take (Suc i) items) (iPrice (items ! i)) = sum_list (map iBuyQuantity (take (Suc i) items))"
    unfolding demand_def by (intro arg_cong [where f = sum_list] map_cong) auto
  moreover have "iPrice x < iPrice (items ! i)" if "x \<in> set (drop (Suc i) items)" for x
    using that bookSorted_nth [OF assms(1)] by (auto simp: in_set_conv_nth)
  then have "demand (drop (Suc i) items) (iPrice (items ! i)) = 0" by (intro demand_zero) blast
  ultimately show ?thesis using demand_split(1) [of items "iPrice (items ! i)" "Suc i"] by simp
qed

lemma offer_zero: "(\<forall>x\<in>set items. p < iPrice x) \<Longrightarrow> offer items p = 0"
  by (induction items) auto

lemma offer_drop:
  assumes "bookSorted items" "i < length items"
  shows "offer items (iPrice (items ! i)) = sum_list (map iSellQuantity (drop i items))"
proof -
  have "iPrice x \<le> iPrice (items ! i)" if "x \<in> set (drop i items)" for x
  proof -
    obtain k where "k < length (drop i items)" "x = drop i items ! k" using \<open>x \<in> set (drop i items)\<close>
      by (metis in_set_conv_nth)
    then have "i + k < length items" "x = items ! (i + k)" using assms(2) by simp_all
    with bookSorted_nth [OF assms(1), of i "i + k"] show ?thesis by (cases "k = 0") auto
  qed
  then have "offer (drop i items) (iPrice (items ! i)) = sum_list (map iSellQuantity (drop i items))"
    unfolding offer_def by (intro arg_cong [where f = sum_list] map_cong) auto
  moreover have "iPrice (items ! i) < iPrice x" if "x \<in> set (take i items)" for x
    using that bookSorted_nth [OF assms(1)] assms(2) by (auto simp: in_set_conv_nth)
  then have "offer (take i items) (iPrice (items ! i)) = 0" by (intro offer_zero) blast
  ultimately show ?thesis using demand_split(2) [of items "iPrice (items ! i)" i] by simp
qed

text \<open>The sums computed by the code are the demand and the supply at the levels of the book.\<close>

lemma preMatchProcessing_Some:
  assumes srt: "bookSorted items" and nn: "nonneg items"
    and lim: "sum_list (map iBuyQuantity items) < decLimit" "sum_list (map iSellQuantity items) < decLimit"
  shows "preMatchProcessing items =
    Some (map (\<lambda>x. demand items (iPrice x)) items, map (\<lambda>x. offer items (iPrice x)) items)"
proof (cases items)
  case Nil
  then show ?thesis by (simp add: preMatchProcessing_def)
next
  case (Cons x xs)
  define ys y where "ys = butlast items" and "y = last items"
  have it: "items = ys @ [y]" using Cons by (simp add: ys_def y_def)
  have 1: "runningSum (iBuyQuantity x) (map iBuyQuantity xs) =
      Some (map (\<lambda>i. iBuyQuantity x + sum_list (take (Suc i) (map iBuyQuantity xs))) [0..<length xs])"
    using nn lim(1) Cons by (subst runningSum_Some) (auto simp: nonneg_def)
  have 2: "runningSum (iSellQuantity y) (rev (map iSellQuantity ys)) =
      Some (map (\<lambda>i. iSellQuantity y + sum_list (take (Suc i) (rev (map iSellQuantity ys)))) [0..<length ys])"
    using nn lim(2) it by (subst runningSum_Some) (auto simp: nonneg_def sum_list_rev)
  have b: "iBuyQuantity x # map (\<lambda>i. iBuyQuantity x + sum_list (take (Suc i) (map iBuyQuantity xs))) [0..<length xs] =
      map (\<lambda>x. demand items (iPrice x)) items" (is "?l = ?r")
  proof (rule nth_equalityI)
    fix i assume "i < length ?l"
    then have i: "i < length items" using Cons by simp
    show "?l ! i = ?r ! i"
      using demand_take [OF srt i] i Cons by (cases i) (simp_all add: take_map)
  qed (simp add: Cons)
  have s: "rev (iSellQuantity y # map (\<lambda>i. iSellQuantity y + sum_list (take (Suc i) (rev (map iSellQuantity ys)))) [0..<length ys]) =
      map (\<lambda>x. offer items (iPrice x)) items" (is "?l = ?r")
  proof (rule nth_equalityI)
    fix i assume "i < length ?l"
    then have i: "i < length items" using it by simp
    show "?l ! i = ?r ! i"
    proof (cases "i = length ys")
      case True
      then show ?thesis using offer_drop [OF srt i] it by (simp add: nth_append)
    next
      case False
      then have lt: "i < length ys" using i it by simp
      have "sum_list (take (Suc (length ys - Suc i)) (rev (map iSellQuantity ys))) = sum_list (map iSellQuantity (drop i ys))"
        using lt by (simp add: take_rev sum_list_rev drop_map Suc_diff_Suc)
      then show ?thesis
        using offer_drop [OF srt i] lt it by (simp add: nth_append rev_nth)
    qed
  qed (simp add: it)
  have hd: "hd items = x" "tl items = xs" "last items = y" "butlast items = ys" "items \<noteq> []"
    using Cons by (simp, simp, simp only: y_def, simp only: ys_def, simp)
  show ?thesis
    unfolding preMatchProcessing_def hd(1-4) 1 2 if_not_P [OF hd(5)] bind.bind_lunit b s ..
qed

section \<open>The rules\<close>

lemma foldl_max_props:
  fixes a :: int
  shows "a \<le> foldl (\<lambda>m e. max e m) a xs \<and> (\<forall>x\<in>set xs. x \<le> foldl (\<lambda>m e. max e m) a xs) \<and>
    foldl (\<lambda>m e. max e m) a xs \<in> insert a (set xs)"
proof (induction xs arbitrary: a)
  case (Cons x xs)
  from Cons.IH [of "max x a"] show ?case by (auto simp: max_def split: if_splits)
qed simp

lemma foldl_min_props:
  fixes a :: int
  shows "foldl (\<lambda>m x. min m \<bar>x\<bar>) a xs \<le> a \<and> (\<forall>x\<in>set xs. foldl (\<lambda>m x. min m \<bar>x\<bar>) a xs \<le> \<bar>x\<bar>) \<and>
    foldl (\<lambda>m x. min m \<bar>x\<bar>) a xs \<in> insert a (abs ` set xs)"
proof (induction xs arbitrary: a)
  case (Cons x xs)
  from Cons.IH [of "min a \<bar>x\<bar>"] show ?case by (auto simp: min_def split: if_splits)
qed simp

lemma execRule0_eq:
  obtains m where
    "execRule0 (map (\<lambda>x. demand items (iPrice x)) items) (map (\<lambda>x. offer items (iPrice x)) items) =
      (m, map (\<lambda>x. volume items (iPrice x)) items)"
    "0 \<le> m" "\<forall>x\<in>set items. volume items (iPrice x) \<le> m"
    "m = 0 \<or> (\<exists>x\<in>set items. volume items (iPrice x) = m)"
proof -
  have e: "map2 min (map (\<lambda>x. demand items (iPrice x)) items) (map (\<lambda>x. offer items (iPrice x)) items) =
      map (\<lambda>x. volume items (iPrice x)) items"
    by (rule nth_equalityI) (simp_all add: volume_def)
  note p = foldl_max_props [of 0 "map (\<lambda>x. volume items (iPrice x)) items"]
  show thesis
    by (rule that [of "foldl (\<lambda>m e. max e m) 0 (map (\<lambda>x. volume items (iPrice x)) items)"])
      (use p in \<open>auto simp: execRule0_def e Let_def\<close>)
qed

text \<open>A convex set of indices is an interval.\<close>

lemma filter_convex:
  assumes "\<And>i j k. i \<le> j \<Longrightarrow> j \<le> k \<Longrightarrow> k < n \<Longrightarrow> P i \<Longrightarrow> P k \<Longrightarrow> P j"
  shows "\<exists>a b. filter P [0..<n] = [a..<b] \<and> a \<le> b"
  using assms
proof (induction n)
  case (Suc n)
  have "\<exists>a b. filter P [0..<n] = [a..<b] \<and> a \<le> b"
  proof (rule Suc.IH)
    fix i j k assume "i \<le> j" "j \<le> k" "k < n" "P i" "P k"
    then show "P j" using Suc.prems [of i j k] by simp
  qed
  then obtain a b where ab: "filter P [0..<n] = [a..<b]" "a \<le> b" by blast
  show ?case
  proof (cases "P n")
    case False
    with ab show ?thesis by auto
  next
    case True
    show ?thesis
    proof (cases "a = b")
      case True
      with ab \<open>P n\<close> show ?thesis by (intro exI [of _ n] exI [of _ "Suc n"]) simp
    next
      case False
      then have "b - 1 \<in> set (filter P [0..<n])" using ab by simp
      then have b1: "P (b - 1)" "b - 1 < n" by simp_all
      have "b = n"
      proof (rule ccontr)
        assume "b \<noteq> n"
        then have "b < n" using b1 False ab by linarith
        moreover have "P b" by (rule Suc.prems [of "b - 1" b n]) (use b1 \<open>b < n\<close> \<open>P n\<close> in auto)
        ultimately have "b \<in> set (filter P [0..<n])" by simp
        with ab show False by simp
      qed
      with ab \<open>P n\<close> show ?thesis by (intro exI [of _ a] exI [of _ "Suc n"]) simp
    qed
  qed
qed (simp, intro exI [of _ "0 :: nat"], simp)

lemma mapOption_Some: "(\<And>x. x \<in> set xs \<Longrightarrow> f x = Some (g x)) \<Longrightarrow> mapOption f xs = Some (map g xs)"
  by (induction xs) simp_all

lemma filter_zip_map: "map fst (filter (\<lambda>(i, x). Q x) (zip xs (map g xs))) = filter (\<lambda>i. Q (g i)) xs"
  by (induction xs) simp_all

lemma execRule2_eq:
  assumes "is \<noteq> []" "\<And>i. i \<in> set is \<Longrightarrow> DecSub (bs ! i) (ss ! i) = Some (g i)" "sorted is"
  obtains js where "execRule2 bs ss is = Some (js, map g is)" "js \<noteq> []" "set js \<subseteq> set is" "sorted js"
    "\<forall>j\<in>set js. \<forall>i\<in>set is. \<bar>g j\<bar> \<le> \<bar>g i\<bar>"
proof -
  obtain i0 is' where i: "is = i0 # is'" using assms(1) by (cases "is") auto
  define m where "m = foldl (\<lambda>m x. MinDec m \<bar>x\<bar>) \<bar>g i0\<bar> (map g is')"
  have m: "m \<in> (\<lambda>i. \<bar>g i\<bar>) ` set is" "\<forall>i\<in>set is. m \<le> \<bar>g i\<bar>"
    using foldl_min_props [of "\<bar>g i0\<bar>" "map g is'"] by (auto simp: m_def i)
  have map: "mapOption (\<lambda>i. DecSub (bs ! i) (ss ! i)) is = Some (map g is)"
    by (rule mapOption_Some) (rule assms(2))
  have s0: "sliceAt (map g is) 0 = Some (g i0)" "tl (map g is) = map g is'" by (simp_all add: sliceAt_def i)
  have eq: "execRule2 bs ss is = Some (filter (\<lambda>i. \<bar>g i\<bar> = m) is, map g is)"
    unfolding execRule2_def map s0 bind.bind_lunit Let_def m_def [symmetric] filter_zip_map ..
  show thesis
    by (rule that [OF eq]) (use m sorted_filter [of "\<lambda>i. i" "is"] assms(3) in \<open>auto simp: filter_empty_conv\<close>)
qed

text \<open>The reference price scaled by the pressure of the market and rounded.\<close>

definition refDefined :: "Dec \<Rightarrow> int \<Rightarrow> bool" where
  "refDefined ref prec \<longleftrightarrow>
     (\<exists>r. RoundDecimal ref prec = Some r) \<and>
     (\<exists>a r. DecMul ref 1050000000000000000 = Some a \<and> RoundDecimal a prec = Some r) \<and>
     (\<exists>a r. DecMul ref 950000000000000000 = Some a \<and> RoundDecimal a prec = Some r)"

lemma sixteen: "replicate 16 c = [c, c, c, c, c, c, c, c, c, c, c, c, c, c, c, c]"
  by (simp add: numeral_eq_Suc)

lemma rates: "MustNewDecFromStr ''1.05'' = Some 1050000000000000000" "MustNewDecFromStr ''0.95'' = Some 950000000000000000"
  by (simp_all add: MustNewDecFromStr_def NewDecFromStr_def Let_def decimalPoint_def combineDec_def SetString_def
      SetUnsigned_def isDigit_def digitsVal_def digitVal_def Precision_def sixteen intLimit_def)
lemma bestPrice_range: "lo \<le> hi \<Longrightarrow> lo \<le> bestPriceFromRefPrice hi lo r \<and> bestPriceFromRefPrice hi lo r \<le> hi"
  by (auto simp: bestPriceFromRefPrice_def)

lemma execRule3_range:
  assumes js: "js \<noteq> []" "\<forall>j\<in>set js. a \<le> j \<and> j < b" "b \<le> length items" and ref: "refDefined ref prec"
    and le: "iPrice (items ! last js) \<le> iPrice (items ! hd js)"
  obtains bp where "execRule3 items a ref prec js (map g [a..<b]) = Some bp"
    "iPrice (items ! last js) \<le> bp" "bp \<le> iPrice (items ! hd js)"
proof -
  have h: "a \<le> hd js" "hd js < b" "a \<le> last js" "last js < b" using js by auto
  have at: "sliceAt (map g [a..<b]) (j - a) = Some (g j)" if "a \<le> j" "j < b" for j
    using that by (simp add: sliceAt_def)
  have it: "sliceAt items j = Some (items ! j)" if "j < b" for j
    using that js(3) by (simp add: sliceAt_def)
  have j0: "sliceAt js 0 = Some (hd js)" using js(1) by (simp add: sliceAt_def hd_conv_nth)
  obtain r0 a1 r1 a2 r2 where ref': "RoundDecimal ref prec = Some r0"
    "DecMul ref 1050000000000000000 = Some a1" "RoundDecimal a1 prec = Some r1"
    "DecMul ref 950000000000000000 = Some a2" "RoundDecimal a2 prec = Some r2"
    using ref by (auto simp: refDefined_def)
  have "execRule3 items a ref prec js (map g [a..<b]) =
      Some (bestPriceFromRefPrice (iPrice (items ! hd js)) (iPrice (items ! last js))
        (if g (hd js) > 0 then r1 else if g (last js) < 0 then r2 else r0))"
    unfolding execRule3_def j0 Let_def by (simp add: h at it rates ref')
  with bestPrice_range [OF le] that show thesis by blast
qed

text \<open>What the code computes, in terms of the specification.\<close>

definition auctionOutcome :: "DepthBook \<Rightarrow> Dec \<Rightarrow> Dec \<Rightarrow> Dec \<Rightarrow> bool" where
  "auctionOutcome items ref bp m \<longleftrightarrow>
     (\<forall>p. volume items p \<le> m) \<and> 0 \<le> m \<and>
     (if m = 0 then bp = (if items = [] then 0 else ref)
      else volume items bp = m \<and>
        (\<forall>x\<in>set items. volume items (iPrice x) = m \<longrightarrow> \<bar>imbalanceAt items bp\<bar> \<le> \<bar>imbalanceAt items (iPrice x)\<bar>) \<and>
        (\<exists>x\<in>set items. \<exists>y\<in>set items. iPrice x \<le> bp \<and> bp \<le> iPrice y))"

lemma max_everywhere:
  assumes "nonneg items" "\<forall>x\<in>set items. volume items (iPrice x) \<le> m" "0 \<le> m"
  shows "volume items p \<le> m"
  using volume_at_level [OF assms(1), of p] assms(2,3) by (cases "0 < volume items p") force+

lemma outcomeI:
  assumes nn: "nonneg items" and max: "\<forall>x\<in>set items. volume items (iPrice x) \<le> m" and m: "0 < m"
    and x: "x \<in> set items" "y \<in> set items" "iPrice x \<le> bp" "bp \<le> iPrice y"
      "volume items (iPrice x) = m" "volume items (iPrice y) = m"
    and imb: "\<forall>z\<in>set items. volume items (iPrice z) = m \<longrightarrow>
      \<bar>imbalanceAt items (iPrice x)\<bar> \<le> \<bar>imbalanceAt items (iPrice z)\<bar> \<and>
      \<bar>imbalanceAt items (iPrice y)\<bar> \<le> \<bar>imbalanceAt items (iPrice z)\<bar>"
  shows "auctionOutcome items ref bp m"
proof -
  have le: "volume items p \<le> m" for p using max_everywhere [OF nn max] m by simp
  note b = volume_between [OF nn x(3,4,5,6) le]
  have "\<bar>imbalanceAt items bp\<bar> \<le> \<bar>imbalanceAt items (iPrice z)\<bar>"
    if "z \<in> set items" "volume items (iPrice z) = m" for z
    using b imb that by fastforce
  with b x m le show ?thesis unfolding auctionOutcome_def by auto
qed

lemma levels_le:
  assumes "bookSorted items" "i \<le> j" "j < length items"
  shows "iPrice (items ! j) \<le> iPrice (items ! i)"
  using bookSorted_nth [OF assms(1), of i j] assms(2,3) by (cases "i = j") auto

lemma sorted_hd_last: "sorted (js :: nat list) \<Longrightarrow> js \<noteq> [] \<Longrightarrow> hd js \<le> last js"
  by (cases js) auto

lemma total_bounds:
  assumes "nonneg items"
  shows "demand items p \<le> sum_list (map iBuyQuantity items)" "offer items p \<le> sum_list (map iSellQuantity items)"
  using assms by (induction items) auto

text \<open>The levels with the maximal volume, and those among them with the least imbalance.\<close>

lemma execRule1_levels:
  assumes srt: "bookSorted items" and nn: "nonneg items" and m: "0 < m"
    and max: "\<forall>x\<in>set items. volume items (iPrice x) \<le> m" "\<exists>x\<in>set items. volume items (iPrice x) = m"
  obtains a b where "execRule1 m (map (\<lambda>x. volume items (iPrice x)) items) = [a..<b]" "a < b" "b \<le> length items"
    "\<And>i. i < length items \<Longrightarrow> volume items (iPrice (items ! i)) = m \<longleftrightarrow> a \<le> i \<and> i < b"
proof -
  let ?P = "\<lambda>i. volume items (iPrice (items ! i)) = m" and ?n = "length items"
  have eq: "execRule1 m (map (\<lambda>x. volume items (iPrice x)) items) = filter ?P [0..<?n]"
    unfolding execRule1_def by (rule filter_cong) simp_all
  have conv: "?P j" if "i \<le> j" "j \<le> k" "k < ?n" "?P i" "?P k" for i j k
  proof -
    have "volume items (iPrice (items ! j)) \<le> m" using max(1) that by simp
    from volume_between [OF nn levels_le [OF srt that(2,3)] levels_le [OF srt that(1)] that(5,4) this] that
    show ?thesis by simp
  qed
  have "\<exists>a b. filter ?P [0..<?n] = [a..<b] \<and> a \<le> b"
    by (rule filter_convex) (rule conv)
  then obtain a b where ab: "filter ?P [0..<?n] = [a..<b]" "a \<le> b" by blast
  have set: "{i. i < ?n \<and> ?P i} = {a..<b}" using arg_cong [OF ab(1), of set] by auto
  obtain i where "i < ?n" "?P i" using max(2) by (auto simp: in_set_conv_nth)
  then have i: "i \<in> {a..<b}" using set by blast
  then have "b - 1 \<in> {i. i < ?n \<and> ?P i}" unfolding set by auto
  then have b: "b \<le> ?n" by auto
  have mem: "?P j \<longleftrightarrow> a \<le> j \<and> j < b" if "j < ?n" for j
  proof -
    have "j \<in> {i. i < ?n \<and> ?P i} \<longleftrightarrow> j \<in> {a..<b}" by (simp only: set)
    with that show ?thesis by simp
  qed
  have "a < b" using i by simp
  from that [OF trans [OF eq ab(1)] this b mem] show thesis .
qed

lemma levels_outcome:
  assumes nn: "nonneg items" and m: "0 < m" "\<forall>x\<in>set items. volume items (iPrice x) \<le> m"
    and b: "b \<le> length items"
    and lev: "\<forall>i<length items. volume items (iPrice (items ! i)) = m \<longleftrightarrow> a \<le> i \<and> i < b"
    and ij: "i \<in> set [a..<b]" "j \<in> set [a..<b]" "iPrice (items ! j) \<le> bp" "bp \<le> iPrice (items ! i)"
    and least: "\<forall>k\<in>set [a..<b]. \<bar>imbalanceAt items (iPrice (items ! i))\<bar> \<le> \<bar>imbalanceAt items (iPrice (items ! k))\<bar> \<and>
      \<bar>imbalanceAt items (iPrice (items ! j))\<bar> \<le> \<bar>imbalanceAt items (iPrice (items ! k))\<bar>"
  shows "auctionOutcome items ref bp m"
proof (rule outcomeI [OF nn m(2,1)])
  show "items ! j \<in> set items" "items ! i \<in> set items" using ij(1,2) b by auto
  show "iPrice (items ! j) \<le> bp" "bp \<le> iPrice (items ! i)" by (rule ij(3), rule ij(4))
  show "volume items (iPrice (items ! j)) = m" "volume items (iPrice (items ! i)) = m"
    using lev ij(1,2) b by auto
  show "\<forall>z\<in>set items. volume items (iPrice z) = m \<longrightarrow>
      \<bar>imbalanceAt items (iPrice (items ! j))\<bar> \<le> \<bar>imbalanceAt items (iPrice z)\<bar> \<and>
      \<bar>imbalanceAt items (iPrice (items ! i))\<bar> \<le> \<bar>imbalanceAt items (iPrice z)\<bar>"
  proof (intro ballI impI)
    fix z assume "z \<in> set items" and v: "volume items (iPrice z) = m"
    then obtain k where k: "k < length items" "z = items ! k" by (auto simp: in_set_conv_nth)
    from lev [rule_format, OF k(1)] v k(2) have "k \<in> set [a..<b]" by simp
    with least k(2) show "\<bar>imbalanceAt items (iPrice (items ! j))\<bar> \<le> \<bar>imbalanceAt items (iPrice z)\<bar> \<and>
        \<bar>imbalanceAt items (iPrice (items ! i))\<bar> \<le> \<bar>imbalanceAt items (iPrice z)\<bar>" by blast
  qed
qed

lemma auction_result:
  assumes ok: "bookOK items" and ref: "refDefined ref prec"
    and lim: "sum_list (map iBuyQuantity items) < decLimit" "sum_list (map iSellQuantity items) < decLimit"
  obtains bp m where "periodicAuctionMatchPrice items prec ref = Some (bp, m)" "auctionOutcome items ref bp m"
proof -
  have srt: "bookSorted items" and nn: "nonneg items" using ok by (auto simp: bookOK_def nonneg_def)
  note pre = preMatchProcessing_Some [OF srt nn lim]
  obtain m where r0: "execRule0 (map (\<lambda>x. demand items (iPrice x)) items) (map (\<lambda>x. offer items (iPrice x)) items) =
      (m, map (\<lambda>x. volume items (iPrice x)) items)"
    and m: "0 \<le> m" "\<forall>x\<in>set items. volume items (iPrice x) \<le> m"
      "m = 0 \<or> (\<exists>x\<in>set items. volume items (iPrice x) = m)" by (rule execRule0_eq)
  consider "items = []" | "items \<noteq> []" "m = 0" | "items \<noteq> []" "0 < m" using m(1) by fastforce
  then show thesis
  proof cases
    case 1
    show thesis
      by (rule that [of 0 0]) (simp_all add: 1 periodicAuctionMatchPrice_def preMatchProcessing_def
          auctionOutcome_def volume_def)
  next
    case 2
    have "periodicAuctionMatchPrice items prec ref = Some (ref, 0)"
      using 2 by (simp add: periodicAuctionMatchPrice_def pre r0)
    moreover have "auctionOutcome items ref ref 0"
      using max_everywhere [OF nn m(2,1)] 2 by (simp add: auctionOutcome_def)
    ultimately show thesis by (rule that)
  next
    case 3
    have ex: "\<exists>x\<in>set items. volume items (iPrice x) = m" using m(3) 3 by auto
    obtain a b where ab: "execRule1 m (map (\<lambda>x. volume items (iPrice x)) items) = [a..<b]" "a < b" "b \<le> length items"
      "\<And>i. i < length items \<Longrightarrow> volume items (iPrice (items ! i)) = m \<longleftrightarrow> a \<le> i \<and> i < b"
      using execRule1_levels [OF srt nn 3(2) m(2) ex] by blast
    let ?g = "\<lambda>i. imbalanceAt items (iPrice (items ! i))"
    have sub: "DecSub (map (\<lambda>x. demand items (iPrice x)) items ! i) (map (\<lambda>x. offer items (iPrice x)) items ! i) = Some (?g i)"
      if "i \<in> set [a..<b]" for i
      using that ab(3) total_bounds [OF nn, of "iPrice (items ! i)"] demand_nonneg [OF nn, of "iPrice (items ! i)"] lim
      by (auto simp: imbalanceAt_def)
    have "\<forall>i<length items. volume items (iPrice (items ! i)) = m \<longleftrightarrow> a \<le> i \<and> i < b" using ab(4) by blast
    note out = levels_outcome [OF nn 3(2) m(2) ab(3) this]
    have step: "periodicAuctionMatchPrice items prec ref =
        (if length [a..<b] = 1 then do { item \<leftarrow> sliceAt items ([a..<b] ! 0); Some (iPrice item, m) }
         else do {
           (js, imb) \<leftarrow> execRule2 (map (\<lambda>x. demand items (iPrice x)) items) (map (\<lambda>x. offer items (iPrice x)) items) [a..<b];
           if length js = 1 then do { item \<leftarrow> sliceAt items (js ! 0); Some (iPrice item, m) }
           else do {
             offset \<leftarrow> sliceAt [a..<b] 0;
             bp \<leftarrow> execRule3 items offset ref prec js imb;
             Some (bp, m) } })"
      using 3 unfolding periodicAuctionMatchPrice_def pre bind.bind_lunit prod.case r0 Let_def ab(1) by simp
    have s0: "sliceAt [a..<b] 0 = Some a" using ab(2) by (simp add: sliceAt_def)
    have item: "sliceAt items i = Some (items ! i)" if "i \<in> set [a..<b]" for i
      using that ab(3) by (simp add: sliceAt_def)
    show thesis
    proof (cases "length [a..<b] = 1")
      case True
      then have b: "[a..<b] = [a]" using ab(2) by (simp add: upt_conv_Cons)
      show thesis
      proof (rule that [OF _ out [of a a]])
        show "periodicAuctionMatchPrice items prec ref = Some (iPrice (items ! a), m)"
          using step item [of a] b by simp
      qed (simp_all add: b)
    next
      case False
      obtain js where js: "execRule2 (map (\<lambda>x. demand items (iPrice x)) items) (map (\<lambda>x. offer items (iPrice x)) items)
          [a..<b] = Some (js, map ?g [a..<b])" "js \<noteq> []" "set js \<subseteq> set [a..<b]" "sorted js"
        "\<forall>j\<in>set js. \<forall>i\<in>set [a..<b]. \<bar>?g j\<bar> \<le> \<bar>?g i\<bar>"
        by (rule execRule2_eq [of "[a..<b]", OF _ sub]) (use ab(2) in auto)
      have hl: "hd js \<in> set js" "last js \<in> set js" using js(2) by auto
      then have hl': "hd js \<in> set [a..<b]" "last js \<in> set [a..<b]" using js(3) by blast+
      have least: "\<forall>k\<in>set [a..<b]. \<bar>?g (hd js)\<bar> \<le> \<bar>?g k\<bar> \<and> \<bar>?g (last js)\<bar> \<le> \<bar>?g k\<bar>"
        using js(5) hl by blast
      have le: "iPrice (items ! last js) \<le> iPrice (items ! hd js)"
        using sorted_hd_last [OF js(4,2)] hl' ab(3) by (intro levels_le [OF srt]) auto
      note step' = step [unfolded js(1) bind.bind_lunit prod.case s0]
      show thesis
      proof (cases "length js = 1")
        case True
        then have j0: "js ! 0 = hd js" "last js = hd js" by (cases js; simp)+
        have "periodicAuctionMatchPrice items prec ref = Some (iPrice (items ! hd js), m)"
          using step' False True item [OF hl'(1)] j0 by simp
        then show thesis
          by (rule that) (rule out [OF hl'(1) hl'(2) _ _ least], simp_all add: j0)
      next
        case nj: False
        have "\<forall>j\<in>set js. a \<le> j \<and> j < b" using js(3) by auto
        then obtain bp where "execRule3 items a ref prec js (map ?g [a..<b]) = Some bp"
          "iPrice (items ! last js) \<le> bp" "bp \<le> iPrice (items ! hd js)"
          using execRule3_range [OF js(2) _ ab(3) ref le] by blast
        then show thesis
          using that [of bp m] step' False nj out [OF hl' _ _ least, of bp] by simp
      qed
    qed
  qed
qed

lemma RoundDecimal_defined:
  assumes "0 \<le> d" "d < 2 ^ 192" "0 \<le> prec" "prec \<le> 18"
  shows "\<exists>r. RoundDecimal d prec = Some r"
proof -
  define m where "m = (10 :: int) ^ nat prec"
  have m: "1 \<le> m" "m \<le> 10 ^ 18"
    using assms(3,4) power_increasing [of "nat prec" 18 "10 :: int"] by (auto simp: m_def)
  have "d * m \<le> 2 ^ 192 * 10 ^ 18" using assms(1,2) m by (intro mult_mono) auto
  also have "\<dots> \<le> 2 ^ 252 * precisionReuse" by (simp add: precisionReuse_val)
  finally have dm: "d * m \<le> 2 ^ 252 * precisionReuse" .
  have lim: "\<bar>d * m\<bar> < decLimit"
    using dm assms(1) m by (simp add: precisionReuse_val decLimit_def abs_mult)
  have "chopPrecisionAndRound (d * m) \<le> chopPrecisionAndRound (2 ^ 252 * precisionReuse)"
    using dm by (rule chopPrecisionAndRound_mono)
  also have "\<dots> = 2 ^ 252" by (rule chopPrecisionAndRound_exact)
  finally have c: "chopPrecisionAndRound (d * m) \<le> 2 ^ 252" .
  have "0 \<le> chopPrecisionAndRound (d * m)" using assms(1) m by (intro chopPrecisionAndRound_nonneg) auto
  with c have "\<bar>chopPrecisionAndRound (d * m)\<bar> < intLimit" by (simp add: intLimit_def)
  moreover have "\<bar>m\<bar> < intLimit" using m by (simp add: intLimit_def)
  ultimately show ?thesis
    using assms(3) lim m by (simp add: RoundDecimal_def m_def [symmetric] RoundInt_def)
qed

lemma DecMul_rate:
  assumes "0 \<le> ref" "ref < 2 ^ 190" "0 \<le> rate" "rate \<le> 2 * precisionReuse"
  shows "\<exists>r. DecMul ref rate = Some r \<and> 0 \<le> r \<and> r < 2 ^ 192"
proof -
  have "ref * rate \<le> 2 ^ 190 * (2 * precisionReuse)" using assms by (intro mult_mono) auto
  then have "ref * rate \<le> 2 ^ 191 * precisionReuse" by simp
  then have "chopPrecisionAndRound (ref * rate) \<le> chopPrecisionAndRound (2 ^ 191 * precisionReuse)"
    by (rule chopPrecisionAndRound_mono)
  also have "\<dots> = 2 ^ 191" by (rule chopPrecisionAndRound_exact)
  finally have c: "chopPrecisionAndRound (ref * rate) \<le> 2 ^ 191" .
  moreover have "0 \<le> chopPrecisionAndRound (ref * rate)"
    using assms by (intro chopPrecisionAndRound_nonneg) auto
  ultimately show ?thesis by (simp add: DecMul_Some decLimit_def)
qed

lemma refDefined_bounds:
  assumes "0 \<le> ref" "ref < 2 ^ 190" "0 \<le> prec" "prec \<le> 18"
  shows "refDefined ref prec"
proof -
  from DecMul_rate [OF assms(1,2), of 1050000000000000000] obtain a where
    a: "DecMul ref 1050000000000000000 = Some a" "0 \<le> a" "a < 2 ^ 192" by (auto simp: precisionReuse_val)
  from DecMul_rate [OF assms(1,2), of 950000000000000000] obtain b where
    b: "DecMul ref 950000000000000000 = Some b" "0 \<le> b" "b < 2 ^ 192" by (auto simp: precisionReuse_val)
  have "ref < 2 ^ 192" using assms(2) by simp
  with a b RoundDecimal_defined [OF _ _ assms(3,4)] assms(1) show ?thesis unfolding refDefined_def by blast
qed

section \<open>Properties\<close>


definition exBook :: DepthBook where
  "exBook = [\<lparr>iPrice = NewDec 12, iBuyQuantity = 4, iSellQuantity = 0\<rparr>,
     \<lparr>iPrice = NewDec 11, iBuyQuantity = 3, iSellQuantity = 2\<rparr>,
     \<lparr>iPrice = NewDec 10, iBuyQuantity = 0, iSellQuantity = 5\<rparr>]"


end
