(* ===== verification/KVStore.thy ===== *)
theory KVStore
  imports Prelude
begin

text \<open>
  The key-value store interface \<open>types.KVStore\<close> of \<open>libs/cosmos-sdk/store/types\<close>. A Go interface
  value is a record of its methods; keys and values are byte slices (a nil bound of an iterator is
  \<^term>\<open>None\<close>). The reference store is an association list sorted by key, and the locale
  \<open>kv_store\<close> states what every implementation promises relative to it: the IAVL tree, the cache
  store and the gas-metered store are interpretations.
\<close>

section \<open>Definitions\<close>

type_synonym bytes = string

definition IsKeyInDomain :: "bytes \<Rightarrow> bytes option \<Rightarrow> bytes option \<Rightarrow> bool" where
  "IsKeyInDomain key start end =
     (if key < (case start of None \<Rightarrow> [] | Some b \<Rightarrow> b) then False
      else if (case end of None \<Rightarrow> False | Some e \<Rightarrow> e \<le> key) then False
      else True)"

subsection \<open>The reference store\<close>

fun kvSet :: "bytes \<Rightarrow> 'v \<Rightarrow> (bytes \<times> 'v) list \<Rightarrow> (bytes \<times> 'v) list" where
  "kvSet k v [] = [(k, v)]"
| "kvSet k v ((a, b) # ps) =
     (if k < a then (k, v) # (a, b) # ps
      else if k = a then (k, v) # ps
      else (a, b) # kvSet k v ps)"

definition kvDelete :: "bytes \<Rightarrow> (bytes \<times> 'v) list \<Rightarrow> (bytes \<times> 'v) list" where
  "kvDelete k ps = filter (\<lambda>p. fst p \<noteq> k) ps"

definition kvRange ::
  "bytes option \<Rightarrow> bytes option \<Rightarrow> bool \<Rightarrow> (bytes \<times> 'v) list \<Rightarrow> (bytes \<times> 'v) list" where
  "kvRange start end ascending ps =
     (let r = filter (\<lambda>p. IsKeyInDomain (fst p) start end) ps in if ascending then r else rev r)"

definition kvOK :: "(bytes \<times> 'v) list \<Rightarrow> bool" where
  "kvOK ps \<longleftrightarrow> sorted_wrt (<) (map fst ps)"

subsection \<open>The interface\<close>

text \<open>
  Reading may change the store (a cache remembers what it read). \<open>Set\<close> and \<open>Delete\<close> may panic.
  An iterator is the list of entries it delivers, which is what a caller sees that keeps the
  contract not to write while iterating.
\<close>

record ('s, 'v) kvops =
  opGet :: "bytes \<Rightarrow> 's \<Rightarrow> 'v option \<times> 's"
  opSet :: "bytes \<Rightarrow> 'v \<Rightarrow> 's \<Rightarrow> 's option"
  opDelete :: "bytes \<Rightarrow> 's \<Rightarrow> 's option"
  opIterator :: "bytes option \<Rightarrow> bytes option \<Rightarrow> bool \<Rightarrow> 's \<Rightarrow> (bytes \<times> 'v) list \<times> 's"

definition listOps :: "((bytes \<times> 'v) list, 'v) kvops" where
  "listOps = \<lparr>opGet = (\<lambda>k s. (map_of s k, s)), opSet = (\<lambda>k v s. Some (kvSet k v s)),
     opDelete = (\<lambda>k s. Some (kvDelete k s)),
     opIterator = (\<lambda>start end asc s. (kvRange start end asc s, s))\<rparr>"

text \<open>Commands of a client, and the results they deliver.\<close>

datatype 'v kvCmd = CGet bytes | CSet bytes 'v | CDelete bytes
  | CIter "bytes option" "bytes option" bool

datatype 'v kvRes = RGet "'v option" | RDone | RIter "(bytes \<times> 'v) list"

fun kvStep :: "('s, 'v) kvops \<Rightarrow> 'v kvCmd \<Rightarrow> 's \<Rightarrow> ('v kvRes \<times> 's) option" where
  "kvStep ops (CGet k) s = (let (v, s') = opGet ops k s in Some (RGet v, s'))"
| "kvStep ops (CSet k v) s = map_option (Pair RDone) (opSet ops k v s)"
| "kvStep ops (CDelete k) s = map_option (Pair RDone) (opDelete ops k s)"
| "kvStep ops (CIter b e asc) s = (let (ps, s') = opIterator ops b e asc s in Some (RIter ps, s'))"

fun kvRun :: "('s, 'v) kvops \<Rightarrow> 'v kvCmd list \<Rightarrow> 's \<Rightarrow> ('v kvRes list \<times> 's) option" where
  "kvRun ops [] s = Some ([], s)"
| "kvRun ops (c # cs) s = do {
     (r, s1) \<leftarrow> kvStep ops c s;
     (rs, s2) \<leftarrow> kvRun ops cs s1;
     Some (r # rs, s2) }"

section \<open>Lemmas on sorted association lists\<close>

lemma kvOK_Nil [simp]: "kvOK []"
  by (simp add: kvOK_def)

lemma kvOK_Cons [simp]: "kvOK ((a, b) # ps) \<longleftrightarrow> (\<forall>p\<in>set ps. a < fst p) \<and> kvOK ps"
  by (simp add: kvOK_def)

lemma kvOK_append [simp]:
  "kvOK (xs @ ys) \<longleftrightarrow> kvOK xs \<and> kvOK ys \<and> (\<forall>p\<in>set xs. \<forall>q\<in>set ys. fst p < fst q)"
  by (auto simp: kvOK_def sorted_wrt_append)

lemma kvOK_distinct: "kvOK ps \<Longrightarrow> distinct (map fst ps)"
  by (simp add: kvOK_def strict_sorted_iff)

lemma kvOK_filter [simp]: "kvOK ps \<Longrightarrow> kvOK (filter P ps)"
  by (induction ps) auto

lemma kvOK_delete [simp]: "kvOK ps \<Longrightarrow> kvOK (kvDelete k ps)"
  by (simp add: kvDelete_def)

lemma fst_set_kvSet: "fst ` set (kvSet k v ps) = insert k (fst ` set ps)"
  by (induction k v ps rule: kvSet.induct) auto

lemma kvOK_set [simp]: "kvOK ps \<Longrightarrow> kvOK (kvSet k v ps)"
proof (induction k v ps rule: kvSet.induct)
  case (2 k v a b ps)
  have "\<forall>p\<in>set (kvSet k v ps). a < fst p" if "a < k"
  proof
    fix p assume "p \<in> set (kvSet k v ps)"
    then have "fst p \<in> insert k (fst ` set ps)" using fst_set_kvSet [of k v ps] by blast
    then show "a < fst p" using that 2(2) by auto
  qed
  with 2 show ?case by auto
qed simp

lemma map_of_kvSet: "kvOK ps \<Longrightarrow> map_of (kvSet k v ps) = (map_of ps)(k \<mapsto> v)"
  by (induction k v ps rule: kvSet.induct) (auto simp: fun_eq_iff)

lemma map_of_kvDelete: "map_of (kvDelete k ps) = (map_of ps)(k := None)"
  by (induction ps) (auto simp: kvDelete_def fun_eq_iff)

lemma map_of_range:
  "kvOK ps \<Longrightarrow> map_of (kvRange b e asc ps) k = (if IsKeyInDomain k b e then map_of ps k else None)"
proof -
  assume ok: "kvOK ps"
  have f: "map_of (filter (\<lambda>p. P (fst p)) ps) k = (if P k then map_of ps k else None)" for P
    by (induction ps) auto
  have "map_of (rev (filter (\<lambda>p. IsKeyInDomain (fst p) b e) ps)) =
      map_of (filter (\<lambda>p. IsKeyInDomain (fst p) b e) ps)"
    using kvOK_distinct [OF kvOK_filter [OF ok], of "\<lambda>p. IsKeyInDomain (fst p) b e"]
    by (subst map_of_inject_set) (simp_all add: rev_map [symmetric])
  then show ?thesis
    using f [of "\<lambda>x. IsKeyInDomain x b e"] by (simp add: kvRange_def Let_def)
qed

text \<open>A sorted association list is determined by the map it represents.\<close>

lemma kvOK_unique:
  assumes "kvOK xs" "kvOK ys" "map_of xs = map_of ys"
  shows "xs = ys"
proof -
  have "set xs = set ys"
    using assms map_of_inject_set [of xs ys] by (simp add: kvOK_distinct)
  then have "map fst xs = map fst ys"
    using assms(1,2) by (intro strict_sorted_equal) (auto simp: kvOK_def)
  moreover have "map (\<lambda>k. (k, the (map_of ps k))) (map fst ps) = ps" if "kvOK ps"
    for ps :: "(bytes \<times> 'a) list"
    unfolding map_map using kvOK_distinct [OF that] by (intro map_idI) (auto simp: map_of_is_SomeI)
  ultimately show ?thesis using assms by metis
qed

lemma kvSet_same: "kvOK ps \<Longrightarrow> map_of ps k = Some v \<Longrightarrow> kvSet k v ps = ps"
  by (rule kvOK_unique) (auto simp: map_of_kvSet fun_eq_iff)

lemma kvDelete_none: "map_of ps k = None \<Longrightarrow> kvDelete k ps = ps"
  by (induction ps) (auto simp: kvDelete_def split: if_splits)

lemma kvSet_append:
  assumes "kvOK (xs @ ys)"
  shows "(\<forall>p\<in>set ys. k < fst p) \<Longrightarrow> kvSet k v (xs @ ys) = kvSet k v xs @ ys"
    and "(\<forall>p\<in>set xs. fst p < k) \<Longrightarrow> kvSet k v (xs @ ys) = xs @ kvSet k v ys"
proof -
  show "kvSet k v (xs @ ys) = kvSet k v xs @ ys" if "\<forall>p\<in>set ys. k < fst p"
    using that by (induction xs) (cases ys; auto)+
  show "kvSet k v (xs @ ys) = xs @ kvSet k v ys" if "\<forall>p\<in>set xs. fst p < k"
    using that by (induction xs) auto
qed

lemma kvDelete_append [simp]: "kvDelete k (xs @ ys) = kvDelete k xs @ kvDelete k ys"
  by (simp add: kvDelete_def)

lemma kvDelete_out: "(\<forall>p\<in>set xs. fst p \<noteq> k) \<Longrightarrow> kvDelete k xs = xs"
  by (simp add: kvDelete_def filter_id_conv)

lemma length_kvSet: "length (kvSet k v ps) \<le> Suc (length ps)"
  by (induction k v ps rule: kvSet.induct) auto

lemma length_kvDelete: "length (kvDelete k ps) \<le> length ps"
  by (simp add: kvDelete_def)

section \<open>The contract of a store\<close>

text \<open>
  \<open>view\<close> is the content of the store as a sorted association list. \<open>fits\<close> bounds the number of
  entries an implementation can hold; below the bound no operation panics.
\<close>

locale kv_store =
  fixes ops :: "('s, 'v) kvops" and view :: "'s \<Rightarrow> (bytes \<times> 'v) list"
    and inv :: "'s \<Rightarrow> bool" and fits :: "nat \<Rightarrow> bool"
  assumes view_ok: "inv s \<Longrightarrow> kvOK (view s)"
    and get_spec: "inv s \<Longrightarrow> \<exists>s'. opGet ops k s = (map_of (view s) k, s') \<and> inv s' \<and> view s' = view s"
    and set_spec: "inv s \<Longrightarrow> fits (Suc (length (view s))) \<Longrightarrow>
      \<exists>s'. opSet ops k v s = Some s' \<and> inv s' \<and> view s' = kvSet k v (view s)"
    and delete_spec: "inv s \<Longrightarrow> \<exists>s'. opDelete ops k s = Some s' \<and> inv s' \<and> view s' = kvDelete k (view s)"
    and iterator_spec: "inv s \<Longrightarrow> \<exists>s'. opIterator ops b e asc s = (kvRange b e asc (view s), s') \<and>
      inv s' \<and> view s' = view s"
    and fits_mono: "fits n \<Longrightarrow> m \<le> n \<Longrightarrow> fits m"
begin

text \<open>One command, and any sequence of commands, returns what the reference store returns.\<close>

lemma step_spec:
  assumes "inv s" "fits (Suc (length (view s)))"
  shows "\<exists>r s'. kvStep ops c s = Some (r, s') \<and> inv s' \<and> kvStep listOps c (view s) = Some (r, view s')"
proof (cases c)
  case (CGet k)
  with get_spec [OF assms(1), of k] show ?thesis by (auto simp: listOps_def)
next
  case (CSet k v)
  with set_spec [OF assms, of k v] show ?thesis by (auto simp: listOps_def)
next
  case (CDelete k)
  with delete_spec [OF assms(1), of k] show ?thesis by (auto simp: listOps_def)
next
  case (CIter b e asc)
  with iterator_spec [OF assms(1), of b e asc] show ?thesis by (auto simp: listOps_def)
qed

lemma listStep_length: "kvStep listOps c xs = Some (r, ys) \<Longrightarrow> length ys \<le> Suc (length xs)"
  by (cases c) (auto simp: listOps_def length_kvSet intro: le_SucI [OF length_kvDelete])

lemma run_spec:
  assumes "inv s" "fits (length (view s) + length cs)"
  shows "\<exists>rs s'. kvRun ops cs s = Some (rs, s') \<and> inv s' \<and> kvRun listOps cs (view s) = Some (rs, view s')"
  using assms
proof (induction cs arbitrary: s)
  case (Cons c cs)
  have "fits (Suc (length (view s)))" by (rule fits_mono [OF Cons.prems(2)]) simp
  from step_spec [OF Cons.prems(1) this, of c] obtain r s1 where
    1: "kvStep ops c s = Some (r, s1)" "inv s1" "kvStep listOps c (view s) = Some (r, view s1)" by blast
  have "fits (length (view s1) + length cs)"
    by (rule fits_mono [OF Cons.prems(2)]) (use listStep_length [OF 1(3)] in simp)
  from Cons.IH [OF 1(2) this] 1 show ?case by auto
qed auto

lemma get_after_set:
  assumes "inv s" "fits (Suc (length (view s)))" "opSet ops k v s = Some s'"
  shows "fst (opGet ops j s') = (if j = k then Some v else fst (opGet ops j s))"
proof -
  from set_spec [OF assms(1,2), of k v] assms(3) have s': "inv s'" "view s' = kvSet k v (view s)" by auto
  from get_spec [OF s'(1), of j] get_spec [OF assms(1), of j] s'(2) view_ok [OF assms(1)]
  show ?thesis by (auto simp: map_of_kvSet)
qed

lemma get_after_delete:
  assumes "inv s" "opDelete ops k s = Some s'"
  shows "fst (opGet ops j s') = (if j = k then None else fst (opGet ops j s))"
proof -
  from delete_spec [OF assms(1), of k] assms(2) have s': "inv s'" "view s' = kvDelete k (view s)" by auto
  from get_spec [OF s'(1), of j] get_spec [OF assms(1), of j] s'(2)
  show ?thesis by (auto simp: map_of_kvDelete)
qed

end

interpretation reference: kv_store listOps "\<lambda>s. s" kvOK "\<lambda>_. True"
  by unfold_locales (auto simp: listOps_def)

end
