(* ===== verification/Iavl.thy ===== *)
theory Iavl
  imports KVStore
begin

text \<open>
  The versioned AVL+ tree of \<open>libs/iavl\<close>: \<open>node.go\<close>, \<open>mutable_tree.go\<close>, \<open>mutable_tree_preload.go\<close>,
  \<open>immutable_tree.go\<close> and the iterator of \<open>iterator.go\<close> and \<open>node_ibc_adapter.go\<close>. Values live in the
  leaves; an inner node carries the smallest key of its right subtree, its height (an \<open>int8\<close>) and
  its number of leaves (an \<open>int64\<close>), both with their wrap-around. A child that Go loads from disk by
  its hash is the child itself here; \<open>persisted\<close> stands for the flags \<open>persisted\<close> and
  \<open>prePersisted\<close> of a node. A panic (a clone of a leaf, a child of a leaf, a call of \<open>balance\<close> on a
  persisted node, a nil value) is \<^term>\<open>None\<close>.
\<close>

section \<open>Definitions\<close>

subsection \<open>Nodes\<close>

datatype Node =
    Leaf (nkey: bytes) (nvalue: bytes) (nversion: int) (npersisted: bool)
  | Inner (nkey: bytes) (nversion: int) (nsize: int) (nheight: int) (nleft: Node) (nright: Node)
      (npersisted: bool)

fun nodeHeight :: "Node \<Rightarrow> int" where
  "nodeHeight (Leaf _ _ _ _) = 0"
| "nodeHeight (Inner _ _ _ h _ _ _) = h"

fun nodeSize :: "Node \<Rightarrow> int" where
  "nodeSize (Leaf _ _ _ _) = 1"
| "nodeSize (Inner _ _ s _ _ _ _) = s"

fun isLeaf :: "Node \<Rightarrow> bool" where
  "isLeaf (Leaf _ _ _ _) = True"
| "isLeaf (Inner _ _ _ _ _ _ _) = False"

definition NewNode :: "bytes \<Rightarrow> bytes \<Rightarrow> int \<Rightarrow> Node" where
  "NewNode key value version = Leaf key value version False"

fun clone :: "int \<Rightarrow> Node \<Rightarrow> Node option" where
  "clone version (Leaf _ _ _ _) = None"
| "clone version (Inner k _ s h l r _) = Some (Inner k version s h l r False)"

fun getLeftNode :: "Node \<Rightarrow> Node option" where
  "getLeftNode (Leaf _ _ _ _) = None"
| "getLeftNode (Inner _ _ _ _ l _ _) = Some l"

fun getRightNode :: "Node \<Rightarrow> Node option" where
  "getRightNode (Leaf _ _ _ _) = None"
| "getRightNode (Inner _ _ _ _ _ r _) = Some r"

text \<open>Assignments to fields of an inner node.\<close>

fun withLeft :: "Node \<Rightarrow> Node \<Rightarrow> Node" where
  "withLeft l' (Inner k ver s h l r p) = Inner k ver s h l' r p"
| "withLeft l' n = n"

fun withRight :: "Node \<Rightarrow> Node \<Rightarrow> Node" where
  "withRight r' (Inner k ver s h l r p) = Inner k ver s h l r' p"
| "withRight r' n = n"

fun withKey :: "bytes \<Rightarrow> Node \<Rightarrow> Node" where
  "withKey k' (Inner k ver s h l r p) = Inner k' ver s h l r p"
| "withKey k' n = n"

definition maxInt8 :: "int \<Rightarrow> int \<Rightarrow> int" where
  "maxInt8 a b = (if a > b then a else b)"

fun calcHeightAndSize :: "Node \<Rightarrow> Node option" where
  "calcHeightAndSize (Inner k ver s h l r p) =
     Some (Inner k ver (wrapInt 64 (nodeSize l + nodeSize r))
       (wrapInt 8 (maxInt8 (nodeHeight l) (nodeHeight r) + 1)) l r p)"
| "calcHeightAndSize (Leaf _ _ _ _) = None"

fun calcBalance :: "Node \<Rightarrow> int option" where
  "calcBalance (Inner _ _ _ _ l r _) = Some (nodeHeight l - nodeHeight r)"
| "calcBalance (Leaf _ _ _ _) = None"

text \<open>\<open>has\<close> stops at an inner node with the key: that key is a leaf of its right subtree.\<close>

fun nodeHas :: "Node \<Rightarrow> bytes \<Rightarrow> bool" where
  "nodeHas (Leaf k _ _ _) key = (k = key)"
| "nodeHas (Inner k _ _ _ l r _) key =
     (if k = key then True else if key < k then nodeHas l key else nodeHas r key)"

fun nodeGet :: "Node \<Rightarrow> bytes \<Rightarrow> int \<times> bytes option" where
  "nodeGet (Leaf k v _ _) key = (if k < key then (1, None) else if key < k then (0, None) else (0, Some v))"
| "nodeGet (Inner k _ s _ l r _) key =
     (if key < k then nodeGet l key
      else let (index, value) = nodeGet r key in (wrapInt 64 (index + wrapInt 64 (s - nodeSize r)), value))"

fun getByIndex :: "Node \<Rightarrow> int \<Rightarrow> (bytes \<times> bytes) option" where
  "getByIndex (Leaf k v _ _) index = (if index = 0 then Some (k, v) else None)"
| "getByIndex (Inner _ _ _ _ l r _) index =
     (if index < nodeSize l then getByIndex l index else getByIndex r (wrapInt 64 (index - nodeSize l)))"

subsection \<open>Balancing\<close>

definition rotateRight :: "int \<Rightarrow> Node \<Rightarrow> (Node \<times> Node) option" where
  "rotateRight version node = do {
     node1 \<leftarrow> clone version node;
     orphaned \<leftarrow> getLeftNode node1;
     newNode \<leftarrow> clone version orphaned;
     newNoder \<leftarrow> getRightNode newNode;
     node2 \<leftarrow> calcHeightAndSize (withLeft newNoder node1);
     newNode1 \<leftarrow> calcHeightAndSize (withRight node2 newNode);
     Some (newNode1, orphaned) }"

definition rotateLeft :: "int \<Rightarrow> Node \<Rightarrow> (Node \<times> Node) option" where
  "rotateLeft version node = do {
     node1 \<leftarrow> clone version node;
     orphaned \<leftarrow> getRightNode node1;
     newNode \<leftarrow> clone version orphaned;
     newNodel \<leftarrow> getLeftNode newNode;
     node2 \<leftarrow> calcHeightAndSize (withRight newNodel node1);
     newNode1 \<leftarrow> calcHeightAndSize (withLeft node2 newNode);
     Some (newNode1, orphaned) }"

definition balance :: "int \<Rightarrow> Node \<Rightarrow> Node list \<Rightarrow> (Node \<times> Node list) option" where
  "balance version node orphans =
     (if npersisted node then None
      else do {
        bal \<leftarrow> calcBalance node;
        left \<leftarrow> getLeftNode node;
        right \<leftarrow> getRightNode node;
        if bal > 1 then do {
          lbal \<leftarrow> calcBalance left;
          if lbal \<ge> 0 then do {
            (newNode, orphaned) \<leftarrow> rotateRight version node;
            Some (newNode, orphans @ [orphaned]) }
          else do {
            (left1, leftOrphaned) \<leftarrow> rotateLeft version left;
            (newNode, rightOrphaned) \<leftarrow> rotateRight version (withLeft left1 node);
            Some (newNode, orphans @ [left, leftOrphaned, rightOrphaned]) } }
        else if bal < - 1 then do {
          rbal \<leftarrow> calcBalance right;
          if rbal \<le> 0 then do {
            (newNode, orphaned) \<leftarrow> rotateLeft version node;
            Some (newNode, orphans @ [orphaned]) }
          else do {
            (right1, rightOrphaned) \<leftarrow> rotateRight version right;
            (newNode, leftOrphaned) \<leftarrow> rotateLeft version (withRight right1 node);
            Some (newNode, orphans @ [right, leftOrphaned, rightOrphaned]) } }
        else Some (node, orphans) })"

subsection \<open>Insertion and removal\<close>

fun recursiveSet ::
  "int \<Rightarrow> Node \<Rightarrow> bytes \<Rightarrow> bytes \<Rightarrow> Node list \<Rightarrow> (Node \<times> bool \<times> Node list) option" where
  "recursiveSet version (Leaf k v ver p) key value orphans =
     (if key < k then
        Some (Inner k version 2 1 (NewNode key value version) (Leaf k v ver p) False, False, orphans)
      else if k < key then
        Some (Inner key version 2 1 (Leaf k v ver p) (NewNode key value version) False, False, orphans)
      else Some (NewNode key value version, True, orphans @ [Leaf k v ver p]))"
| "recursiveSet version (Inner k ver s h l r p) key value orphans = do {
     node \<leftarrow> clone version (Inner k ver s h l r p);
     (node1, updated, orphans1) \<leftarrow>
       (if key < k
        then do { (l', upd, os) \<leftarrow> recursiveSet version l key value (orphans @ [Inner k ver s h l r p]);
                  Some (withLeft l' node, upd, os) }
        else do { (r', upd, os) \<leftarrow> recursiveSet version r key value (orphans @ [Inner k ver s h l r p]);
                  Some (withRight r' node, upd, os) });
     if updated then Some (node1, updated, orphans1)
     else do {
       node2 \<leftarrow> calcHeightAndSize node1;
       (newNode, orphans2) \<leftarrow> balance version node2 orphans1;
       Some (newNode, updated, orphans2) } }"

text \<open>
  The results of \<open>recursiveRemove\<close>: the node that replaces the original one (none if it was the
  removed leaf), the new leftmost key if it changed, the removed value, the orphans. An empty
  orphan slice means that nothing was removed.
\<close>

fun recursiveRemove ::
  "int \<Rightarrow> Node \<Rightarrow> bytes \<Rightarrow> Node list \<Rightarrow> (Node option \<times> bytes option \<times> bytes option \<times> Node list) option" where
  "recursiveRemove version (Leaf k v ver p) key orphans =
     (if key = k then Some (None, None, Some v, orphans @ [Leaf k v ver p])
      else Some (Some (Leaf k v ver p), None, None, orphans))"
| "recursiveRemove version (Inner k ver s h l r p) key orphans =
     (if key < k then do {
        (l', newKey, value, orphans1) \<leftarrow> recursiveRemove version l key orphans;
        if orphans1 = [] then Some (Some (Inner k ver s h l r p), None, value, orphans1)
        else case l' of
            None \<Rightarrow> Some (Some r, Some k, value, orphans1 @ [Inner k ver s h l r p])
          | Some newLeft \<Rightarrow> do {
              newNode \<leftarrow> clone version (Inner k ver s h l r p);
              newNode1 \<leftarrow> calcHeightAndSize (withLeft newLeft newNode);
              (newNode2, orphans2) \<leftarrow> balance version newNode1 (orphans1 @ [Inner k ver s h l r p]);
              Some (Some newNode2, newKey, value, orphans2) } }
      else do {
        (r', newKey, value, orphans1) \<leftarrow> recursiveRemove version r key orphans;
        if orphans1 = [] then Some (Some (Inner k ver s h l r p), None, value, orphans1)
        else case r' of
            None \<Rightarrow> Some (Some l, None, value, orphans1 @ [Inner k ver s h l r p])
          | Some newRight \<Rightarrow> do {
              newNode \<leftarrow> clone version (Inner k ver s h l r p);
              newNode1 \<leftarrow> calcHeightAndSize
                (case newKey of None \<Rightarrow> withRight newRight newNode
                 | Some nk \<Rightarrow> withKey nk (withRight newRight newNode));
              (newNode2, orphans2) \<leftarrow> balance version newNode1 (orphans1 @ [Inner k ver s h l r p]);
              Some (Some newNode2, None, value, orphans2) } })"

subsection \<open>Traversal\<close>

text \<open>
  The callback gets the node, its depth (a \<open>uint8\<close>) and an accumulator, and says whether to stop.
\<close>

definition afterStart :: "bytes option \<Rightarrow> bytes \<Rightarrow> bool" where
  "afterStart start key = (case start of None \<Rightarrow> True | Some s \<Rightarrow> s < key)"

definition startOrAfter :: "bytes option \<Rightarrow> bytes \<Rightarrow> bool" where
  "startOrAfter start key = (case start of None \<Rightarrow> True | Some s \<Rightarrow> s \<le> key)"

definition beforeEnd :: "bytes option \<Rightarrow> bool \<Rightarrow> bytes \<Rightarrow> bool" where
  "beforeEnd end inclusive key =
     (case end of None \<Rightarrow> True | Some e \<Rightarrow> if inclusive then key \<le> e else key < e)"

definition visits :: "bytes option \<Rightarrow> bytes option \<Rightarrow> bool \<Rightarrow> Node \<Rightarrow> bool" where
  "visits start end inclusive node \<longleftrightarrow>
     \<not> isLeaf node \<or> (startOrAfter start (nkey node) \<and> beforeEnd end inclusive (nkey node))"

fun unlessStopped :: "bool \<times> 'a \<Rightarrow> ('a \<Rightarrow> bool \<times> 'a) \<Rightarrow> bool \<times> 'a" where
  "unlessStopped (stop, a) f = (if stop then (stop, a) else f a)"

fun traverseInRange ::
  "bytes option \<Rightarrow> bytes option \<Rightarrow> bool \<Rightarrow> bool \<Rightarrow> bool \<Rightarrow> (Node \<Rightarrow> nat \<Rightarrow> 'a \<Rightarrow> bool \<times> 'a) \<Rightarrow>
   Node \<Rightarrow> nat \<Rightarrow> 'a \<Rightarrow> bool \<times> 'a" where
  "traverseInRange start end ascending inclusive post cb (Leaf k v ver p) depth a =
     (if visits start end inclusive (Leaf k v ver p) then cb (Leaf k v ver p) depth a else (False, a))"
| "traverseInRange start end ascending inclusive post cb (Inner k ver s h l r p) depth a =
     unlessStopped (if \<not> post then cb (Inner k ver s h l r p) depth a else (False, a)) (\<lambda>a0.
     unlessStopped
       (if ascending
        then unlessStopped
          (if afterStart start k
           then traverseInRange start end ascending inclusive post cb l ((depth + 1) mod 256) a0 else (False, a0))
          (\<lambda>a1. if beforeEnd end inclusive k
             then traverseInRange start end ascending inclusive post cb r ((depth + 1) mod 256) a1 else (False, a1))
        else unlessStopped
          (if beforeEnd end inclusive k
           then traverseInRange start end ascending inclusive post cb r ((depth + 1) mod 256) a0 else (False, a0))
          (\<lambda>a1. if afterStart start k
             then traverseInRange start end ascending inclusive post cb l ((depth + 1) mod 256) a1 else (False, a1)))
     (\<lambda>a2. if post then cb (Inner k ver s h l r p) depth a2 else (False, a2)))"

text \<open>
  The traversal behind the iterator keeps a stack of nodes, each with a flag that says whether it
  is still to be expanded; the top of the stack is the head of the list.
\<close>

fun nodeCount :: "Node \<Rightarrow> nat" where
  "nodeCount (Leaf _ _ _ _) = 1"
| "nodeCount (Inner _ _ _ _ l r _) = 1 + nodeCount l + nodeCount r"

definition stackWeight :: "(Node \<times> bool) list \<Rightarrow> nat" where
  "stackWeight ns = sum_list (map (\<lambda>(n, delayed). if delayed then 2 * nodeCount n else 1) ns)"

definition pushChildren ::
  "bytes option \<Rightarrow> bytes option \<Rightarrow> bool \<Rightarrow> bool \<Rightarrow> Node \<Rightarrow> (Node \<times> bool) list \<Rightarrow> (Node \<times> bool) list" where
  "pushChildren start end ascending inclusive node ns =
     (case node of
        Leaf _ _ _ _ \<Rightarrow> ns
      | Inner k _ _ _ l r _ \<Rightarrow>
          (let ls = (if afterStart start k then [(l, True)] else []);
               rs = (if beforeEnd end inclusive k then [(r, True)] else []) in
           if ascending then ls @ rs @ ns else rs @ ls @ ns))"

lemma nodeCount_pos: "0 < nodeCount n"
  by (cases n) auto

lemma stackWeight_push:
  "stackWeight (pushChildren start end asc incl n ns) + 2 \<le> stackWeight ((n, True) # ns)"
  using nodeCount_pos [of n] by (cases n) (auto simp: pushChildren_def stackWeight_def Let_def)

function travNext ::
  "bytes option \<Rightarrow> bytes option \<Rightarrow> bool \<Rightarrow> bool \<Rightarrow> bool \<Rightarrow> (Node \<times> bool) list \<Rightarrow>
   (Node \<times> (Node \<times> bool) list) option" where
  "travNext start end ascending inclusive post [] = None"
| "travNext start end ascending inclusive post ((node, delayed) # ns) =
     (if \<not> delayed then Some (node, ns)
      else let ns1 = (if post \<and> visits start end inclusive node then (node, False) # ns else ns);
               ns2 = pushChildren start end ascending inclusive node ns1 in
           if \<not> post \<and> visits start end inclusive node then Some (node, ns2)
           else travNext start end ascending inclusive post ns2)"
  by pat_completeness auto

termination
proof (relation "measure (\<lambda>(_, _, _, _, _, ns). stackWeight ns)", goal_cases)
  case (2 start e asc incl post node delayed ns x xa)
  then have "stackWeight x \<le> stackWeight ns + 1" by (simp add: stackWeight_def)
  with 2 stackWeight_push [of start e asc incl node x] show ?case
    by (simp add: stackWeight_def)
qed simp

lemma travNext_weight:
  "travNext start end asc incl post ns = Some (n, ns') \<Longrightarrow> stackWeight ns' < stackWeight ns"
proof (induction start "end" asc incl post ns rule: travNext.induct)
  case (2 start e asc incl post node delayed ns)
  let ?ns1 = "if post \<and> visits start e incl node then (node, False) # ns else ns"
  have w: "stackWeight ?ns1 \<le> stackWeight ns + 1" by (simp add: stackWeight_def)
  with stackWeight_push [of start e asc incl node ?ns1]
  have "stackWeight (pushChildren start e asc incl node ?ns1) + 1 \<le> stackWeight ((node, True) # ns)"
    by (simp add: stackWeight_def)
  with 2 show ?case
    by (cases delayed) (force simp: Let_def stackWeight_def split: if_splits)+
qed simp

text \<open>\<open>Iterator.Next\<close>: the next leaf of the traversal.\<close>

function iterNext ::
  "bytes option \<Rightarrow> bytes option \<Rightarrow> bool \<Rightarrow> (Node \<times> bool) list \<Rightarrow> ((bytes \<times> bytes) \<times> (Node \<times> bool) list) option" where
  "iterNext start end ascending ns =
     (case travNext start end ascending False False ns of
        None \<Rightarrow> None
      | Some (node, ns') \<Rightarrow>
          (case node of
             Leaf k v _ _ \<Rightarrow> Some ((k, v), ns')
           | Inner _ _ _ _ _ _ _ \<Rightarrow> iterNext start end ascending ns'))"
  by pat_completeness auto

termination
  by (relation "measure (\<lambda>(_, _, _, ns). stackWeight ns)") (auto dest: travNext_weight)

declare iterNext.simps [simp del]

lemma iterNext_weight:
  "iterNext start end asc ns = Some (x, ns') \<Longrightarrow> stackWeight ns' < stackWeight ns"
proof (induction start "end" asc ns rule: iterNext.induct)
  case (1 start e asc ns)
  from 1(2) obtain n ns1 where t: "travNext start e asc False False ns = Some (n, ns1)"
    by (subst (asm) iterNext.simps) (auto split: option.splits)
  show ?case
  proof (cases n)
    case (Leaf k v ver p)
    with t 1(2) travNext_weight [OF t] show ?thesis by (simp add: iterNext.simps [of start e asc ns])
  next
    case Inner
    with t 1(2) have "iterNext start e asc ns1 = Some (x, ns')"
      by (simp add: iterNext.simps [of start e asc ns])
    with 1(1) [OF t] Inner travNext_weight [OF t] show ?thesis by fastforce
  qed
qed

text \<open>What a client of the iterator sees: \<open>for ; itr.Valid(); itr.Next()\<close>.\<close>

function iterAll :: "bytes option \<Rightarrow> bytes option \<Rightarrow> bool \<Rightarrow> (Node \<times> bool) list \<Rightarrow> (bytes \<times> bytes) list" where
  "iterAll start end ascending ns =
     (case iterNext start end ascending ns of
        None \<Rightarrow> []
      | Some (x, ns') \<Rightarrow> x # iterAll start end ascending ns')"
  by pat_completeness auto

termination
  by (relation "measure (\<lambda>(_, _, _, ns). stackWeight ns)") (auto dest: iterNext_weight)

declare iterAll.simps [simp del]

subsection \<open>Trees\<close>

record MutableTree =
  root :: "Node option"
  treeVersion :: int
  orphans :: "Node list"

definition emptyTree :: MutableTree where
  "emptyTree = \<lparr>root = None, treeVersion = 0, orphans = []\<rparr>"

definition Size :: "MutableTree \<Rightarrow> int" where
  "Size t = (case root t of None \<Rightarrow> 0 | Some n \<Rightarrow> nodeSize n)"

definition Height :: "MutableTree \<Rightarrow> int" where
  "Height t = (case root t of None \<Rightarrow> 0 | Some n \<Rightarrow> nodeHeight n)"

definition Has :: "MutableTree \<Rightarrow> bytes \<Rightarrow> bool" where
  "Has t key = (case root t of None \<Rightarrow> False | Some n \<Rightarrow> nodeHas n key)"

definition GetWithIndex :: "MutableTree \<Rightarrow> bytes \<Rightarrow> int \<times> bytes option" where
  "GetWithIndex t key = (case root t of None \<Rightarrow> (0, None) | Some n \<Rightarrow> nodeGet n key)"

definition GetByIndex :: "MutableTree \<Rightarrow> int \<Rightarrow> (bytes \<times> bytes) option" where
  "GetByIndex t index = (case root t of None \<Rightarrow> None | Some n \<Rightarrow> getByIndex n index)"

definition leafCallback :: "(bytes \<Rightarrow> bytes \<Rightarrow> 'a \<Rightarrow> bool \<times> 'a) \<Rightarrow> Node \<Rightarrow> nat \<Rightarrow> 'a \<Rightarrow> bool \<times> 'a" where
  "leafCallback fn node depth a =
     (case node of Leaf k v _ _ \<Rightarrow> fn k v a | Inner _ _ _ _ _ _ _ \<Rightarrow> (False, a))"

definition IterateRange ::
  "MutableTree \<Rightarrow> bytes option \<Rightarrow> bytes option \<Rightarrow> bool \<Rightarrow> (bytes \<Rightarrow> bytes \<Rightarrow> 'a \<Rightarrow> bool \<times> 'a) \<Rightarrow> 'a \<Rightarrow> bool \<times> 'a" where
  "IterateRange t start end ascending fn a =
     (case root t of None \<Rightarrow> (False, a)
      | Some n \<Rightarrow> traverseInRange start end ascending False False (leafCallback fn) n 0 a)"

definition IterateRangeInclusive ::
  "MutableTree \<Rightarrow> bytes option \<Rightarrow> bytes option \<Rightarrow> bool \<Rightarrow> (bytes \<Rightarrow> bytes \<Rightarrow> int \<Rightarrow> 'a \<Rightarrow> bool \<times> 'a) \<Rightarrow> 'a \<Rightarrow> bool \<times> 'a" where
  "IterateRangeInclusive t start end ascending fn a =
     (case root t of None \<Rightarrow> (False, a)
      | Some n \<Rightarrow> traverseInRange start end ascending True False
          (\<lambda>node depth b. case node of Leaf k v ver _ \<Rightarrow> fn k v ver b | Inner _ _ _ _ _ _ _ \<Rightarrow> (False, b)) n 0 a)"

definition TreeIterator :: "bytes option \<Rightarrow> bytes option \<Rightarrow> bool \<Rightarrow> MutableTree \<Rightarrow> (bytes \<times> bytes) list" where
  "TreeIterator start end ascending t =
     (case root t of None \<Rightarrow> [] | Some n \<Rightarrow> iterAll start end ascending [(n, True)])"

text \<open>Only nodes that reached the disk are remembered as orphans.\<close>

definition addOrphans :: "Node list \<Rightarrow> MutableTree \<Rightarrow> MutableTree" where
  "addOrphans os t = t\<lparr>orphans := orphans t @ filter npersisted os\<rparr>"

definition setWithOrphansSlice ::
  "bytes \<Rightarrow> bytes option \<Rightarrow> Node list \<Rightarrow> MutableTree \<Rightarrow> (bool \<times> Node list \<times> MutableTree) option" where
  "setWithOrphansSlice key value os t = do {
     v \<leftarrow> value;
     (case root t of
        None \<Rightarrow> Some (False, os, t\<lparr>root := Some (NewNode key v (treeVersion t + 1))\<rparr>)
      | Some n \<Rightarrow> do {
          (n', updated, os') \<leftarrow> recursiveSet (treeVersion t + 1) n key v os;
          Some (updated, os', t\<lparr>root := Some n'\<rparr>) }) }"

definition TreeSet :: "bytes \<Rightarrow> bytes option \<Rightarrow> MutableTree \<Rightarrow> (bool \<times> MutableTree) option" where
  "TreeSet key value t = do {
     (updated, os, t') \<leftarrow> setWithOrphansSlice key value [] t;
     Some (updated, addOrphans os t') }"

definition removeWithOrphansSlice ::
  "bytes \<Rightarrow> Node list \<Rightarrow> MutableTree \<Rightarrow> (bytes option \<times> bool \<times> Node list \<times> MutableTree) option" where
  "removeWithOrphansSlice key os t =
     (case root t of
        None \<Rightarrow> Some (None, False, os, t)
      | Some n \<Rightarrow> do {
          (newRoot, newKey, value, os') \<leftarrow> recursiveRemove (treeVersion t + 1) n key os;
          if os' = [] then Some (None, False, os', t)
          else Some (value, True, os', t\<lparr>root := newRoot\<rparr>) })"

definition TreeRemove :: "bytes \<Rightarrow> MutableTree \<Rightarrow> (bytes option \<times> bool \<times> MutableTree) option" where
  "TreeRemove key t = do {
     (value, removed, os, t') \<leftarrow> removeWithOrphansSlice key [] t;
     Some (value, removed, addOrphans os t') }"

text \<open>
  The store of \<open>libs/cosmos-sdk/store/iavl\<close>: the tree, and optionally a flat key-value copy of the
  values that were written or read. Its iterator funnels \<open>IterateRange\<close> into a channel.
\<close>

record iavlStore =
  tree :: MutableTree
  flatKV :: "(bytes \<rightharpoonup> bytes) option"

definition getFlatKV :: "bytes \<Rightarrow> iavlStore \<Rightarrow> bytes option" where
  "getFlatKV key st = (case flatKV st of None \<Rightarrow> None | Some m \<Rightarrow> m key)"

definition setFlatKV :: "bytes \<Rightarrow> bytes \<Rightarrow> iavlStore \<Rightarrow> iavlStore" where
  "setFlatKV key value st = (case flatKV st of None \<Rightarrow> st | Some m \<Rightarrow> st\<lparr>flatKV := Some (m(key \<mapsto> value))\<rparr>)"

definition deleteFlatKV :: "bytes \<Rightarrow> iavlStore \<Rightarrow> iavlStore" where
  "deleteFlatKV key st = (case flatKV st of None \<Rightarrow> st | Some m \<Rightarrow> st\<lparr>flatKV := Some (m(key := None))\<rparr>)"

definition StoreSet :: "bytes \<Rightarrow> bytes \<Rightarrow> iavlStore \<Rightarrow> iavlStore option" where
  "StoreSet key value st = do {
     (_, t) \<leftarrow> TreeSet key (Some value) (tree st);
     Some (setFlatKV key value (st\<lparr>tree := t\<rparr>)) }"

definition StoreGet :: "bytes \<Rightarrow> iavlStore \<Rightarrow> bytes option \<times> iavlStore" where
  "StoreGet key st =
     (case getFlatKV key st of
        Some value \<Rightarrow> (Some value, st)
      | None \<Rightarrow>
          (case snd (GetWithIndex (tree st) key) of
             None \<Rightarrow> (None, st)
           | Some value \<Rightarrow> (Some value, setFlatKV key value st)))"

definition StoreHas :: "bytes \<Rightarrow> iavlStore \<Rightarrow> bool" where
  "StoreHas key st = (if getFlatKV key st \<noteq> None then True else Has (tree st) key)"

definition StoreDelete :: "bytes \<Rightarrow> iavlStore \<Rightarrow> iavlStore option" where
  "StoreDelete key st = do {
     (_, _, t) \<leftarrow> TreeRemove key (tree st);
     Some (deleteFlatKV key (st\<lparr>tree := t\<rparr>)) }"

definition iterateRoutine :: "bytes option \<Rightarrow> bytes option \<Rightarrow> bool \<Rightarrow> iavlStore \<Rightarrow> (bytes \<times> bytes) list" where
  "iterateRoutine start end ascending st =
     snd (IterateRange (tree st) start end ascending (\<lambda>k v sent. (False, sent @ [(k, v)])) [])"

definition iavlOps :: "(iavlStore, bytes) kvops" where
  "iavlOps = \<lparr>opGet = StoreGet, opSet = StoreSet, opDelete = StoreDelete,
     opIterator = (\<lambda>start end asc st. (iterateRoutine start end asc st, st))\<rparr>"

section \<open>Well-formed trees\<close>

fun entries :: "Node \<Rightarrow> (bytes \<times> bytes) list" where
  "entries (Leaf k v _ _) = [(k, v)]"
| "entries (Inner _ _ _ _ l r _) = entries l @ entries r"

fun nodeWf :: "Node \<Rightarrow> bool" where
  "nodeWf (Leaf _ _ _ _) = True"
| "nodeWf (Inner k _ s h l r _) \<longleftrightarrow>
     nodeWf l \<and> nodeWf r \<and> (\<forall>p\<in>set (entries l). fst p < k) \<and> k = fst (hd (entries r)) \<and>
     s = nodeSize l + nodeSize r \<and> h = max (nodeHeight l) (nodeHeight r) + 1 \<and>
     \<bar>nodeHeight l - nodeHeight r\<bar> \<le> 1"

lemma entries_ne [simp]: "entries n \<noteq> []"
  by (induction n) auto

lemma kvOK_hd: "kvOK ps \<Longrightarrow> p \<in> set ps \<Longrightarrow> fst (hd ps) \<le> fst p"
  by (cases ps) (auto intro: less_imp_le)

lemma nodeWf_kvOK: "nodeWf n \<Longrightarrow> kvOK (entries n)"
proof (induction n)
  case (Inner k ver s h l r p)
  then have ok: "kvOK (entries l)" "kvOK (entries r)" and k: "k = fst (hd (entries r))"
    and l: "\<forall>p\<in>set (entries l). fst p < k" by auto
  have "fst p < fst q" if "p \<in> set (entries l)" "q \<in> set (entries r)" for p q
    using kvOK_hd [OF ok(2) that(2)] l that(1) k by force
  with ok show ?case by simp
qed simp

lemma nodeWf_right: "nodeWf (Inner k ver s h l r p) \<Longrightarrow> q \<in> set (entries r) \<Longrightarrow> k \<le> fst q"
  using nodeWf_kvOK [of r] kvOK_hd [of "entries r" q] by simp

lemma nodeSize_entries: "nodeWf n \<Longrightarrow> nodeSize n = int (length (entries n))"
  by (induction n) auto

lemma nodeHeight_nonneg: "nodeWf n \<Longrightarrow> 0 \<le> nodeHeight n"
  by (induction n) auto

lemma nodeHeight_pos: "nodeWf (Inner k ver s h l r p) \<Longrightarrow> 1 \<le> h"
  using nodeHeight_nonneg [of l] nodeHeight_nonneg [of r] by auto

text \<open>
  Two levels of an AVL tree double the number of leaves, so a tree whose size fits an \<open>int64\<close> has a
  height that fits an \<open>int8\<close>.
\<close>

lemma leaves_bound: "nodeWf n \<Longrightarrow> 2 ^ nat (nodeHeight n div 2) \<le> length (entries n)"
proof (induction n)
  case (Inner k ver s h l r p)
  then have wf: "nodeWf l" "nodeWf r" and h: "h = max (nodeHeight l) (nodeHeight r) + 1"
    and b: "\<bar>nodeHeight l - nodeHeight r\<bar> \<le> 1" by auto
  note nn = nodeHeight_nonneg [OF wf(1)] nodeHeight_nonneg [OF wf(2)]
  have half: "2 ^ nat ((h - 2) div 2) \<le> length (entries x)" if "x = l \<or> x = r" "2 \<le> h" for x
  proof -
    have "h - 2 \<le> nodeHeight x" using that h b by auto
    then have "nat ((h - 2) div 2) \<le> nat (nodeHeight x div 2)" by (intro nat_mono zdiv_mono1) auto
    then have "(2 :: nat) ^ nat ((h - 2) div 2) \<le> 2 ^ nat (nodeHeight x div 2)" by simp
    also have "\<dots> \<le> length (entries x)" using Inner.IH wf that(1) by auto
    finally show ?thesis .
  qed
  show ?case
  proof (cases "2 \<le> h")
    case True
    then have "nat (h div 2) = Suc (nat ((h - 2) div 2))" by simp
    with half [of l] half [of r] True show ?thesis by simp
  next
    case False
    then have "h div 2 \<le> 0" by simp
    then have "nat (h div 2) = 0" by simp
    then show ?thesis using length_greater_0_conv [of "entries l"] by (simp add: Suc_leI)
  qed
qed simp

definition small :: "nat \<Rightarrow> bool" where
  "small n \<longleftrightarrow> n < 2 ^ 63"

lemma small_mono: "small n \<Longrightarrow> m \<le> n \<Longrightarrow> small m"
  by (simp add: small_def)

lemma height_bound:
  assumes "nodeWf n" "small (length (entries n))"
  shows "nodeHeight n \<le> 125"
proof -
  have "(2 :: nat) ^ nat (nodeHeight n div 2) < 2 ^ 63"
    using leaves_bound [OF assms(1)] assms(2) by (simp only: small_def)
  then have "nat (nodeHeight n div 2) < 63" by (rule power_less_imp_less_exp [rotated]) simp
  then show ?thesis by linarith
qed

subsection \<open>Rotations\<close>

text \<open>The inner node over two subtrees, with exact height and size.\<close>

definition mkInner :: "bytes \<Rightarrow> int \<Rightarrow> Node \<Rightarrow> Node \<Rightarrow> bool \<Rightarrow> Node" where
  "mkInner k ver l r p =
     Inner k ver (nodeSize l + nodeSize r) (max (nodeHeight l) (nodeHeight r) + 1) l r p"

lemma mkInner_simps [simp]:
  "entries (mkInner k ver l r p) = entries l @ entries r"
  "nodeSize (mkInner k ver l r p) = nodeSize l + nodeSize r"
  "nodeHeight (mkInner k ver l r p) = max (nodeHeight l) (nodeHeight r) + 1"
  "clone v (mkInner k ver l r p) = Some (mkInner k v l r False)"
  "getLeftNode (mkInner k ver l r p) = Some l"
  "getRightNode (mkInner k ver l r p) = Some r"
  "calcBalance (mkInner k ver l r p) = Some (nodeHeight l - nodeHeight r)"
  "npersisted (mkInner k ver l r p) = p"
  by (simp_all add: mkInner_def)

lemma calc_exact:
  assumes "0 \<le> nodeSize l + nodeSize r" "nodeSize l + nodeSize r < 2 ^ 63"
    "0 \<le> nodeHeight l" "nodeHeight l \<le> 126" "0 \<le> nodeHeight r" "nodeHeight r \<le> 126"
  shows "calcHeightAndSize (Inner k ver s h l r p) = Some (mkInner k ver l r p)"
proof -
  have "wrapInt 64 (nodeSize l + nodeSize r) = nodeSize l + nodeSize r"
    by (rule wrapInt_id) (use assms in simp_all)
  moreover have "maxInt8 (nodeHeight l) (nodeHeight r) = max (nodeHeight l) (nodeHeight r)"
    by (simp add: maxInt8_def)
  moreover have "wrapInt 8 (max (nodeHeight l) (nodeHeight r) + 1) = max (nodeHeight l) (nodeHeight r) + 1"
    by (rule wrapInt_id) (use assms in simp_all)
  ultimately show ?thesis by (simp add: mkInner_def)
qed

lemma calc_withs:
  assumes "0 \<le> nodeSize l + nodeSize r" "nodeSize l + nodeSize r < 2 ^ 63"
    "0 \<le> nodeHeight l" "nodeHeight l \<le> 126" "0 \<le> nodeHeight r" "nodeHeight r \<le> 126"
  shows "calcHeightAndSize (withLeft l (mkInner k ver l0 r p)) = Some (mkInner k ver l r p)"
    and "calcHeightAndSize (withRight r (mkInner k ver l r0 p)) = Some (mkInner k ver l r p)"
    and "calcHeightAndSize (withKey k (withRight r (mkInner k0 ver l r0 p))) = Some (mkInner k ver l r p)"
  using calc_exact [OF assms] by (simp_all add: mkInner_def)

lemma nodeWf_mkInner:
  "nodeWf (mkInner k ver l r p) \<longleftrightarrow>
     nodeWf l \<and> nodeWf r \<and> (\<forall>p\<in>set (entries l). fst p < k) \<and> k = fst (hd (entries r)) \<and>
     \<bar>nodeHeight l - nodeHeight r\<bar> \<le> 1"
  by (auto simp: mkInner_def)

lemma nodeWf_Inner:
  assumes "nodeWf (Inner k ver s h l r p)"
  shows "Inner k ver s h l r p = mkInner k ver l r p"
  using assms by (simp add: mkInner_def)

text \<open>A node that \<open>balance\<close> gets: its subtrees are in order, and their heights differ by at most two.\<close>

definition nearlyWf :: "bytes \<Rightarrow> Node \<Rightarrow> Node \<Rightarrow> bool" where
  "nearlyWf k l r \<longleftrightarrow> nodeWf l \<and> nodeWf r \<and> (\<forall>p\<in>set (entries l). fst p < k) \<and> k = fst (hd (entries r)) \<and>
     \<bar>nodeHeight l - nodeHeight r\<bar> \<le> 2 \<and> small (length (entries l @ entries r))"

lemma nodeWf_cases:
  assumes "nodeWf n" "0 < nodeHeight n"
  obtains k ver l r p where "n = mkInner k ver l r p"
  using assms by (cases n) (auto simp: mkInner_def)

definition balanced :: "Node \<Rightarrow> Node \<Rightarrow> Node \<Rightarrow> bool" where
  "balanced l r n \<longleftrightarrow> nodeWf n \<and> entries n = entries l @ entries r \<and> \<not> npersisted n \<and>
     (if \<bar>nodeHeight l - nodeHeight r\<bar> \<le> 1 then nodeHeight n = max (nodeHeight l) (nodeHeight r) + 1
      else nodeHeight n = max (nodeHeight l) (nodeHeight r) \<or>
           nodeHeight n = max (nodeHeight l) (nodeHeight r) + 1)"

lemma sizes_small:
  assumes "nodeWf l" "nodeWf r" "small (length (entries l) + length (entries r))"
  shows "0 \<le> nodeSize l + nodeSize r" "nodeSize l + nodeSize r < 2 ^ 63"
    "0 \<le> nodeHeight l" "nodeHeight l \<le> 125" "0 \<le> nodeHeight r" "nodeHeight r \<le> 125"
proof -
  have "small (length (entries l))" "small (length (entries r))"
    by (rule small_mono [OF assms(3)], simp)+
  then show "nodeHeight l \<le> 125" "nodeHeight r \<le> 125" using assms height_bound by auto
  show "0 \<le> nodeSize l + nodeSize r" "0 \<le> nodeHeight l" "0 \<le> nodeHeight r"
    using assms by (simp_all add: nodeSize_entries nodeHeight_nonneg)
  have "int (length (entries l) + length (entries r)) < int (2 ^ 63)"
    using assms(3) unfolding small_def by (simp only: of_nat_less_iff)
  then show "nodeSize l + nodeSize r < 2 ^ 63" using assms(1,2) by (simp add: nodeSize_entries)
qed

lemma rotateRight_mk:
  assumes "0 \<le> nodeSize ll" "0 \<le> nodeSize lr" "0 \<le> nodeSize r" "nodeSize ll + nodeSize lr + nodeSize r < 2 ^ 63"
    "0 \<le> nodeHeight ll" "nodeHeight ll \<le> 125" "0 \<le> nodeHeight lr" "nodeHeight lr \<le> 125"
    "0 \<le> nodeHeight r" "nodeHeight r \<le> 125"
  shows "rotateRight v (mkInner k ver (mkInner kl verl ll lr pl) r p) =
    Some (mkInner kl v ll (mkInner k v lr r False) False, mkInner kl verl ll lr pl)"
proof -
  have 1: "calcHeightAndSize (withLeft lr (mkInner k v l0 r False)) = Some (mkInner k v lr r False)" for l0
    by (rule calc_withs) (use assms in simp_all)
  have 2: "calcHeightAndSize (withRight (mkInner k v lr r False) (mkInner kl v ll r0 False)) =
      Some (mkInner kl v ll (mkInner k v lr r False) False)" for r0
    by (rule calc_withs) (use assms in simp_all)
  show ?thesis by (simp add: rotateRight_def 1 2)
qed

lemma rotateLeft_mk:
  assumes "0 \<le> nodeSize l" "0 \<le> nodeSize rl" "0 \<le> nodeSize rr" "nodeSize l + nodeSize rl + nodeSize rr < 2 ^ 63"
    "0 \<le> nodeHeight l" "nodeHeight l \<le> 125" "0 \<le> nodeHeight rl" "nodeHeight rl \<le> 125"
    "0 \<le> nodeHeight rr" "nodeHeight rr \<le> 125"
  shows "rotateLeft v (mkInner k ver l (mkInner kr verr rl rr pr) p) =
    Some (mkInner kr v (mkInner k v l rl False) rr False, mkInner kr verr rl rr pr)"
proof -
  have 1: "calcHeightAndSize (withRight rl (mkInner k v l r0 False)) = Some (mkInner k v l rl False)" for r0
    by (rule calc_withs) (use assms in simp_all)
  have 2: "calcHeightAndSize (withLeft (mkInner k v l rl False) (mkInner kr v l0 rr False)) =
      Some (mkInner kr v (mkInner k v l rl False) rr False)" for l0
    by (rule calc_withs) (use assms in simp_all)
  show ?thesis by (simp add: rotateLeft_def 1 2)
qed

lemma with_mk [simp]:
  "withLeft l' (mkInner k ver l r p) = Inner k ver (nodeSize l + nodeSize r) (max (nodeHeight l) (nodeHeight r) + 1) l' r p"
  "withRight r' (mkInner k ver l r p) = Inner k ver (nodeSize l + nodeSize r) (max (nodeHeight l) (nodeHeight r) + 1) l r' p"
  by (simp_all add: mkInner_def)

text \<open>The rotations ignore the stored height and size of the node they are given.\<close>

lemma rotate_stale:
  "rotateRight v (Inner k ver s h l r p) = rotateRight v (mkInner k ver l r p)"
  "rotateLeft v (Inner k ver s h l r p) = rotateLeft v (mkInner k ver l r p)"
  by (simp_all add: rotateRight_def rotateLeft_def mkInner_def)

lemma mk_sizes:
  assumes "nodeWf (mkInner k ver l r p)"
  shows "nodeWf l" "nodeWf r" "0 \<le> nodeSize l" "0 \<le> nodeSize r" "0 \<le> nodeHeight l" "0 \<le> nodeHeight r"
    "nodeHeight l < nodeHeight (mkInner k ver l r p)" "nodeHeight r < nodeHeight (mkInner k ver l r p)"
  using assms by (auto simp: nodeWf_mkInner nodeSize_entries nodeHeight_nonneg)

lemma mk_order:
  assumes "nodeWf (mkInner k ver l r p)"
  shows "\<forall>q\<in>set (entries l). fst q < k" "\<forall>q\<in>set (entries r). k \<le> fst q" "k = fst (hd (entries r))"
  using assms nodeWf_kvOK [of r] kvOK_hd [of "entries r"] by (auto simp: nodeWf_mkInner)

lemma balance_left:
  assumes wf: "nearlyWf k l r" and b: "nodeHeight l - nodeHeight r = 2"
  shows "\<exists>n os'. balance v (mkInner k ver l r False) os = Some (n, os @ os') \<and> balanced l r n"
proof -
  from wf have l: "nodeWf l" and r: "nodeWf r" and k: "\<forall>p\<in>set (entries l). fst p < k" "k = fst (hd (entries r))"
    and sm: "small (length (entries l) + length (entries r))" by (auto simp: nearlyWf_def)
  note sz = sizes_small [OF l r sm]
  from b sz obtain kl vl ll lr pl where L: "l = mkInner kl vl ll lr pl"
    by (auto intro: nodeWf_cases [OF l])
  note ls = mk_sizes [OF l [unfolded L]] note lo = mk_order [OF l [unfolded L]]
  have rs: "0 \<le> nodeSize r" using r by (simp add: nodeSize_entries)
  show ?thesis
  proof (cases "nodeHeight lr \<le> nodeHeight ll")
    case True
    have "rotateRight v (mkInner k ver l r False) =
        Some (mkInner kl v ll (mkInner k v lr r False) False, l)"
      unfolding L by (rule rotateRight_mk) (use ls rs sz in \<open>simp_all add: L\<close>)
    then have "balance v (mkInner k ver l r False) os =
        Some (mkInner kl v ll (mkInner k v lr r False) False, os @ [l])"
      using b True by (simp add: balance_def L)
    moreover have "balanced l r (mkInner kl v ll (mkInner k v lr r False) False)"
      using b True l r k lo unfolding balanced_def by (auto simp: L nodeWf_mkInner)
    ultimately show ?thesis by auto
  next
    case False
    from False ls obtain kc vc c1 c2 pc where C: "lr = mkInner kc vc c1 c2 pc"
      by (auto intro: nodeWf_cases [OF ls(2)])
    note cs = mk_sizes [OF ls(2) [unfolded C]] note co = mk_order [OF ls(2) [unfolded C]]
    have 1: "rotateLeft v l = Some (mkInner kc v (mkInner kl v ll c1 False) c2 False, lr)"
      unfolding L C by (rule rotateLeft_mk) (use ls cs sz rs in \<open>simp_all add: L C\<close>)
    have 2: "rotateRight v (mkInner k ver (mkInner kc v (mkInner kl v ll c1 False) c2 False) r False) =
        Some (mkInner kc v (mkInner kl v ll c1 False) (mkInner k v c2 r False) False,
          mkInner kc v (mkInner kl v ll c1 False) c2 False)"
      by (rule rotateRight_mk) (use ls cs rs sz in \<open>simp_all add: L C\<close>)
    have "fst (hd (entries c1)) < kc" using co(1) hd_in_set [of "entries c1"] by simp
    then have ll: "\<forall>q\<in>set (entries ll). fst q < kc" using lo(1,3) by (auto simp: C)
    let ?n = "mkInner kc v (mkInner kl v ll c1 False) (mkInner k v c2 r False) False"
    have "balance v (mkInner k ver l r False) os =
        Some (?n, os @ [l, lr, mkInner kc v (mkInner kl v ll c1 False) c2 False])"
      using b False 1 2 by (simp add: balance_def L rotate_stale)
    moreover have "balanced l r ?n"
      using b False l r k lo co ll unfolding balanced_def by (auto simp: L C nodeWf_mkInner)
    ultimately show ?thesis by auto
  qed
qed


lemma balance_right:
  assumes wf: "nearlyWf k l r" and b: "nodeHeight l - nodeHeight r = - 2"
  shows "\<exists>n os'. balance v (mkInner k ver l r False) os = Some (n, os @ os') \<and> balanced l r n"
proof -
  from wf have l: "nodeWf l" and r: "nodeWf r" and k: "\<forall>p\<in>set (entries l). fst p < k" "k = fst (hd (entries r))"
    and sm: "small (length (entries l) + length (entries r))" by (auto simp: nearlyWf_def)
  note sz = sizes_small [OF l r sm]
  from b sz obtain kr vr rl rr pr where R: "r = mkInner kr vr rl rr pr"
    by (auto intro: nodeWf_cases [OF r])
  note rs = mk_sizes [OF r [unfolded R]] note ro = mk_order [OF r [unfolded R]]
  have ls: "0 \<le> nodeSize l" using l by (simp add: nodeSize_entries)
  have "fst (hd (entries rl)) < kr" using ro(1) hd_in_set [of "entries rl"] by simp
  then have lr: "\<forall>q\<in>set (entries l). fst q < kr" using k by (auto simp: R)
  show ?thesis
  proof (cases "nodeHeight rl \<le> nodeHeight rr")
    case True
    have "rotateLeft v (mkInner k ver l r False) =
        Some (mkInner kr v (mkInner k v l rl False) rr False, r)"
      unfolding R by (rule rotateLeft_mk) (use rs ls sz in \<open>simp_all add: R\<close>)
    then have "balance v (mkInner k ver l r False) os =
        Some (mkInner kr v (mkInner k v l rl False) rr False, os @ [r])"
      using b True by (simp add: balance_def R)
    moreover have "balanced l r (mkInner kr v (mkInner k v l rl False) rr False)"
      using b True l r k ro lr unfolding balanced_def by (auto simp: R nodeWf_mkInner)
    ultimately show ?thesis by auto
  next
    case False
    from False rs obtain kc vc c1 c2 pc where C: "rl = mkInner kc vc c1 c2 pc"
      by (auto intro: nodeWf_cases [OF rs(1)])
    note cs = mk_sizes [OF rs(1) [unfolded C]] note co = mk_order [OF rs(1) [unfolded C]]
    have 1: "rotateRight v r = Some (mkInner kc v c1 (mkInner kr v c2 rr False) False, rl)"
      unfolding R C by (rule rotateRight_mk) (use rs cs sz ls in \<open>simp_all add: R C\<close>)
    have 2: "rotateLeft v (mkInner k ver l (mkInner kc v c1 (mkInner kr v c2 rr False) False) False) =
        Some (mkInner kc v (mkInner k v l c1 False) (mkInner kr v c2 rr False) False,
          mkInner kc v c1 (mkInner kr v c2 rr False) False)"
      by (rule rotateLeft_mk) (use rs cs ls sz in \<open>simp_all add: R C\<close>)
    have "fst (hd (entries c1)) < kc" using co(1) hd_in_set [of "entries c1"] by simp
    then have lc: "\<forall>q\<in>set (entries l). fst q < kc" using k by (auto simp: R C)
    let ?n = "mkInner kc v (mkInner k v l c1 False) (mkInner kr v c2 rr False) False"
    have "balance v (mkInner k ver l r False) os =
        Some (?n, os @ [r, mkInner kc v c1 (mkInner kr v c2 rr False) False, rl])"
      using b False 1 2 by (simp add: balance_def R rotate_stale)
    moreover have "balanced l r ?n"
      using b False l r k ro co lc unfolding balanced_def by (auto simp: R C nodeWf_mkInner)
    ultimately show ?thesis by auto
  qed
qed

lemma balance_ok:
  assumes "nearlyWf k l r"
  shows "\<exists>n os'. balance v (mkInner k ver l r False) os = Some (n, os @ os') \<and> balanced l r n"
proof -
  consider "nodeHeight l - nodeHeight r = 2" | "nodeHeight l - nodeHeight r = - 2"
    | "\<bar>nodeHeight l - nodeHeight r\<bar> \<le> 1"
    using assms by (fastforce simp: nearlyWf_def)
  then show ?thesis
  proof cases
    case 3
    then have "\<not> 1 < nodeHeight l - nodeHeight r" "\<not> nodeHeight l - nodeHeight r < - 1" by linarith+
    then have "balance v (mkInner k ver l r False) os = Some (mkInner k ver l r False, os)"
      by (simp add: balance_def)
    with 3 assms show ?thesis by (auto simp: balanced_def nodeWf_mkInner nearlyWf_def)
  qed (use assms balance_left balance_right in blast)+
qed


subsection \<open>Insertion\<close>

lemma kvSet_mem: "p \<in> set (kvSet k v ps) \<Longrightarrow> fst p = k \<or> fst p \<in> fst ` set ps"
  using fst_set_kvSet [of k v ps] by blast

lemma kvSet_hd: "ps \<noteq> [] \<Longrightarrow> fst (hd ps) \<le> k \<Longrightarrow> fst (hd (kvSet k v ps)) = fst (hd ps)"
  by (cases ps) auto

lemma length_kvSet_eq:
  "kvOK ps \<Longrightarrow> length (kvSet k v ps) = (if k \<in> fst ` set ps then length ps else Suc (length ps))"
  by (induction k v ps rule: kvSet.induct) auto

definition setOK :: "bytes \<Rightarrow> bytes \<Rightarrow> Node \<Rightarrow> Node \<Rightarrow> bool \<Rightarrow> bool" where
  "setOK key value n n' updated \<longleftrightarrow> nodeWf n' \<and> entries n' = kvSet key value (entries n) \<and>
     updated = (key \<in> fst ` set (entries n)) \<and>
     (if updated then nodeHeight n' = nodeHeight n
      else nodeHeight n' = nodeHeight n \<or> nodeHeight n' = nodeHeight n + 1)"

lemma set_nearly:
  assumes n: "nodeWf (mkInner k ver l r p)" and sm: "small (Suc (length (entries l @ entries r)))"
  shows "key < k \<Longrightarrow> setOK key value l l' False \<Longrightarrow> nearlyWf k l' r"
    and "\<not> key < k \<Longrightarrow> setOK key value r r' False \<Longrightarrow> nearlyWf k l r'"
proof -
  note ms = mk_sizes [OF n] and mo = mk_order [OF n]
  have h: "\<bar>nodeHeight l - nodeHeight r\<bar> \<le> 1" using n by (simp add: nodeWf_mkInner)
  show "nearlyWf k l' r" if "key < k" "setOK key value l l' False"
  proof -
    have "small (length (entries l' @ entries r))"
      by (rule small_mono [OF sm]) (use that(2) length_kvSet [of key "value" "entries l"] in \<open>simp add: setOK_def\<close>)
    moreover have "\<forall>q\<in>set (entries l'). fst q < k"
      using that mo(1) by (fastforce simp: setOK_def dest: kvSet_mem)
    ultimately show ?thesis using that h ms mo by (auto simp: setOK_def nearlyWf_def)
  qed
  show "nearlyWf k l r'" if "\<not> key < k" "setOK key value r r' False"
  proof -
    have "small (length (entries l @ entries r'))"
      by (rule small_mono [OF sm]) (use that(2) length_kvSet [of key "value" "entries r"] in \<open>simp add: setOK_def\<close>)
    moreover have "k = fst (hd (entries r'))"
      using that mo(3) kvSet_hd [of "entries r" key "value"] by (simp add: setOK_def)
    ultimately show ?thesis using that h ms mo by (auto simp: setOK_def nearlyWf_def)
  qed
qed

lemma kvSet_children:
  assumes n: "nodeWf (mkInner k ver l r p)"
  shows "key < k \<Longrightarrow> kvSet key value (entries l @ entries r) = kvSet key value (entries l) @ entries r"
    and "\<not> key < k \<Longrightarrow> kvSet key value (entries l @ entries r) = entries l @ kvSet key value (entries r)"
    and "key < k \<Longrightarrow> key \<in> fst ` set (entries l @ entries r) \<longleftrightarrow> key \<in> fst ` set (entries l)"
    and "\<not> key < k \<Longrightarrow> key \<in> fst ` set (entries l @ entries r) \<longleftrightarrow> key \<in> fst ` set (entries r)"
proof -
  note mo = mk_order [OF n]
  have ok: "kvOK (entries l @ entries r)" using nodeWf_kvOK [OF n] by simp
  show "key < k \<Longrightarrow> kvSet key value (entries l @ entries r) = kvSet key value (entries l) @ entries r"
    using mo by (intro kvSet_append(1) [OF ok]) force
  show "\<not> key < k \<Longrightarrow> kvSet key value (entries l @ entries r) = entries l @ kvSet key value (entries r)"
    using mo by (intro kvSet_append(2) [OF ok]) force
  show "key < k \<Longrightarrow> key \<in> fst ` set (entries l @ entries r) \<longleftrightarrow> key \<in> fst ` set (entries l)"
    using mo by force
  show "\<not> key < k \<Longrightarrow> key \<in> fst ` set (entries l @ entries r) \<longleftrightarrow> key \<in> fst ` set (entries r)"
    using mo by force
qed

text \<open>The end of a step: recompute height and size, then balance.\<close>

lemma calc_balance:
  assumes "nearlyWf k l r"
  shows "\<exists>n os'. calcHeightAndSize (Inner k ver s h l r False) = Some (mkInner k ver l r False) \<and>
    balance v (mkInner k ver l r False) os = Some (n, os @ os') \<and> balanced l r n"
proof -
  from assms have "nodeWf l" "nodeWf r" "small (length (entries l) + length (entries r))"
    by (auto simp: nearlyWf_def)
  from sizes_small [OF this] have "calcHeightAndSize (Inner k ver s h l r False) = Some (mkInner k ver l r False)"
    by (intro calc_exact) simp_all
  with balance_ok [OF assms] show ?thesis by blast
qed

lemma balanced_height:
  assumes "balanced l r n" "\<bar>nodeHeight l - nodeHeight r\<bar> \<le> 2"
  shows "nodeHeight n = max (nodeHeight l) (nodeHeight r) \<or> nodeHeight n = max (nodeHeight l) (nodeHeight r) + 1"
    "\<bar>nodeHeight l - nodeHeight r\<bar> \<le> 1 \<Longrightarrow> nodeHeight n = max (nodeHeight l) (nodeHeight r) + 1"
  using assms by (auto simp: balanced_def split: if_splits)

lemma recursiveSet_inner:
  assumes n: "nodeWf (mkInner k ver l r p)" and sm: "small (Suc (length (entries l @ entries r)))"
    and rec: "\<exists>c' upd os'. recursiveSet v (if key < k then l else r) key val (os @ [mkInner k ver l r p]) =
      Some (c', upd, (os @ [mkInner k ver l r p]) @ os') \<and> setOK key val (if key < k then l else r) c' upd"
  shows "\<exists>n' upd os'. recursiveSet v (mkInner k ver l r p) key val os = Some (n', upd, os @ os') \<and>
    setOK key val (mkInner k ver l r p) n' upd"
proof -
  obtain c' upd os' where c: "recursiveSet v (if key < k then l else r) key val (os @ [mkInner k ver l r p]) =
      Some (c', upd, os @ mkInner k ver l r p # os')" "setOK key val (if key < k then l else r) c' upd"
    using rec by auto
  note ms = mk_sizes [OF n] note mo = mk_order [OF n] note kc = kvSet_children(1,2) [OF n, of key val] kvSet_children(3,4) [OF n, of key]
  let ?l = "if key < k then c' else l" and ?r = "if key < k then r else c'"
  let ?n = "Inner k v (nodeSize l + nodeSize r) (max (nodeHeight l) (nodeHeight r) + 1) ?l ?r False"
  have eq: "recursiveSet v (mkInner k ver l r p) key val os =
      (if upd then Some (?n, upd, os @ mkInner k ver l r p # os')
       else do { n2 \<leftarrow> calcHeightAndSize ?n; (n3, os2) \<leftarrow> balance v n2 (os @ mkInner k ver l r p # os');
                 Some (n3, upd, os2) })"
    using c(1) by (cases "key < k") (simp_all add: mkInner_def del: option_bind_Some_iff)
  have len: "length (kvSet key val (entries x)) = length (entries x)" if "nodeWf x" "key \<in> fst ` set (entries x)" for x
    using that by (simp add: length_kvSet_eq nodeWf_kvOK)
  show ?thesis
  proof (cases upd)
    case True
    let ?x = "if key < k then l else r"
    from c(2) True have c': "nodeWf c'" "entries c' = kvSet key val (entries ?x)"
      "key \<in> fst ` set (entries ?x)" "nodeHeight c' = nodeHeight ?x" by (simp_all add: setOK_def)
    have x: "nodeWf ?x" using ms by simp
    then have sz: "nodeSize c' = nodeSize ?x" using c' len [of ?x] by (simp add: nodeSize_entries)
    have hb: "\<bar>nodeHeight l - nodeHeight r\<bar> \<le> 1" using n by (simp add: nodeWf_mkInner)
    have "setOK key val (mkInner k ver l r p) ?n True"
    proof (cases "key < k")
      case lt: True
      have "\<forall>q\<in>set (entries c'). fst q < k" using c' lt mo(1) by (fastforce dest: kvSet_mem)
      with lt c' sz hb ms mo(3) kc(1,3) show ?thesis by (simp add: setOK_def)
    next
      case ge: False
      have "fst (hd (entries c')) = k" using ge c' mo(3) kvSet_hd [of "entries r" key val] by simp
      with ge c' sz hb ms mo(1) kc(2,4) show ?thesis by (simp add: setOK_def)
    qed
    moreover have "recursiveSet v (mkInner k ver l r p) key val os = Some (?n, True, os @ mkInner k ver l r p # os')"
      unfolding eq using True by simp
    ultimately show ?thesis by blast
  next
    case False
    let ?x = "if key < k then l else r"
    from c(2) False have c': "entries c' = kvSet key val (entries ?x)" "key \<notin> fst ` set (entries ?x)"
      "nodeHeight c' = nodeHeight ?x \<or> nodeHeight c' = nodeHeight ?x + 1" by (simp_all add: setOK_def)
    have hb: "\<bar>nodeHeight l - nodeHeight r\<bar> \<le> 1" using n by (simp add: nodeWf_mkInner)
    have near: "nearlyWf k ?l ?r"
      using set_nearly [OF n sm, of key val c'] c(2) False by (cases "key < k") simp_all
    from calc_balance [OF this] obtain n' os2 where b:
      "calcHeightAndSize ?n = Some (mkInner k v ?l ?r False)"
      "balance v (mkInner k v ?l ?r False) (os @ mkInner k ver l r p # os') = Some (n', (os @ mkInner k ver l r p # os') @ os2)"
      "balanced ?l ?r n'" by blast
    have e: "entries n' = entries ?l @ entries ?r" "nodeWf n'" using b(3) by (simp_all add: balanced_def)
    have ent: "entries n' = kvSet key val (entries (mkInner k ver l r p))"
      "key \<notin> fst ` set (entries (mkInner k ver l r p))"
      using e(1) c'(1,2) kc by (cases "key < k"; simp)+
    have near2: "\<bar>nodeHeight ?l - nodeHeight ?r\<bar> \<le> 2" using near by (simp add: nearlyWf_def)
    have "nodeHeight n' = nodeHeight (mkInner k ver l r p) \<or> nodeHeight n' = nodeHeight (mkInner k ver l r p) + 1"
      using balanced_height [OF b(3) near2] c'(3) hb
      by (cases "key < k") (auto simp: max_def split: if_splits)
    with ent e(2) have "setOK key val (mkInner k ver l r p) n' False"
      unfolding setOK_def by simp
    moreover have "recursiveSet v (mkInner k ver l r p) key val os =
        Some (n', False, os @ (mkInner k ver l r p # os' @ os2))"
      unfolding eq b(1) using False b(2) by simp
    ultimately show ?thesis by blast
  qed
qed


lemma recursiveSet_ok:
  assumes "nodeWf n" "small (Suc (length (entries n)))"
  shows "\<exists>n' upd os'. recursiveSet v n key val os = Some (n', upd, os @ os') \<and> setOK key val n n' upd"
  using assms
proof (induction n arbitrary: os)
  case (Leaf k w ver p)
  show ?case
    by (cases "key < k"; cases "k < key") (auto simp: NewNode_def setOK_def)
next
  case (Inner k ver s h l r p)
  note mk = nodeWf_Inner [OF Inner.prems(1)]
  have n: "nodeWf (mkInner k ver l r p)" using Inner.prems(1) mk by simp
  have sm: "small (Suc (length (entries l @ entries r)))" using Inner.prems(2) by simp
  have sl: "small (Suc (length (entries l)))" "small (Suc (length (entries r)))"
    by (rule small_mono [OF sm], simp)+
  show ?case unfolding mk
  proof (rule recursiveSet_inner [OF n sm], cases "key < k")
    let ?os = "os @ [mkInner k ver l r p]"
    case True
    with Inner.IH(1) [OF mk_sizes(1) [OF n] sl(1), of ?os]
    show "\<exists>c' upd os'. recursiveSet v (if key < k then l else r) key val ?os = Some (c', upd, ?os @ os') \<and>
        setOK key val (if key < k then l else r) c' upd" by simp
  next
    let ?os = "os @ [mkInner k ver l r p]"
    case False
    with Inner.IH(2) [OF mk_sizes(2) [OF n] sl(2), of ?os]
    show "\<exists>c' upd os'. recursiveSet v (if key < k then l else r) key val ?os = Some (c', upd, ?os @ os') \<and>
        setOK key val (if key < k then l else r) c' upd" by simp
  qed
qed

subsection \<open>Removal\<close>

text \<open>What \<open>recursiveRemove\<close> returns for a subtree that holds the key.\<close>

definition removeOK :: "bytes \<Rightarrow> Node \<Rightarrow> Node option \<Rightarrow> bytes option \<Rightarrow> bytes option \<Rightarrow> Node list \<Rightarrow> bool" where
  "removeOK key n n' newKey value os \<longleftrightarrow> os \<noteq> [] \<and> value = map_of (entries n) key \<and>
     (case n' of
        None \<Rightarrow> isLeaf n \<and> newKey = None \<and> kvDelete key (entries n) = []
      | Some m \<Rightarrow> nodeWf m \<and> entries m = kvDelete key (entries n) \<and> \<not> isLeaf n \<and>
          (nodeHeight m = nodeHeight n \<or> nodeHeight m = nodeHeight n - 1) \<and>
          newKey = (if key = fst (hd (entries n)) then Some (fst (hd (entries m))) else None))"

lemma kvDelete_children:
  assumes n: "nodeWf (mkInner k ver l r p)"
  shows "key < k \<Longrightarrow> kvDelete key (entries l @ entries r) = kvDelete key (entries l) @ entries r"
    and "\<not> key < k \<Longrightarrow> kvDelete key (entries l @ entries r) = entries l @ kvDelete key (entries r)"
    and "key < k \<Longrightarrow> map_of (entries l @ entries r) key = map_of (entries l) key"
    and "\<not> key < k \<Longrightarrow> map_of (entries l @ entries r) key = map_of (entries r) key"
proof -
  note mo = mk_order [OF n]
  have out: "key < k \<Longrightarrow> \<forall>q\<in>set (entries r). fst q \<noteq> key" "\<not> key < k \<Longrightarrow> \<forall>q\<in>set (entries l). fst q \<noteq> key"
    using mo by force+
  show "key < k \<Longrightarrow> kvDelete key (entries l @ entries r) = kvDelete key (entries l) @ entries r"
    "\<not> key < k \<Longrightarrow> kvDelete key (entries l @ entries r) = entries l @ kvDelete key (entries r)"
    using out by (simp_all add: kvDelete_out)
  have none: "map_of xs key = None" if "\<forall>q\<in>set xs. fst q \<noteq> key" for xs :: "(bytes \<times> bytes) list"
    using that by (auto simp: map_of_eq_None_iff)
  show "key < k \<Longrightarrow> map_of (entries l @ entries r) key = map_of (entries l) key"
    "\<not> key < k \<Longrightarrow> map_of (entries l @ entries r) key = map_of (entries r) key"
    using none [OF out(1)] none [OF out(2)] by (simp_all add: map_add_def split: option.splits)
qed

lemma remove_leaf:
  "key = k \<Longrightarrow> recursiveRemove v (Leaf k w ver p) key [] = Some (None, None, Some w, [Leaf k w ver p]) \<and>
     removeOK key (Leaf k w ver p) None None (Some w) [Leaf k w ver p]"
  by (simp add: removeOK_def kvDelete_def)

lemma hd_append_entries [simp]: "hd (entries l @ xs) = hd (entries l)"
  by simp

lemma removeOK_nearly_left:
  assumes n: "nodeWf (mkInner k ver l r p)" and sm: "small (length (entries l @ entries r))"
    and c: "removeOK key l (Some l') nk w os" "key < k"
  shows "nearlyWf k l' r"
proof -
  note ms = mk_sizes [OF n] note mo = mk_order [OF n]
  have h: "\<bar>nodeHeight l - nodeHeight r\<bar> \<le> 1" using n by (simp add: nodeWf_mkInner)
  from c(1) have l': "nodeWf l'" "entries l' = kvDelete key (entries l)"
    "nodeHeight l' = nodeHeight l \<or> nodeHeight l' = nodeHeight l - 1" by (auto simp: removeOK_def)
  have "small (length (entries l' @ entries r))"
    by (rule small_mono [OF sm]) (use l' length_kvDelete [of key "entries l"] in simp)
  moreover have "\<forall>q\<in>set (entries l'). fst q < k" using l' mo(1) by (simp add: kvDelete_def)
  moreover have "\<bar>nodeHeight l' - nodeHeight r\<bar> \<le> 2" using l'(3) h by linarith
  ultimately show ?thesis using l' ms(2) mo(3) unfolding nearlyWf_def by blast
qed

lemma removeOK_nearly_right:
  assumes n: "nodeWf (mkInner k ver l r p)" and sm: "small (length (entries l @ entries r))"
    and c: "removeOK key r (Some r') nk w os" "\<not> key < k"
  shows "nearlyWf (case nk of None \<Rightarrow> k | Some k' \<Rightarrow> k') l r'"
proof -
  note ms = mk_sizes [OF n] note mo = mk_order [OF n]
  have h: "\<bar>nodeHeight l - nodeHeight r\<bar> \<le> 1" using n by (simp add: nodeWf_mkInner)
  from c(1) have r': "nodeWf r'" "entries r' = kvDelete key (entries r)"
    "nodeHeight r' = nodeHeight r \<or> nodeHeight r' = nodeHeight r - 1"
    "nk = (if key = fst (hd (entries r)) then Some (fst (hd (entries r'))) else None)"
    by (auto simp: removeOK_def)
  let ?k = "case nk of None \<Rightarrow> k | Some k' \<Rightarrow> k'"
  have hd: "?k = fst (hd (entries r'))"
  proof (cases "key = fst (hd (entries r))")
    case False
    obtain e es where "entries r = e # es" by (cases "entries r") auto
    with False r' mo(3) show ?thesis by (auto simp: kvDelete_def)
  qed (use r' in simp)
  have "set (entries r') \<subseteq> set (entries r)" unfolding r'(2) by (auto simp: kvDelete_def)
  then have "hd (entries r') \<in> set (entries r)" using hd_in_set [OF entries_ne, of r'] by blast
  then have "\<forall>q\<in>set (entries l). fst q < ?k" using mo(1,2) hd by force
  moreover have "small (length (entries l @ entries r'))"
    by (rule small_mono [OF sm]) (use r' length_kvDelete [of key "entries r"] in simp)
  moreover have "\<bar>nodeHeight l - nodeHeight r'\<bar> \<le> 2" using r'(3) h by linarith
  ultimately show ?thesis using r' ms(1) hd unfolding nearlyWf_def by blast
qed


lemma recursiveRemove_left:
  assumes n: "nodeWf (mkInner k ver l r p)" and sm: "small (length (entries l @ entries r))" and lt: "key < k"
    and rec: "recursiveRemove v l key [] = Some (l', nk, w, os)" "removeOK key l l' nk w os"
  shows "\<exists>n' nk' os'. recursiveRemove v (mkInner k ver l r p) key [] = Some (n', nk', w, os') \<and>
    removeOK key (mkInner k ver l r p) n' nk' w os'"
proof -
  note ms = mk_sizes [OF n] note mo = mk_order [OF n]
    note kd = kvDelete_children [OF n, of key]
  have h: "\<bar>nodeHeight l - nodeHeight r\<bar> \<le> 1" using n by (simp add: nodeWf_mkInner)
  have os: "os \<noteq> []" "w = map_of (entries l) key" using rec(2) by (simp_all add: removeOK_def)
  let ?n = "mkInner k ver l r p"
  show ?thesis
  proof (cases l')
    case None
    then have l: "isLeaf l" "kvDelete key (entries l) = []" using rec(2) by (auto simp: removeOK_def)
    from l(1) obtain kl wl vl pl where L: "l = Leaf kl wl vl pl" by (cases l) auto
    with l(2) have kl: "kl = key" by (simp add: kvDelete_def split: if_splits)
    have "recursiveRemove v ?n key [] = Some (Some r, Some k, w, os @ [?n])"
      using rec(1) None lt os by (simp add: mkInner_def)
    moreover have "removeOK key ?n (Some r) (Some k) w (os @ [?n])"
      using ms mo(3) kd(1,3) [OF lt] l(2) os(2) h L kl nodeHeight_nonneg [OF ms(2)]
      by (auto simp: removeOK_def mkInner_def)
    ultimately show ?thesis by blast
  next
    case (Some m)
    note near = removeOK_nearly_left [OF n sm rec(2) [unfolded Some] lt]
    from rec(2) Some have m: "entries m = kvDelete key (entries l)" "nodeHeight m = nodeHeight l \<or> nodeHeight m = nodeHeight l - 1"
      "nk = (if key = fst (hd (entries l)) then Some (fst (hd (entries m))) else None)" by (auto simp: removeOK_def)
    from calc_balance [OF near] obtain n' os2 where b:
      "calcHeightAndSize (Inner k v (nodeSize l + nodeSize r) (max (nodeHeight l) (nodeHeight r) + 1) m r False) =
        Some (mkInner k v m r False)"
      "balance v (mkInner k v m r False) (os @ [?n]) = Some (n', (os @ [?n]) @ os2)" "balanced m r n'" by blast
    have run: "recursiveRemove v ?n key [] = Some (Some n', nk, w, (os @ [?n]) @ os2)"
      using rec(1) Some lt os b(1,2) by (simp add: mkInner_def)
    have hn: "nodeHeight n' = nodeHeight ?n \<or> nodeHeight n' = nodeHeight ?n - 1"
      using balanced_height [OF b(3)] m(2) h by (auto simp: max_def split: if_splits)
    have e: "entries n' = entries m @ entries r" "nodeWf n'" using b(3) by (simp_all add: balanced_def)
    from e m(3) have "nk = (if key = fst (hd (entries ?n)) then Some (fst (hd (entries n'))) else None)" by simp
    moreover have "w = map_of (entries ?n) key" "entries n' = kvDelete key (entries ?n)"
      using os(2) kd(1,3) [OF lt] e(1) m(1) by simp_all
    moreover have "\<not> isLeaf ?n" "(os @ [?n]) @ os2 \<noteq> []" by (simp_all add: mkInner_def)
    ultimately have "removeOK key ?n (Some n') nk w ((os @ [?n]) @ os2)"
      unfolding removeOK_def option.case using hn e(2) by blast
    with run show ?thesis by blast
  qed
qed

lemma recursiveRemove_right:
  assumes n: "nodeWf (mkInner k ver l r p)" and sm: "small (length (entries l @ entries r))" and ge: "\<not> key < k"
    and rec: "recursiveRemove v r key [] = Some (r', nk, w, os)" "removeOK key r r' nk w os"
  shows "\<exists>n' nk' os'. recursiveRemove v (mkInner k ver l r p) key [] = Some (n', nk', w, os') \<and>
    removeOK key (mkInner k ver l r p) n' nk' w os'"
proof -
  note ms = mk_sizes [OF n] note mo = mk_order [OF n]
  note kd = kvDelete_children [OF n, of key]
  have h: "\<bar>nodeHeight l - nodeHeight r\<bar> \<le> 1" using n by (simp add: nodeWf_mkInner)
  have os: "os \<noteq> []" "w = map_of (entries r) key" using rec(2) by (simp_all add: removeOK_def)
  have nhd: "key \<noteq> fst (hd (entries l))" using mo(1) hd_in_set [OF entries_ne, of l] ge by auto
  let ?n = "mkInner k ver l r p"
  show ?thesis
  proof (cases r')
    case None
    then have r: "isLeaf r" "kvDelete key (entries r) = []" using rec(2) by (auto simp: removeOK_def)
    have "recursiveRemove v ?n key [] = Some (Some l, None, w, os @ [?n])"
      using rec(1) None ge os by (simp add: mkInner_def)
    moreover have "nodeHeight r = 0" using r(1) by (cases r) auto
    then have "removeOK key ?n (Some l) None w (os @ [?n])"
      using ms nhd kd(2,4) [OF ge] r(2) os(2) h nodeHeight_nonneg [OF ms(1)]
      by (auto simp: removeOK_def mkInner_def)
    ultimately show ?thesis by blast
  next
    case (Some m)
    let ?k = "case nk of None \<Rightarrow> k | Some k' \<Rightarrow> k'"
    note near = removeOK_nearly_right [OF n sm rec(2) [unfolded Some] ge]
    from rec(2) Some have m: "entries m = kvDelete key (entries r)"
      "nodeHeight m = nodeHeight r \<or> nodeHeight m = nodeHeight r - 1" by (auto simp: removeOK_def)
    from calc_balance [OF near] obtain n' os2 where b:
      "calcHeightAndSize (Inner ?k v (nodeSize l + nodeSize r) (max (nodeHeight l) (nodeHeight r) + 1) l m False) =
        Some (mkInner ?k v l m False)"
      "balance v (mkInner ?k v l m False) (os @ [?n]) = Some (n', (os @ [?n]) @ os2)" "balanced l m n'" by blast
    have run: "recursiveRemove v ?n key [] = Some (Some n', None, w, (os @ [?n]) @ os2)"
      using rec(1) Some ge os b(1,2) by (cases nk) (simp_all add: mkInner_def)
    have hn: "nodeHeight n' = nodeHeight ?n \<or> nodeHeight n' = nodeHeight ?n - 1"
      using balanced_height [OF b(3)] m(2) h by (auto simp: max_def split: if_splits)
    have e: "entries n' = entries l @ entries m" "nodeWf n'" using b(3) by (simp_all add: balanced_def)
    from nhd have "None = (if key = fst (hd (entries ?n)) then Some (fst (hd (entries n'))) else None)" by simp
    moreover have "w = map_of (entries ?n) key" "entries n' = kvDelete key (entries ?n)"
      using os(2) kd(2,4) [OF ge] e(1) m(1) by simp_all
    moreover have "\<not> isLeaf ?n" "(os @ [?n]) @ os2 \<noteq> []" by (simp_all add: mkInner_def)
    ultimately have "removeOK key ?n (Some n') None w ((os @ [?n]) @ os2)"
      unfolding removeOK_def option.case using hn e(2) by blast
    with run show ?thesis by blast
  qed
qed

lemma mk_small:
  assumes "small (length (entries l @ entries r))"
  shows "small (length (entries l))" "small (length (entries r))"
  by (rule small_mono [OF assms], simp)+

lemma recursiveRemove_found:
  assumes "nodeWf n" "small (length (entries n))" "key \<in> fst ` set (entries n)"
  shows "\<exists>n' nk w os. recursiveRemove v n key [] = Some (n', nk, w, os) \<and> removeOK key n n' nk w os"
  using assms
proof (induction n)
  case (Leaf k w ver p)
  then show ?case using remove_leaf [of key k v w ver p] by auto
next
  case (Inner k ver s h l r p)
  note mk = nodeWf_Inner [OF Inner.prems(1)]
  have n: "nodeWf (mkInner k ver l r p)" using Inner.prems(1) mk by simp
  have sm: "small (length (entries l @ entries r))" using Inner.prems(2) by simp
  show ?case
  proof (cases "key < k")
    case True
    with Inner.prems(3) have "key \<in> fst ` set (entries l)" using kvSet_children(3) [OF n True] by simp
    from Inner.IH(1) [OF mk_sizes(1) [OF n] mk_small(1) [OF sm] this] recursiveRemove_left [OF n sm True]
    show ?thesis unfolding mk by blast
  next
    case False
    with Inner.prems(3) have "key \<in> fst ` set (entries r)" using kvSet_children(4) [OF n False] by simp
    from Inner.IH(2) [OF mk_sizes(2) [OF n] mk_small(2) [OF sm] this] recursiveRemove_right [OF n sm False]
    show ?thesis unfolding mk by blast
  qed
qed

lemma recursiveRemove_absent:
  "nodeWf n \<Longrightarrow> key \<notin> fst ` set (entries n) \<Longrightarrow> recursiveRemove v n key [] = Some (Some n, None, None, [])"
proof (induction n)
  case (Inner k ver s h l r p)
  then have "recursiveRemove v l key [] = Some (Some l, None, None, [])"
    "recursiveRemove v r key [] = Some (Some r, None, None, [])" by (simp_all add: image_Un)
  then show ?case by simp
qed simp

subsection \<open>Lookups\<close>

definition rank :: "bytes \<Rightarrow> (bytes \<times> bytes) list \<Rightarrow> nat" where
  "rank key ps = length (filter (\<lambda>p. fst p < key) ps)"

lemma rank_le: "rank key ps \<le> length ps"
  by (simp add: rank_def)

lemma wrap64_id: "0 \<le> x \<Longrightarrow> x < 2 ^ 63 \<Longrightarrow> wrapInt 64 x = x"
  by (rule wrapInt_id) simp_all

lemma small_int: "small n \<Longrightarrow> int n < 2 ^ 63"
  unfolding small_def using of_nat_less_iff [of n "2 ^ 63", where 'a = int] by simp

lemma nodeGet_ok:
  assumes "nodeWf n" "small (length (entries n))"
  shows "nodeGet n key = (int (rank key (entries n)), map_of (entries n) key)"
  using assms
proof (induction n)
  case (Leaf k w ver p)
  then show ?case by (auto simp: rank_def)
next
  case (Inner k ver s h l r p)
  note mk = nodeWf_Inner [OF Inner.prems(1)]
  have n: "nodeWf (mkInner k ver l r p)" using Inner.prems(1) mk by simp
  have sm: "small (length (entries l @ entries r))" using Inner.prems(2) by simp
  note ms = mk_sizes [OF n] note mo = mk_order [OF n] note kd = kvDelete_children(3,4) [OF n, of key]
  show ?case
  proof (cases "key < k")
    case True
    then have "filter (\<lambda>p. fst p < key) (entries r) = []" using mo(2) by (force simp: filter_empty_conv)
    with Inner.IH(1) [OF ms(1) mk_small(1) [OF sm]] True kd show ?thesis by (simp add: rank_def)
  next
    case False
    then have "filter (\<lambda>p. fst p < key) (entries l) = entries l" using mo(1) by (force simp: filter_id_conv)
    then have rk: "rank key (entries l @ entries r) = length (entries l) + rank key (entries r)"
      by (simp add: rank_def)
    have s: "s = int (length (entries l)) + int (length (entries r))" using Inner.prems(1) by (simp add: nodeSize_entries)
    have "int (length (entries l) + length (entries r)) < 2 ^ 63" using small_int [OF sm] by simp
    then have "wrapInt 64 (s - nodeSize r) = int (length (entries l))"
      "wrapInt 64 (int (rank key (entries r)) + int (length (entries l))) = int (rank key (entries r) + length (entries l))"
      using s ms(2) rank_le [of key "entries r"] by (simp_all add: nodeSize_entries wrap64_id)
    with Inner.IH(2) [OF ms(2) mk_small(2) [OF sm]] False kd rk show ?thesis by simp
  qed
qed

lemma nodeHas_ok: "nodeWf n \<Longrightarrow> nodeHas n key \<longleftrightarrow> key \<in> fst ` set (entries n)"
proof (induction n)
  case (Inner k ver s h l r p)
  note mk = nodeWf_Inner [OF Inner.prems(1)]
  have n: "nodeWf (mkInner k ver l r p)" using Inner.prems(1) mk by simp
  note ms = mk_sizes [OF n] note mo = mk_order [OF n] note kc = kvSet_children(3,4) [OF n, of key]
  have "k \<in> fst ` set (entries r)" using mo(3) hd_in_set [OF entries_ne, of r] by auto
  with Inner.IH ms kc show ?case by (cases "key < k") auto
qed auto

lemma getByIndex_ok:
  assumes "nodeWf n" "small (length (entries n))" "0 \<le> i" "i < 2 ^ 63"
  shows "getByIndex n i = (if i < int (length (entries n)) then Some (entries n ! nat i) else None)"
  using assms
proof (induction n arbitrary: i)
  case (Leaf k w ver p)
  then show ?case by auto
next
  case (Inner k ver s h l r p)
  note mk = nodeWf_Inner [OF Inner.prems(1)]
  have n: "nodeWf (mkInner k ver l r p)" using Inner.prems(1) mk by simp
  have sm: "small (length (entries l @ entries r))" using Inner.prems(2) by simp
  note ms = mk_sizes [OF n] note sl = nodeSize_entries [OF ms(1)]
  show ?case
  proof (cases "i < nodeSize l")
    case True
    then have "nat i < length (entries l)" using sl Inner.prems(3) by linarith
    with True Inner.IH(1) [OF ms(1) mk_small(1) [OF sm] Inner.prems(3,4)] sl show ?thesis by (simp add: nth_append)
  next
    case False
    have "0 \<le> nodeSize l" using sl by simp
    with False Inner.prems(4) have b: "0 \<le> i - nodeSize l" "i - nodeSize l < 2 ^ 63" by linarith+
    with wrap64_id [OF b] show ?thesis
      using Inner.IH(2) [OF ms(2) mk_small(2) [OF sm], of "i - nodeSize l"] False sl
      by (auto simp: nth_append nat_diff_distrib)
  qed
qed

subsection \<open>Traversals\<close>

text \<open>The reference for a traversal: run the callback over a list of entries until it says stop.\<close>

fun visitAll :: "(bytes \<Rightarrow> bytes \<Rightarrow> 'a \<Rightarrow> bool \<times> 'a) \<Rightarrow> (bytes \<times> bytes) list \<Rightarrow> 'a \<Rightarrow> bool \<times> 'a" where
  "visitAll f [] a = (False, a)"
| "visitAll f ((k, v) # ps) a = unlessStopped (f k v a) (visitAll f ps)"

lemma unlessStopped_assoc:
  "unlessStopped (unlessStopped x f) g = unlessStopped x (\<lambda>a. unlessStopped (f a) g)"
  by (cases x) simp

lemma unlessStopped_ret [simp]: "unlessStopped x (Pair False) = x"
  by (cases x) simp

lemma visitAll_append: "visitAll f (xs @ ys) a = unlessStopped (visitAll f xs a) (visitAll f ys)"
proof (induction f xs a rule: visitAll.induct)
  case (2 f k v ps a)
  then show ?case by (cases "f k v a") simp
qed simp

lemma visitAll_Nil_fun [simp]: "visitAll f [] = Pair False"
  by auto

definition inRangeKey :: "bytes option \<Rightarrow> bytes option \<Rightarrow> bool \<Rightarrow> bytes \<Rightarrow> bool" where
  "inRangeKey start end inclusive key \<longleftrightarrow> startOrAfter start key \<and> beforeEnd end inclusive key"

definition nodeRange :: "bytes option \<Rightarrow> bytes option \<Rightarrow> bool \<Rightarrow> bool \<Rightarrow> Node \<Rightarrow> (bytes \<times> bytes) list" where
  "nodeRange start end asc inclusive n =
     (let r = filter (\<lambda>p. inRangeKey start end inclusive (fst p)) (entries n) in if asc then r else rev r)"

lemma nodeRange_Leaf:
  "nodeRange start end asc incl (Leaf k v ver p) = (if inRangeKey start end incl k then [(k, v)] else [])"
  by (simp add: nodeRange_def)

text \<open>A subtree that the traversal does not enter has no entry in the range.\<close>

lemma nodeRange_skip:
  assumes "nodeWf (Inner k ver s h l r p)"
  shows "\<not> afterStart start k \<Longrightarrow> nodeRange start end asc incl l = []"
    and "\<not> beforeEnd end incl k \<Longrightarrow> nodeRange start end asc incl r = []"
proof -
  note mo = mk_order [OF assms [unfolded nodeWf_Inner [OF assms]]]
  show "nodeRange start end asc incl l = []" if "\<not> afterStart start k"
  proof -
    have "filter (\<lambda>p. inRangeKey start end incl (fst p)) (entries l) = []"
      using that mo(1)
      by (force simp: filter_empty_conv inRangeKey_def startOrAfter_def afterStart_def split: option.splits)
    then show ?thesis by (simp add: nodeRange_def)
  qed
  show "nodeRange start end asc incl r = []" if "\<not> beforeEnd end incl k"
  proof -
    have "filter (\<lambda>p. inRangeKey start end incl (fst p)) (entries r) = []"
      using that mo(2)
      by (force simp: filter_empty_conv inRangeKey_def beforeEnd_def split: option.splits if_splits)
    then show ?thesis by (simp add: nodeRange_def)
  qed
qed

lemma nodeRange_Inner:
  "nodeRange start end asc incl (Inner k ver s h l r p) =
     (if asc then nodeRange start end asc incl l @ nodeRange start end asc incl r
      else nodeRange start end asc incl r @ nodeRange start end asc incl l)"
  by (simp add: nodeRange_def Let_def)

lemma leafCallback_simps:
  "leafCallback fn (Leaf k v ver p) d a = fn k v a"
  "leafCallback fn (Inner k ver s h l r p) d a = (False, a)"
  by (simp_all add: leafCallback_def)

lemma traverse_ok:
  assumes "nodeWf n"
  shows "traverseInRange start end asc incl False (leafCallback fn) n depth a =
    visitAll fn (nodeRange start end asc incl n) a"
  using assms
proof (induction n arbitrary: depth a)
  case (Leaf k v ver p)
  show ?case by (simp add: visits_def inRangeKey_def nodeRange_Leaf leafCallback_def)
next
  case (Inner k ver s h l r p)
  note sk = nodeRange_skip [OF Inner.prems]
  have wf: "nodeWf l" "nodeWf r" using Inner.prems by auto
  have "traverseInRange start end asc incl False (leafCallback fn) l d = visitAll fn (nodeRange start end asc incl l)"
    "traverseInRange start end asc incl False (leafCallback fn) r d = visitAll fn (nodeRange start end asc incl r)" for d
    using Inner.IH wf by (auto simp: fun_eq_iff)
  then show ?case
    by (cases asc; cases "afterStart start k"; cases "beforeEnd end incl k")
      (simp_all add: nodeRange_Inner visitAll_append leafCallback_simps sk)
qed

subsection \<open>The iterator\<close>

definition stackRange ::
  "bytes option \<Rightarrow> bytes option \<Rightarrow> bool \<Rightarrow> (Node \<times> bool) list \<Rightarrow> (bytes \<times> bytes) list" where
  "stackRange start end asc ns = concat (map (\<lambda>(n, _). nodeRange start end asc False n) ns)"

definition stackOK :: "(Node \<times> bool) list \<Rightarrow> bool" where
  "stackOK ns \<longleftrightarrow> (\<forall>(n, delayed)\<in>set ns. delayed \<and> nodeWf n)"

lemma push_range:
  assumes "nodeWf n" "stackOK ns"
  shows "stackOK (pushChildren start end asc False n ns)"
    "\<not> isLeaf n \<Longrightarrow> stackRange start end asc (pushChildren start end asc False n ns) =
       nodeRange start end asc False n @ stackRange start end asc ns"
proof -
  show "stackOK (pushChildren start end asc False n ns)"
    using assms by (cases n) (auto simp: stackOK_def pushChildren_def Let_def)
  show "stackRange start end asc (pushChildren start end asc False n ns) =
       nodeRange start end asc False n @ stackRange start end asc ns" if "\<not> isLeaf n"
  proof (cases n)
    case (Inner k ver s h l r p)
    note sk = nodeRange_skip [OF assms(1) [unfolded Inner]]
    show ?thesis by (auto simp: Inner stackRange_def pushChildren_def Let_def nodeRange_Inner sk)
  qed (use that in simp)
qed

lemma travNext_range:
  assumes "stackOK ns"
  shows "case travNext start end asc False False ns of
      None \<Rightarrow> stackRange start end asc ns = []
    | Some (n, ns') \<Rightarrow> stackOK ns' \<and> stackRange start end asc ns =
        (case n of Leaf k v _ _ \<Rightarrow> [(k, v)] | Inner _ _ _ _ _ _ _ \<Rightarrow> []) @ stackRange start end asc ns'"
  using assms
proof (induction ns)
  case Nil
  show ?case by (simp add: stackRange_def)
next
  case (Cons e ns)
  obtain n where e: "e = (n, True)" and wf: "nodeWf n" and ok: "stackOK ns"
    using Cons.prems by (cases e) (auto simp: stackOK_def)
  show ?case
  proof (cases n)
    case (Leaf k v ver p)
    with Cons.IH [OF ok] ok show ?thesis
      by (auto simp: e visits_def pushChildren_def stackRange_def nodeRange_Leaf inRangeKey_def split: option.splits)
  next
    case Inner
    with push_range [OF wf ok, of start "end" asc] show ?thesis
      by (auto simp: e visits_def stackRange_def)
  qed
qed

lemma iterNext_range:
  assumes "stackOK ns"
  shows "case iterNext start end asc ns of
      None \<Rightarrow> stackRange start end asc ns = []
    | Some (x, ns') \<Rightarrow> stackOK ns' \<and> stackRange start end asc ns = x # stackRange start end asc ns'"
  using assms
proof (induction start "end" asc ns rule: iterNext.induct)
  case (1 start e asc ns)
  note tr = travNext_range [OF 1(2), of start e asc]
  show ?case
  proof (cases "travNext start e asc False False ns")
    case None
    with tr show ?thesis by (subst iterNext.simps) simp
  next
    case (Some z)
    then obtain n ns1 where z: "travNext start e asc False False ns = Some (n, ns1)" by (cases z) auto
    show ?thesis
    proof (cases n)
      case Leaf
      with tr z show ?thesis by (subst iterNext.simps) simp
    next
      case Inner
      with tr z 1(1) [OF z refl Inner] show ?thesis by (subst iterNext.simps) (auto split: option.splits)
    qed
  qed
qed

lemma iterAll_range: "stackOK ns \<Longrightarrow> iterAll start end asc ns = stackRange start end asc ns"
proof (induction start "end" asc ns rule: iterAll.induct)
  case (1 start e asc ns)
  with iterNext_range [OF 1(2), of start e asc] show ?case
    by (subst iterAll.simps) (auto split: option.splits)
qed

section \<open>The tree as a store\<close>

definition treeView :: "MutableTree \<Rightarrow> (bytes \<times> bytes) list" where
  "treeView t = (case root t of None \<Rightarrow> [] | Some n \<Rightarrow> entries n)"

definition treeWf :: "MutableTree \<Rightarrow> bool" where
  "treeWf t \<longleftrightarrow> (case root t of None \<Rightarrow> True | Some n \<Rightarrow> nodeWf n) \<and> small (length (treeView t))"

lemma small_0 [simp]: "small 0"
  by (simp add: small_def)

lemma treeView_kvOK: "treeWf t \<Longrightarrow> kvOK (treeView t)"
  by (auto simp: treeWf_def treeView_def nodeWf_kvOK split: option.splits)

lemma addOrphans_root [simp]: "root (addOrphans os t) = root t" "treeView (addOrphans os t) = treeView t"
  by (simp_all add: addOrphans_def treeView_def)

lemma TreeSet_ok:
  assumes "treeWf t" "small (Suc (length (treeView t)))"
  shows "\<exists>t'. TreeSet key (Some v) t = Some (key \<in> fst ` set (treeView t), t') \<and> treeWf t' \<and>
    treeView t' = kvSet key v (treeView t)"
proof -
  have sm: "small (length (kvSet key v (treeView t)))"
    by (rule small_mono [OF assms(2)]) (rule length_kvSet)
  show ?thesis
  proof (cases "root t")
    case None
    then show ?thesis using sm
      by (auto simp: TreeSet_def setWithOrphansSlice_def treeWf_def treeView_def NewNode_def)
  next
    case (Some n)
    then have n: "nodeWf n" "small (Suc (length (entries n)))" "treeView t = entries n"
      using assms by (simp_all add: treeWf_def treeView_def)
    from recursiveSet_ok [OF n(1,2), of "treeVersion t + 1" key v "[]"] obtain n' upd os where
      r: "recursiveSet (treeVersion t + 1) n key v [] = Some (n', upd, os)" "setOK key v n n' upd" by auto
    let ?t = "addOrphans os (t\<lparr>root := Some n'\<rparr>)"
    have "TreeSet key (Some v) t = Some (key \<in> fst ` set (treeView t), ?t)"
      using Some r by (simp add: TreeSet_def setWithOrphansSlice_def setOK_def n(3))
    moreover have v': "treeView ?t = kvSet key v (treeView t)" using r(2) n(3) by (simp add: treeView_def setOK_def)
    moreover have "treeWf ?t" using r(2) sm v' by (simp add: treeWf_def setOK_def)
    ultimately show ?thesis by blast
  qed
qed

lemma TreeRemove_ok:
  assumes "treeWf t"
  shows "\<exists>t'. TreeRemove key t = Some (map_of (treeView t) key, key \<in> fst ` set (treeView t), t') \<and> treeWf t' \<and>
    treeView t' = kvDelete key (treeView t)"
proof (cases "root t")
  case None
  then show ?thesis using assms
    by (auto simp: TreeRemove_def removeWithOrphansSlice_def treeWf_def treeView_def kvDelete_def)
next
  case (Some n)
  then have n: "nodeWf n" "small (length (entries n))" "treeView t = entries n"
    using assms by (simp_all add: treeWf_def treeView_def)
  show ?thesis
  proof (cases "key \<in> fst ` set (entries n)")
    case True
    from recursiveRemove_found [OF n(1,2) True, of "treeVersion t + 1"] obtain n' nk w os where
      r: "recursiveRemove (treeVersion t + 1) n key [] = Some (n', nk, w, os)" "removeOK key n n' nk w os" by blast
    let ?t = "addOrphans os (t\<lparr>root := n'\<rparr>)"
    have "TreeRemove key t = Some (map_of (treeView t) key, True, ?t)"
      using Some r by (simp add: TreeRemove_def removeWithOrphansSlice_def removeOK_def n(3))
    moreover have v': "treeView ?t = kvDelete key (treeView t)"
      using r(2) n(3) by (cases n') (simp_all add: treeView_def removeOK_def)
    moreover have "treeWf ?t"
      unfolding treeWf_def v' using r(2) n(3) small_mono [OF n(2) length_kvDelete]
      by (cases n') (simp_all add: removeOK_def)
    ultimately show ?thesis using True n(3) by auto
  next
    case False
    from recursiveRemove_absent [OF n(1) False, of "treeVersion t + 1"]
    have "TreeRemove key t = Some (None, False, addOrphans [] t)"
      using Some by (simp add: TreeRemove_def removeWithOrphansSlice_def)
    moreover from False have "map_of (entries n) key = None" by (simp add: map_of_eq_None_iff)
    ultimately show ?thesis using assms False n(3) kvDelete_none [of "entries n" key]
      by (auto simp: treeWf_def)
  qed
qed

lemma GetWithIndex_ok:
  "treeWf t \<Longrightarrow> GetWithIndex t key = (int (rank key (treeView t)), map_of (treeView t) key)"
  by (auto simp: GetWithIndex_def treeWf_def treeView_def nodeGet_ok rank_def split: option.splits)

lemma Has_ok: "treeWf t \<Longrightarrow> Has t key \<longleftrightarrow> key \<in> fst ` set (treeView t)"
  by (auto simp: Has_def treeWf_def treeView_def nodeHas_ok split: option.splits)

lemma GetByIndex_ok:
  "treeWf t \<Longrightarrow> 0 \<le> i \<Longrightarrow> i < 2 ^ 63 \<Longrightarrow>
   GetByIndex t i = (if i < int (length (treeView t)) then Some (treeView t ! nat i) else None)"
  by (auto simp: GetByIndex_def treeWf_def treeView_def getByIndex_ok split: option.splits)

lemma nodeRange_kvRange: "nodeRange start end asc False n = kvRange start end asc (entries n)"
proof -
  have "inRangeKey start end False k \<longleftrightarrow> IsKeyInDomain k start end" for k
    by (auto simp: inRangeKey_def IsKeyInDomain_def startOrAfter_def beforeEnd_def not_less not_le
        split: option.splits)
  then show ?thesis by (simp add: nodeRange_def kvRange_def)
qed

lemma IterateRange_ok:
  "treeWf t \<Longrightarrow> IterateRange t start end asc fn a = visitAll fn (kvRange start end asc (treeView t)) a"
  by (auto simp: IterateRange_def treeWf_def treeView_def traverse_ok nodeRange_kvRange kvRange_def
      split: option.splits)

lemma TreeIterator_ok: "treeWf t \<Longrightarrow> TreeIterator start end asc t = kvRange start end asc (treeView t)"
  by (auto simp: TreeIterator_def treeWf_def treeView_def iterAll_range stackOK_def stackRange_def
      nodeRange_kvRange kvRange_def split: option.splits)

lemma visitAll_collect: "visitAll (\<lambda>k v sent. (False, sent @ [(k, v)])) ps a = (False, a @ ps)"
  by (induction ps arbitrary: a) auto

lemma rank_nth:
  assumes "kvOK ps" "(k, v) \<in> set ps"
  shows "rank k ps < length ps \<and> ps ! rank k ps = (k, v)"
  using assms
proof (induction ps)
  case (Cons p ps)
  obtain a b where p: "p = (a, b)" by (cases p)
  show ?case
  proof (cases "a < k")
    case True
    with Cons p show ?thesis by (auto simp: rank_def)
  next
    case False
    with Cons.prems p have "p = (k, v)" by auto
    moreover have "filter (\<lambda>q. fst q < k) ps = []"
      using Cons.prems(1) \<open>p = (k, v)\<close> by (auto simp: filter_empty_conv)
    ultimately show ?thesis by (simp add: rank_def)
  qed
qed simp

definition storeView :: "iavlStore \<Rightarrow> (bytes \<times> bytes) list" where
  "storeView st = treeView (tree st)"

text \<open>The flat copy never holds a value that the tree does not hold.\<close>

definition storeInv :: "iavlStore \<Rightarrow> bool" where
  "storeInv st \<longleftrightarrow> treeWf (tree st) \<and>
     (\<forall>k v. getFlatKV k st = Some v \<longrightarrow> map_of (storeView st) k = Some v)"

lemma flatKV_simps [simp]:
  "tree (setFlatKV k v st) = tree st" "tree (deleteFlatKV k st) = tree st"
  "getFlatKV j (setFlatKV k v st) = (if flatKV st \<noteq> None \<and> j = k then Some v else getFlatKV j st)"
  "getFlatKV j (deleteFlatKV k st) = (if j = k then None else getFlatKV j st)"
  "getFlatKV j (st\<lparr>tree := t\<rparr>) = getFlatKV j st"
  "flatKV st = None \<Longrightarrow> getFlatKV j st = None"
  by (auto simp: setFlatKV_def deleteFlatKV_def getFlatKV_def split: option.splits)

interpretation iavl: kv_store iavlOps storeView storeInv small
proof
  show "kvOK (storeView s)" if "storeInv s" for s
    using that by (simp add: storeInv_def storeView_def treeView_kvOK)
  show "\<exists>s'. opGet iavlOps k s = (map_of (storeView s) k, s') \<and> storeInv s' \<and> storeView s' = storeView s"
    if "storeInv s" for s k
    using that by (auto simp: iavlOps_def StoreGet_def storeInv_def storeView_def GetWithIndex_ok
        split: option.splits if_splits)
  show "\<exists>s'. opSet iavlOps k v s = Some s' \<and> storeInv s' \<and> storeView s' = kvSet k v (storeView s)"
    if "storeInv s" "small (Suc (length (storeView s)))" for s k v
    using TreeSet_ok [of "tree s" k v] that treeView_kvOK [of "tree s"]
    by (auto simp: iavlOps_def StoreSet_def storeInv_def storeView_def map_of_kvSet split: if_splits)
  show "\<exists>s'. opDelete iavlOps k s = Some s' \<and> storeInv s' \<and> storeView s' = kvDelete k (storeView s)"
    if "storeInv s" for s k
    using TreeRemove_ok [of "tree s" k] that
    by (auto simp: iavlOps_def StoreDelete_def storeInv_def storeView_def map_of_kvDelete split: if_splits)
  show "\<exists>s'. opIterator iavlOps b e asc s = (kvRange b e asc (storeView s), s') \<and> storeInv s' \<and> storeView s' = storeView s"
    if "storeInv s" for s b e asc
    using that by (simp add: iavlOps_def iterateRoutine_def storeInv_def storeView_def IterateRange_ok visitAll_collect)
  show "small m" if "small n" "m \<le> n" for m n by (rule small_mono [OF that])
qed


section \<open>Properties\<close>


text \<open>
  C33. After any sequence of operations the tree is balanced: at every inner node the stored height
  and size are the exact ones, the heights of the children differ by at most one and the key is the
  smallest key of the right subtree. The height is at most logarithmic in the number of leaves, so
  the \<open>int8\<close> height and the \<open>int64\<close> size never overflow.
\<close>

theorem iavl_balanced:
  assumes "storeInv st" "length (storeView st) + length cs < 2 ^ 63" "kvRun iavlOps cs st = Some (rs, st')"
    "root (tree st') = Some n"
  shows "nodeWf n \<and> nodeSize n = int (length (storeView st')) \<and> 0 \<le> nodeHeight n \<and> nodeHeight n \<le> 125 \<and>
    2 ^ nat (nodeHeight n div 2) \<le> length (storeView st')"
proof -
  from iavl.run_spec [OF assms(1), of cs] assms(2,3) have "storeInv st'" by (auto simp: small_def)
  then have n: "nodeWf n" "small (length (entries n))" "storeView st' = entries n"
    using assms(4) by (simp_all add: storeInv_def treeWf_def storeView_def treeView_def)
  then show ?thesis
    using height_bound [OF n(1,2)] by (simp add: nodeSize_entries nodeHeight_nonneg leaves_bound)
qed

text \<open>
  C34. The index operations are inverse to each other: the index that \<open>GetWithIndex\<close> reports is the
  number of smaller keys, \<open>GetByIndex\<close> of that index returns the key with its value when the key is
  present, and \<open>Has\<close> agrees.
\<close>

theorem iavl_index_roundtrip:
  assumes "treeWf t" "GetWithIndex t key = (i, val)"
  shows "i = int (rank key (treeView t)) \<and> Has t key = (val \<noteq> None) \<and>
    (\<forall>v. val = Some v \<longrightarrow> GetByIndex t i = Some (key, v))"
proof -
  from assms GetWithIndex_ok [OF assms(1), of key] have
    i: "i = int (rank key (treeView t))" and val: "val = map_of (treeView t) key" by auto
  have has: "Has t key = (val \<noteq> None)"
    using Has_ok [OF assms(1)] val by (simp add: map_of_eq_None_iff)
  moreover have "GetByIndex t i = Some (key, v)" if v: "val = Some v" for v
  proof -
    have ok: "kvOK (treeView t)" by (rule treeView_kvOK [OF assms(1)])
    from v val have "(key, v) \<in> set (treeView t)" by (simp add: map_of_SomeD)
    from rank_nth [OF ok this] have r: "rank key (treeView t) < length (treeView t)"
      "treeView t ! rank key (treeView t) = (key, v)" by auto
    have "int (length (treeView t)) < 2 ^ 63" using assms(1) small_int by (simp add: treeWf_def)
    then show ?thesis using GetByIndex_ok [OF assms(1), of i] r i by simp
  qed
  ultimately show ?thesis using i by blast
qed

text \<open>
  C35. The stack-based iterator terminates and delivers the entries of the range in ascending or
  descending order, each once; the recursive \<open>IterateRange\<close> calls its callback on the same entries
  in the same order until the callback stops it.
\<close>

theorem iavl_iterators:
  assumes "treeWf t"
  shows "TreeIterator start end asc t = kvRange start end asc (treeView t) \<and>
    IterateRange t start end asc fn a = visitAll fn (kvRange start end asc (treeView t)) a"
  using TreeIterator_ok [OF assms] IterateRange_ok [OF assms] by simp

definition exIavl :: iavlStore where
  "exIavl = \<lparr>tree = \<lparr>root = Some (Leaf ''b'' ''1'' 1 True), treeVersion = 1, orphans = []\<rparr>,
     flatKV = Some (\<lambda>_. None)\<rparr>"

definition exCmds :: "bytes kvCmd list" where
  "exCmds = [CSet ''c'' ''3'', CSet ''a'' ''2'', CDelete ''b'', CGet ''a'', CIter None (Some ''c'') True]"

lemma exIavl_inv: "storeInv exIavl" "storeView exIavl = [(''b'', ''1'')]"
  by (auto simp: exIavl_def storeInv_def treeWf_def storeView_def treeView_def getFlatKV_def small_def)

lemma exCmds_run:
  "kvRun listOps exCmds [(''b'', ''1'')] =
     Some ([RDone, RDone, RDone, RGet (Some ''2''), RIter [(''a'', ''2'')]], [(''a'', ''2''), (''c'', ''3'')])"
  by (simp add: exCmds_def listOps_def kvDelete_def kvRange_def IsKeyInDomain_def)


theorem iavl_balanced_witness:
  "\<exists>rs st' n. kvRun iavlOps exCmds exIavl = Some (rs, st') \<and> root (tree st') = Some n \<and> nodeWf n \<and>
     nodeSize n = 2 \<and> nodeHeight n \<le> 125"
proof -
  have len: "length (storeView exIavl) + length exCmds < 2 ^ 63" by (simp add: exIavl_inv(2) exCmds_def)
  then have "small (length (storeView exIavl) + length exCmds)" by (simp only: small_def)
  from iavl.run_spec [OF exIavl_inv(1) this] obtain rs st' where
    r: "kvRun iavlOps exCmds exIavl = Some (rs, st')" "storeView st' = [(''a'', ''2''), (''c'', ''3'')]"
    by (auto simp: exIavl_inv(2) exCmds_run)
  then obtain n where n: "root (tree st') = Some n" by (auto simp: storeView_def treeView_def split: option.splits)
  from iavl_balanced [OF exIavl_inv(1) len r(1) n] r n show ?thesis by auto
qed

definition exTree :: MutableTree where
  "exTree = \<lparr>root = Some (Inner ''b'' 1 2 1 (Leaf ''a'' ''1'' 1 True) (Leaf ''b'' ''2'' 1 True) True),
     treeVersion = 1, orphans = []\<rparr>"

lemma exTree_wf: "treeWf exTree" "treeView exTree = [(''a'', ''1''), (''b'', ''2'')]"
  by (simp_all add: exTree_def treeWf_def treeView_def small_def)

theorem iavl_index_roundtrip_witness: "GetByIndex exTree 1 = Some (''b'', ''2'') \<and> Has exTree ''b''"
proof -
  have "GetWithIndex exTree ''b'' = (1, Some ''2'')" by code_simp
  from iavl_index_roundtrip [OF exTree_wf(1) this] show ?thesis by simp
qed

theorem iavl_iterators_witness: "TreeIterator (Some ''b'') None True exTree = [(''b'', ''2'')]"
  using iavl_iterators [OF exTree_wf(1), of "Some ''b''" None True "\<lambda>k v (a :: unit). (False, a)" "()"]
  by (simp add: exTree_wf kvRange_def IsKeyInDomain_def)

end
