(* ===== verification/CacheKV.thy ===== *)
theory CacheKV
  imports KVStore
begin

text \<open>
  The write-back cache store of \<open>libs/cosmos-sdk/store/cachekv\<close>: \<open>store.go\<close>, \<open>memiterator.go\<close> and
  \<open>mergeiterator.go\<close>. Every transaction runs on such a cache, and its writes reach the parent store
  only through \<open>Write\<close>. The parent is any store, given by its operations. A Go map with string keys
  is an association list sorted by key; the linked list \<open>sortedCache\<close> is the list of its elements.
\<close>

section \<open>Definitions\<close>

subsection \<open>The store\<close>

record cValue =
  cvValue :: "bytes option"
  cvDeleted :: bool

record 'p cstore =
  dirty :: "(bytes \<times> cValue) list"
  readList :: "(bytes \<times> bytes option) list"
  unsortedCache :: "(bytes \<times> unit) list"
  sortedCache :: "(bytes \<times> bytes option) list"
  parent :: 'p
  disableCacheReadList :: bool

definition NewStore :: "'p \<Rightarrow> 'p cstore" where
  "NewStore p = \<lparr>dirty = [], readList = [], unsortedCache = [], sortedCache = [], parent = p,
     disableCacheReadList = False\<rparr>"

definition setCacheValue :: "bytes \<Rightarrow> bytes option \<Rightarrow> bool \<Rightarrow> bool \<Rightarrow> 'p cstore \<Rightarrow> 'p cstore" where
  "setCacheValue key val deleted isDirty st =
     (if \<not> isDirty then st\<lparr>readList := kvSet key val (readList st)\<rparr>
      else st\<lparr>dirty := kvSet key \<lparr>cvValue = val, cvDeleted = deleted\<rparr> (dirty st),
              unsortedCache := kvSet key () (unsortedCache st)\<rparr>)"

definition cacheGet :: "('p, bytes) kvops \<Rightarrow> bytes \<Rightarrow> 'p cstore \<Rightarrow> bytes option \<times> 'p cstore" where
  "cacheGet ops key st =
     (case map_of (dirty st) key of
        Some cv \<Rightarrow> (cvValue cv, st)
      | None \<Rightarrow>
          (case map_of (readList st) key of
             Some c \<Rightarrow> (c, st)
           | None \<Rightarrow>
               (let (val, p) = opGet ops key (parent st); st' = st\<lparr>parent := p\<rparr> in
                (val, if \<not> disableCacheReadList st then setCacheValue key val False False st' else st'))))"

definition cacheHas :: "('p, bytes) kvops \<Rightarrow> bytes \<Rightarrow> 'p cstore \<Rightarrow> bool \<times> 'p cstore" where
  "cacheHas ops key st = (let (val, st') = cacheGet ops key st in (val \<noteq> None, st'))"

definition cacheSet :: "bytes \<Rightarrow> bytes \<Rightarrow> 'p cstore \<Rightarrow> 'p cstore" where
  "cacheSet key val st = setCacheValue key (Some val) False True st"

definition cacheDelete :: "bytes \<Rightarrow> 'p cstore \<Rightarrow> 'p cstore" where
  "cacheDelete key st = setCacheValue key None True True st"

definition clearCache :: "'p cstore \<Rightarrow> 'p cstore" where
  "clearCache st = st\<lparr>dirty := [], readList := [], unsortedCache := [], sortedCache := [],
     disableCacheReadList := False\<rparr>"

text \<open>One entry of the cache, written to the parent.\<close>

definition writeEntry :: "('p, bytes) kvops \<Rightarrow> bytes \<Rightarrow> cValue \<Rightarrow> 'p \<Rightarrow> 'p option" where
  "writeEntry ops key cv p =
     (if cvDeleted cv then opDelete ops key p
      else case cvValue cv of None \<Rightarrow> Some p | Some v \<Rightarrow> opSet ops key v p)"

fun writeEntries :: "('p, bytes) kvops \<Rightarrow> (bytes \<times> cValue) list \<Rightarrow> 'p \<Rightarrow> 'p option" where
  "writeEntries ops [] p = Some p"
| "writeEntries ops ((key, cv) # cs) p = do { p' \<leftarrow> writeEntry ops key cv p; writeEntries ops cs p' }"

definition Write :: "('p, bytes) kvops \<Rightarrow> 'p cstore \<Rightarrow> 'p cstore option" where
  "Write ops st = do {
     p \<leftarrow> writeEntries ops (dirty st) (parent st);
     Some (clearCache (st\<lparr>parent := p\<rparr>)) }"

text \<open>\<open>WriteWithSnapshotWSet\<close> also records what the parent held under every written key.\<close>

fun writeSnapshot ::
  "('p, bytes) kvops \<Rightarrow> (bytes \<times> cValue) list \<Rightarrow> 'p \<Rightarrow> ((bytes \<times> bytes option) list \<times> 'p) option" where
  "writeSnapshot ops [] p = Some ([], p)"
| "writeSnapshot ops ((key, cv) # cs) p = (let (prev, p0) = opGet ops key p in do {
     p1 \<leftarrow> writeEntry ops key cv p0;
     (ws, p2) \<leftarrow> writeSnapshot ops cs p1;
     Some ((key, prev) # ws, p2) })"

definition WriteWithSnapshotWSet ::
  "('p, bytes) kvops \<Rightarrow> 'p cstore \<Rightarrow> ((bytes \<times> bytes option) list \<times> 'p cstore) option" where
  "WriteWithSnapshotWSet ops st = do {
     (ws, p) \<leftarrow> writeSnapshot ops (dirty st) (parent st);
     Some (ws, clearCache (st\<lparr>parent := p\<rparr>)) }"

fun RevertSnapshotWSet :: "(bytes \<times> bytes option) list \<Rightarrow> 'p cstore \<Rightarrow> 'p cstore" where
  "RevertSnapshotWSet [] st = st"
| "RevertSnapshotWSet ((k, prev) # ws) st =
     RevertSnapshotWSet ws (case prev of None \<Rightarrow> cacheDelete k st | Some v \<Rightarrow> cacheSet k v st)"

text \<open>
  When the parent is itself a cache, the entries are written straight into it, in the order in which
  \<open>range\<close> visits the map: any order, so it is an argument.
\<close>

definition writeToCacheEntry :: "bytes \<times> cValue \<Rightarrow> 'p cstore \<Rightarrow> 'p cstore" where
  "writeToCacheEntry e p =
     (if cvDeleted (snd e) then cacheDelete (fst e) p
      else case cvValue (snd e) of None \<Rightarrow> p | Some v \<Rightarrow> cacheSet (fst e) v p)"

definition writeToCacheKv :: "(bytes \<times> cValue) list \<Rightarrow> 'p cstore cstore \<Rightarrow> 'p cstore cstore" where
  "writeToCacheKv order st = clearCache (st\<lparr>parent := fold writeToCacheEntry order (parent st)\<rparr>)"

definition Reset :: "'p \<Rightarrow> 'p cstore \<Rightarrow> 'p cstore" where
  "Reset p st = clearCache (st\<lparr>parent := p\<rparr>)"

definition DisableCacheReadList :: "'p cstore \<Rightarrow> 'p cstore" where
  "DisableCacheReadList st = st\<lparr>disableCacheReadList := True\<rparr>"

definition Clear :: "'p cstore \<Rightarrow> 'p cstore" where
  "Clear st = clearCache st"

subsection \<open>Iterators\<close>

fun mergeUnsorted :: "(bytes \<times> 'v) list \<Rightarrow> (bytes \<times> 'v) list \<Rightarrow> (bytes \<times> 'v) list" where
  "mergeUnsorted [] ss = ss"
| "mergeUnsorted us [] = us"
| "mergeUnsorted ((uk, uv) # us) ((sk, sv) # ss) =
     (if uk < sk then (uk, uv) # mergeUnsorted us ((sk, sv) # ss)
      else if sk < uk then (sk, sv) # mergeUnsorted ((uk, uv) # us) ss
      else (uk, uv) # mergeUnsorted us ss)"

definition dirtyValue :: "'p cstore \<Rightarrow> bytes \<Rightarrow> bytes option" where
  "dirtyValue st key = (case map_of (dirty st) key of None \<Rightarrow> None | Some cv \<Rightarrow> cvValue cv)"

definition dirtyItems :: "bytes option \<Rightarrow> bytes option \<Rightarrow> 'p cstore \<Rightarrow> 'p cstore" where
  "dirtyItems start end st =
     (let unsorted = map (\<lambda>(key, _). (key, dirtyValue st key))
            (filter (\<lambda>(key, _). IsKeyInDomain key start end) (unsortedCache st)) in
      st\<lparr>unsortedCache := filter (\<lambda>(key, _). \<not> IsKeyInDomain key start end) (unsortedCache st),
         sortedCache := mergeUnsorted (sort_key fst unsorted) (sortedCache st)\<rparr>)"

definition newMemIterator ::
  "bytes option \<Rightarrow> bytes option \<Rightarrow> (bytes \<times> bytes option) list \<Rightarrow> bool \<Rightarrow> (bytes \<times> bytes option) list" where
  "newMemIterator start end items ascending =
     (let itemsInDomain = takeWhile (\<lambda>p. IsKeyInDomain (fst p) start end)
            (dropWhile (\<lambda>p. \<not> IsKeyInDomain (fst p) start end) items) in
      if ascending then itemsInDomain else rev itemsInDomain)"

text \<open>
  The merge iterator: what is left of the parent's and of the cache's entries, in iteration order. A
  cache entry without a value is a deletion.
\<close>

record mergeIter =
  mParent :: "(bytes \<times> bytes) list"
  mCache :: "(bytes \<times> bytes option) list"

definition before :: "bool \<Rightarrow> bytes \<Rightarrow> bytes \<Rightarrow> bool" where
  "before ascending a b = (if ascending then a < b else b < a)"

fun skipCacheDeletes :: "bool \<Rightarrow> bytes option \<Rightarrow> (bytes \<times> bytes option) list \<Rightarrow> (bytes \<times> bytes option) list" where
  "skipCacheDeletes asc til [] = []"
| "skipCacheDeletes asc til ((k, v) # cs) =
     (if v = None \<and> (case til of None \<Rightarrow> True | Some u \<Rightarrow> before asc k u)
      then skipCacheDeletes asc til cs else (k, v) # cs)"

lemma skipCacheDeletes_length: "length (skipCacheDeletes asc til cs) \<le> length cs"
  by (induction asc til cs rule: skipCacheDeletes.induct) auto

function skipUntilExistsOrInvalid ::
  "bool \<Rightarrow> (bytes \<times> bytes) list \<Rightarrow> (bytes \<times> bytes option) list \<Rightarrow>
   bool \<times> (bytes \<times> bytes) list \<times> (bytes \<times> bytes option) list" where
  "skipUntilExistsOrInvalid asc [] cs = (let cs' = skipCacheDeletes asc None cs in (cs' \<noteq> [], [], cs'))"
| "skipUntilExistsOrInvalid asc (p # ps) [] = (True, p # ps, [])"
| "skipUntilExistsOrInvalid asc ((kp, vp) # ps) ((kc, vc) # cs) =
     (if before asc kp kc then (True, (kp, vp) # ps, (kc, vc) # cs)
      else if kp = kc then
        (if vc = None then skipUntilExistsOrInvalid asc ps cs else (True, (kp, vp) # ps, (kc, vc) # cs))
      else
        (if vc = None then skipUntilExistsOrInvalid asc ((kp, vp) # ps) (skipCacheDeletes asc (Some kp) ((kc, vc) # cs))
         else (True, (kp, vp) # ps, (kc, vc) # cs)))"
  by pat_completeness auto

termination
proof (relation "measure (\<lambda>(_, ps, cs). length cs)", goal_cases)
  case (3 asc kp vp ps kc vc cs)
  then have "before asc kc kp" by (auto simp: before_def split: if_splits)
  with 3 show ?case using skipCacheDeletes_length [of asc "Some kp" cs] by simp
qed simp_all

definition mergeSkip :: "bool \<Rightarrow> mergeIter \<Rightarrow> bool \<times> mergeIter" where
  "mergeSkip asc it =
     (let (valid, ps, cs) = skipUntilExistsOrInvalid asc (mParent it) (mCache it) in
      (valid, \<lparr>mParent = ps, mCache = cs\<rparr>))"

definition mergeValid :: "bool \<Rightarrow> mergeIter \<Rightarrow> bool \<times> mergeIter" where
  "mergeValid asc it = mergeSkip asc it"

definition mergeKey :: "bool \<Rightarrow> mergeIter \<Rightarrow> bytes option" where
  "mergeKey asc it =
     (let (valid, it') = mergeSkip asc it in
      if \<not> valid then None
      else case mParent it' of
        [] \<Rightarrow> Some (fst (hd (mCache it')))
      | (kp, vp) # _ \<Rightarrow>
          (case mCache it' of
             [] \<Rightarrow> Some kp
           | (kc, vc) # _ \<Rightarrow> Some (if before asc kp kc then kp else if kp = kc then kp else kc)))"

definition mergeValue :: "bool \<Rightarrow> mergeIter \<Rightarrow> bytes option" where
  "mergeValue asc it =
     (let (valid, it') = mergeSkip asc it in
      if \<not> valid then None
      else case mParent it' of
        [] \<Rightarrow> snd (hd (mCache it'))
      | (kp, vp) # _ \<Rightarrow>
          (case mCache it' of
             [] \<Rightarrow> Some vp
           | (kc, vc) # _ \<Rightarrow> if before asc kp kc then Some vp else vc))"

definition mergeNext :: "bool \<Rightarrow> mergeIter \<Rightarrow> mergeIter option" where
  "mergeNext asc it =
     (let (valid, it') = mergeSkip asc it in
      if \<not> valid then None
      else case mParent it' of
        [] \<Rightarrow> Some (it'\<lparr>mCache := tl (mCache it')\<rparr>)
      | (kp, vp) # ps \<Rightarrow>
          (case mCache it' of
             [] \<Rightarrow> Some (it'\<lparr>mParent := ps\<rparr>)
           | (kc, vc) # cs \<Rightarrow>
               Some (if before asc kp kc then it'\<lparr>mParent := ps\<rparr>
                     else if kp = kc then it'\<lparr>mParent := ps, mCache := cs\<rparr>
                     else it'\<lparr>mCache := cs\<rparr>)))"

definition mergeSize :: "mergeIter \<Rightarrow> nat" where
  "mergeSize it = length (mParent it) + length (mCache it)"

lemma skip_length:
  "skipUntilExistsOrInvalid asc ps cs = (valid, ps', cs') \<Longrightarrow>
   length ps' \<le> length ps \<and> length cs' \<le> length cs \<and> (valid \<longrightarrow> ps' \<noteq> [] \<or> cs' \<noteq> [])"
proof (induction asc ps cs arbitrary: valid ps' cs' rule: skipUntilExistsOrInvalid.induct)
  case (1 asc cs)
  then show ?case using skipCacheDeletes_length [of asc None cs] by (auto simp: Let_def)
next
  case (3 asc kp vp ps kc vc cs)
  show ?case
  proof (cases "before asc kp kc \<or> vc \<noteq> None")
    case True
    with 3(3) show ?thesis by (auto split: if_splits)
  next
    case False
    show ?thesis
    proof (cases "kp = kc")
      case True
      with False 3(3) have "skipUntilExistsOrInvalid asc ps cs = (valid, ps', cs')" by simp
      from 3(1) [OF _ True _ this] False show ?thesis by simp
    next
      case ne: False
      with False have "skipUntilExistsOrInvalid asc ((kp, vp) # ps) (skipCacheDeletes asc (Some kp) ((kc, vc) # cs)) =
        (valid, ps', cs')" using 3(3) by (simp del: skipCacheDeletes.simps)
      from 3(2) [OF _ ne _ this] False skipCacheDeletes_length [of asc "Some kp" "(kc, vc) # cs"]
      show ?thesis by (simp del: skipCacheDeletes.simps)
    qed
  qed
qed simp

lemma mergeSkip_size:
  "mergeSkip asc it = (valid, it') \<Longrightarrow> mergeSize it' \<le> mergeSize it \<and> (valid \<longrightarrow> mParent it' \<noteq> [] \<or> mCache it' \<noteq> [])"
  by (auto simp: mergeSkip_def mergeSize_def split: prod.splits dest!: skip_length)

lemma mergeNext_size: "mergeNext asc it = Some it' \<Longrightarrow> mergeSize it' < mergeSize it"
  unfolding mergeNext_def
  by (auto simp: mergeSize_def neq_Nil_conv split: prod.splits if_splits list.splits dest!: mergeSkip_size)

lemma mergeStep_size:
  "(valid, it1) = mergeSkip asc it \<Longrightarrow> Some it2 = mergeNext asc it1 \<Longrightarrow> mergeSize it2 < mergeSize it"
  using mergeSkip_size [of asc it valid it1] mergeNext_size [of asc it1 it2] by auto

text \<open>
  The loop \<open>for ; iter.Valid(); iter.Next()\<close> of a client. A valid iterator has a key, a value and
  a next state, so the last case does not occur.
\<close>

function mergeAll :: "bool \<Rightarrow> mergeIter \<Rightarrow> (bytes \<times> bytes) list" where
  "mergeAll asc it =
     (let (valid, it1) = mergeValid asc it in
      if \<not> valid then []
      else case (mergeKey asc it1, mergeValue asc it1, mergeNext asc it1) of
          (Some k, Some v, Some it2) \<Rightarrow> (k, v) # mergeAll asc it2
        | _ \<Rightarrow> [])"
  by pat_completeness auto

termination
  by (relation "measure (\<lambda>(_, it). mergeSize it)") (auto simp: mergeValid_def intro: mergeStep_size)

declare mergeAll.simps [simp del]

definition cacheIterator ::
  "('p, bytes) kvops \<Rightarrow> bytes option \<Rightarrow> bytes option \<Rightarrow> bool \<Rightarrow> 'p cstore \<Rightarrow> (bytes \<times> bytes) list \<times> 'p cstore" where
  "cacheIterator ops start end ascending st =
     (let (ps, p) = opIterator ops start end ascending (parent st);
          st' = dirtyItems start end (st\<lparr>parent := p\<rparr>) in
      (mergeAll ascending \<lparr>mParent = ps, mCache = newMemIterator start end (sortedCache st') ascending\<rparr>, st'))"

text \<open>A cache store is itself a store: caches can be stacked.\<close>

definition cacheOps :: "('p, bytes) kvops \<Rightarrow> ('p cstore, bytes) kvops" where
  "cacheOps ops = \<lparr>opGet = cacheGet ops, opSet = (\<lambda>k v st. Some (cacheSet k v st)),
     opDelete = (\<lambda>k st. Some (cacheDelete k st)), opIterator = cacheIterator ops\<rparr>"

section \<open>The merge iterator\<close>

text \<open>The reference merge: cache entries shadow parent entries, deletions hide them.\<close>

fun overlay :: "bool \<Rightarrow> (bytes \<times> bytes) list \<Rightarrow> (bytes \<times> bytes option) list \<Rightarrow> (bytes \<times> bytes) list" where
  "overlay asc [] [] = []"
| "overlay asc [] ((kc, vc) # cs) = (case vc of None \<Rightarrow> overlay asc [] cs | Some v \<Rightarrow> (kc, v) # overlay asc [] cs)"
| "overlay asc (p # ps) [] = p # ps"
| "overlay asc ((kp, vp) # ps) ((kc, vc) # cs) =
     (if before asc kp kc then (kp, vp) # overlay asc ps ((kc, vc) # cs)
      else if kp = kc then (case vc of None \<Rightarrow> overlay asc ps cs | Some v \<Rightarrow> (kc, v) # overlay asc ps cs)
      else (case vc of None \<Rightarrow> overlay asc ((kp, vp) # ps) cs | Some v \<Rightarrow> (kc, v) # overlay asc ((kp, vp) # ps) cs))"

lemma before_irrefl [simp]: "\<not> before asc k k"
  by (simp add: before_def)

lemma before_linear: "\<not> before asc a b \<Longrightarrow> a \<noteq> b \<Longrightarrow> before asc b a"
  by (auto simp: before_def split: if_splits)

lemma before_trans: "before asc a b \<Longrightarrow> before asc b c \<Longrightarrow> before asc a c"
  by (auto simp: before_def split: if_splits)

lemma before_asym: "before asc a b \<Longrightarrow> \<not> before asc b a"
  by (auto simp: before_def split: if_splits)

lemma overlay_skip_none: "overlay asc [] (skipCacheDeletes asc None cs) = overlay asc [] cs"
  by (induction cs) auto

lemma overlay_skip_some:
  "overlay asc ((kp, vp) # ps) (skipCacheDeletes asc (Some kp) cs) = overlay asc ((kp, vp) # ps) cs"
  by (induction cs) (auto dest: before_asym split: option.splits)

lemma overlay_Nil2 [simp]: "overlay asc ps [] = ps"
  by (cases ps) auto

text \<open>The current entry exists: this is what the skipping establishes unless nothing is left.\<close>

fun mergeReady :: "bool \<Rightarrow> (bytes \<times> bytes) list \<Rightarrow> (bytes \<times> bytes option) list \<Rightarrow> bool" where
  "mergeReady asc [] [] = False"
| "mergeReady asc [] ((kc, vc) # cs) = (vc \<noteq> None)"
| "mergeReady asc (p # ps) [] = True"
| "mergeReady asc ((kp, vp) # ps) ((kc, vc) # cs) = (before asc kp kc \<or> vc \<noteq> None)"

lemma skip_overlay:
  assumes "skipUntilExistsOrInvalid asc ps cs = (valid, ps', cs')"
  shows "overlay asc ps' cs' = overlay asc ps cs \<and>
    (if valid then mergeReady asc ps' cs' else overlay asc ps cs = [])"
  using assms
proof (induction asc ps cs arbitrary: valid ps' cs' rule: skipUntilExistsOrInvalid.induct)
  case (1 asc cs)
  have "skipCacheDeletes asc None cs = [] \<or> mergeReady asc [] (skipCacheDeletes asc None cs)"
    by (induction cs) (auto split: if_splits)
  with 1 overlay_skip_none [of asc cs] show ?case by (auto simp: Let_def)
next
  case (3 asc kp vp ps kc vc cs)
  show ?case
  proof (cases "before asc kp kc \<or> vc \<noteq> None")
    case True
    with 3(3) show ?thesis by (auto split: if_splits)
  next
    case False
    show ?thesis
    proof (cases "kp = kc")
      case True
      with False 3(1) 3(3) show ?thesis by simp
    next
      case ne: False
      with False have "skipUntilExistsOrInvalid asc ((kp, vp) # ps) (skipCacheDeletes asc (Some kp) ((kc, vc) # cs)) =
        (valid, ps', cs')" using 3(3) by (simp del: skipCacheDeletes.simps)
      from 3(2) [OF _ ne _ this, unfolded overlay_skip_some] False show ?thesis by blast
    qed
  qed
qed auto


lemma skip_stable: "mergeReady asc ps cs \<Longrightarrow> skipUntilExistsOrInvalid asc ps cs = (True, ps, cs)"
proof (induction asc ps cs rule: mergeReady.induct)
  case (4 asc kp vp ps kc vc cs)
  then show ?case by (cases "before asc kp kc"; cases vc) simp_all
qed auto

text \<open>On a current entry that exists, the iterator shows it and moves past it.\<close>

lemma mergeStep:
  assumes "mergeReady asc ps cs"
  shows "\<exists>k w it2. mergeKey asc \<lparr>mParent = ps, mCache = cs\<rparr> = Some k \<and>
    mergeValue asc \<lparr>mParent = ps, mCache = cs\<rparr> = Some w \<and>
    mergeNext asc \<lparr>mParent = ps, mCache = cs\<rparr> = Some it2 \<and>
    overlay asc ps cs = (k, w) # overlay asc (mParent it2) (mCache it2)"
proof -
  have sk: "mergeSkip asc \<lparr>mParent = ps, mCache = cs\<rparr> = (True, \<lparr>mParent = ps, mCache = cs\<rparr>)"
    using skip_stable [OF assms] by (simp add: mergeSkip_def)
  show ?thesis
  proof (cases ps)
    case Nil
    with assms obtain kc w cs' where "cs = (kc, Some w) # cs'" by (cases cs) auto
    with Nil sk show ?thesis by (simp add: mergeKey_def mergeValue_def mergeNext_def)
  next
    case (Cons p ps')
    obtain kp vp where p: "p = (kp, vp)" by (cases p)
    show ?thesis
    proof (cases cs)
      case Nil
      with Cons p sk show ?thesis by (simp add: mergeKey_def mergeValue_def mergeNext_def)
    next
      case c: (Cons c cs')
      obtain kc vc where c': "c = (kc, vc)" by (cases c)
      have "before asc kp kc \<or> (\<exists>w. vc = Some w)" using assms Cons p c c' by auto
      with sk Cons p c c' show ?thesis
        by (auto simp: mergeKey_def mergeValue_def mergeNext_def)
    qed
  qed
qed

lemma mergeAll_overlay: "mergeAll asc it = overlay asc (mParent it) (mCache it)"
proof (induction asc it rule: mergeAll.induct)
  case (1 asc it)
  obtain valid ps cs where sk: "skipUntilExistsOrInvalid asc (mParent it) (mCache it) = (valid, ps, cs)"
    by (cases "skipUntilExistsOrInvalid asc (mParent it) (mCache it)") auto
  let ?it = "\<lparr>mParent = ps, mCache = cs\<rparr>"
  have v: "mergeValid asc it = (valid, ?it)" by (simp add: mergeValid_def mergeSkip_def sk)
  note ov = skip_overlay [OF sk]
  show ?case
  proof (cases valid)
    case False
    with v ov show ?thesis by (subst mergeAll.simps) simp
  next
    case True
    obtain k w it2 where step: "mergeKey asc ?it = Some k" "mergeValue asc ?it = Some w"
      "mergeNext asc ?it = Some it2" "overlay asc ps cs = (k, w) # overlay asc (mParent it2) (mCache it2)"
      using mergeStep [OF ov [THEN conjunct2, unfolded if_P [OF True]]] by blast
    have "mergeAll asc it = (k, w) # mergeAll asc it2"
      by (subst mergeAll.simps) (simp add: v True step)
    also have "mergeAll asc it2 = overlay asc (mParent it2) (mCache it2)"
      by (rule 1 [OF refl v [symmetric] _ refl step(1) refl step(2,3)]) (simp add: True)
    finally show ?thesis using step(4) ov by simp
  qed
qed


text \<open>Lists in iteration order, and the content of a merge of two of them.\<close>

definition ordered :: "bool \<Rightarrow> (bytes \<times> 'v) list \<Rightarrow> bool" where
  "ordered asc ps \<longleftrightarrow> sorted_wrt (before asc) (map fst ps)"

lemma ordered_simps [simp]:
  "ordered asc []" "ordered asc ((a, b) # ps) \<longleftrightarrow> (\<forall>p\<in>set ps. before asc a (fst p)) \<and> ordered asc ps"
  by (simp_all add: ordered_def)

lemma ordered_asc: "ordered True ps \<longleftrightarrow> kvOK ps"
  by (simp add: ordered_def kvOK_def before_def [abs_def])

lemma ordered_desc: "ordered False ps \<longleftrightarrow> kvOK (rev ps)"
  by (simp add: ordered_def kvOK_def before_def [abs_def] sorted_wrt_rev rev_map [symmetric])

lemma ordered_distinct: "ordered asc ps \<Longrightarrow> distinct (map fst ps)"
  by (induction ps) force+

lemma overlay_keys: "p \<in> set (overlay asc ps cs) \<Longrightarrow> fst p \<in> fst ` set ps \<union> fst ` set cs"
  by (induction asc ps cs rule: overlay.induct) (auto split: option.splits if_splits)

lemma overlay_after:
  assumes "\<forall>p\<in>set ps. before asc a (fst p)" "\<forall>p\<in>set cs. before asc a (fst p)"
  shows "\<forall>p\<in>set (overlay asc ps cs). before asc a (fst p)"
  using overlay_keys [of _ asc ps cs] assms by fastforce

lemma ordered_overlay: "ordered asc ps \<Longrightarrow> ordered asc cs \<Longrightarrow> ordered asc (overlay asc ps cs)"
proof (induction asc ps cs rule: overlay.induct)
  case (2 asc kc vc cs)
  then show ?case using overlay_after [of "[]" asc kc cs] by (auto split: option.splits)
next
  case (4 asc kp vp ps kc vc cs)
  consider "before asc kp kc" | "kp = kc" | "before asc kc kp" using before_linear by blast
  then show ?case
  proof cases
    case 1
    then have "\<forall>p\<in>set ((kc, vc) # cs). before asc kp (fst p)" using "4.prems" by (auto intro: before_trans)
    with 1 4 show ?thesis using overlay_after [of ps asc kp "(kc, vc) # cs"] by simp
  next
    case 2
    with 4 show ?thesis using overlay_after [of ps asc kc cs] by (auto split: option.splits)
  next
    case 3
    then have "\<forall>p\<in>set ((kp, vp) # ps). before asc kc (fst p)" using "4.prems" by (auto intro: before_trans)
    with 3 4 show ?thesis using overlay_after [of "(kp, vp) # ps" asc kc cs] before_asym [OF 3]
      by (auto split: option.splits)
  qed
qed auto

lemma ordered_map_of_None: "\<forall>p\<in>set ps. before asc a (fst p) \<Longrightarrow> map_of ps a = None"
  by (induction ps) auto

lemma map_of_overlay:
  "ordered asc ps \<Longrightarrow> ordered asc cs \<Longrightarrow>
   map_of (overlay asc ps cs) k = (case map_of cs k of None \<Rightarrow> map_of ps k | Some v \<Rightarrow> v)"
proof (induction asc ps cs rule: overlay.induct)
  case (2 asc kc vc cs)
  then show ?case using ordered_map_of_None [of cs asc kc] by (auto split: option.splits)
next
  case (4 asc kp vp ps kc vc cs)
  consider "before asc kp kc" | "kp = kc" | "before asc kc kp" using before_linear by blast
  then show ?case
  proof cases
    case 1
    then have "\<forall>p\<in>set ((kc, vc) # cs). before asc kp (fst p)" using "4.prems" by (auto intro: before_trans)
    from ordered_map_of_None [OF this] 1 "4.IH"(1) "4.prems" show ?thesis
      by (cases "k = kp"; cases "map_of cs k") (auto split: if_splits)
  next
    case 2
    with "4.IH"(2,3) "4.prems" show ?thesis using ordered_map_of_None [of cs asc kc] ordered_map_of_None [of ps asc kc]
      by (cases vc; cases "map_of cs k") auto
  next
    case 3
    then have "\<forall>p\<in>set ((kp, vp) # ps). before asc kc (fst p)" using "4.prems" by (auto intro: before_trans)
    from ordered_map_of_None [OF this] 3 "4.IH"(4,5) "4.prems" before_asym [OF 3] show ?thesis
      using ordered_map_of_None [of cs asc kc] by (cases vc; cases "map_of cs k") auto
  qed
qed auto

section \<open>The content of a cache\<close>

definition applyCV :: "bytes \<times> cValue \<Rightarrow> (bytes \<times> bytes) list \<Rightarrow> (bytes \<times> bytes) list" where
  "applyCV e ps = (case cvValue (snd e) of None \<Rightarrow> kvDelete (fst e) ps | Some v \<Rightarrow> kvSet (fst e) v ps)"

text \<open>What a reader of the cache sees: the parent's content with the pending writes applied.\<close>

definition cacheView :: "('p \<Rightarrow> (bytes \<times> bytes) list) \<Rightarrow> 'p cstore \<Rightarrow> (bytes \<times> bytes) list" where
  "cacheView view st = fold applyCV (dirty st) (view (parent st))"

text \<open>
  The invariant: the read list agrees with the parent, a pending entry without value is a deletion,
  and an entry that is not waiting in \<open>unsortedCache\<close> is in \<open>sortedCache\<close> with its current value.
\<close>

definition cvOK :: "(bytes \<times> cValue) list \<Rightarrow> bool" where
  "cvOK cs \<longleftrightarrow> (\<forall>e\<in>set cs. cvDeleted (snd e) = (cvValue (snd e) = None))"

definition cacheInv :: "('p \<Rightarrow> (bytes \<times> bytes) list) \<Rightarrow> ('p \<Rightarrow> bool) \<Rightarrow> 'p cstore \<Rightarrow> bool" where
  "cacheInv view pinv st \<longleftrightarrow> pinv (parent st) \<and> kvOK (dirty st) \<and> kvOK (readList st) \<and>
     kvOK (unsortedCache st) \<and> kvOK (sortedCache st) \<and> cvOK (dirty st) \<and>
     (\<forall>e\<in>set (readList st). map_of (view (parent st)) (fst e) = snd e) \<and>
     fst ` set (unsortedCache st) \<subseteq> fst ` set (dirty st) \<and>
     fst ` set (sortedCache st) \<subseteq> fst ` set (dirty st) \<and>
     (\<forall>e\<in>set (dirty st). map_of (unsortedCache st) (fst e) = None \<longrightarrow>
        map_of (sortedCache st) (fst e) = Some (cvValue (snd e)))"

lemma kvOK_applyCV [simp]: "kvOK ps \<Longrightarrow> kvOK (applyCV e ps)"
  by (auto simp: applyCV_def split: option.splits)

lemma map_of_applyCV: "kvOK ps \<Longrightarrow> map_of (applyCV e ps) = (map_of ps)(fst e := cvValue (snd e))"
  by (auto simp: applyCV_def map_of_kvSet map_of_kvDelete split: option.splits)

lemma length_applyCV: "length (applyCV e ps) \<le> Suc (length ps)"
  by (auto simp: applyCV_def length_kvSet intro: le_SucI [OF length_kvDelete] split: option.splits)

lemma kvOK_fold_applyCV [simp]: "kvOK ps \<Longrightarrow> kvOK (fold applyCV cs ps)"
  by (induction cs arbitrary: ps) auto

lemma map_of_fold_applyCV:
  "kvOK ps \<Longrightarrow> distinct (map fst cs) \<Longrightarrow>
   map_of (fold applyCV cs ps) k = (case map_of cs k of None \<Rightarrow> map_of ps k | Some cv \<Rightarrow> cvValue cv)"
proof (induction cs arbitrary: ps)
  case (Cons e cs)
  have "map_of cs (fst e) = None" using Cons.prems(2) by (simp add: map_of_eq_None_iff)
  with Cons.IH [of "applyCV e ps"] Cons.prems show ?case
    by (cases e; cases "map_of cs k") (auto simp: map_of_applyCV)
qed simp

text \<open>The order in which the entries are written does not matter.\<close>

lemma fold_applyCV_perm:
  assumes "kvOK ps" "distinct (map fst cs)" "distinct (map fst ds)" "set ds = set cs"
  shows "fold applyCV ds ps = fold applyCV cs ps"
proof -
  have "map_of ds = map_of cs" using assms(2-4) by (simp add: map_of_inject_set)
  with assms show ?thesis by (intro kvOK_unique) (auto simp: map_of_fold_applyCV fun_eq_iff)
qed

subsection \<open>Sorting the pending entries\<close>

lemma mergeUnsorted_keys: "p \<in> set (mergeUnsorted us ss) \<Longrightarrow> p \<in> set us \<or> p \<in> set ss"
  by (induction us ss rule: mergeUnsorted.induct) (auto split: if_splits)

lemma kvOK_mergeUnsorted: "kvOK us \<Longrightarrow> kvOK ss \<Longrightarrow> kvOK (mergeUnsorted us ss)"
proof (induction us ss rule: mergeUnsorted.induct)
  case (3 uk uv us sk sv ss)
  consider "uk < sk" | "sk < uk" | "uk = sk" by (rule linorder_cases)
  then show ?case
  proof cases
    case 1
    then have "\<forall>p\<in>set (mergeUnsorted us ((sk, sv) # ss)). uk < fst p"
      using "3.prems" by (auto dest!: mergeUnsorted_keys intro: less_trans)
    with 1 3 show ?thesis by simp
  next
    case 2
    then have "\<forall>p\<in>set (mergeUnsorted ((uk, uv) # us) ss). sk < fst p"
      using "3.prems" by (auto dest!: mergeUnsorted_keys intro: less_trans)
    with 2 3 show ?thesis by simp
  next
    case eq: 3
    then have "\<forall>p\<in>set (mergeUnsorted us ss). uk < fst p"
      using "3.prems" by (auto dest!: mergeUnsorted_keys)
    with eq 3 show ?thesis by simp
  qed
qed simp_all

lemma kvOK_map_of_None: "\<forall>p\<in>set ps. a < fst p \<Longrightarrow> map_of ps (a :: bytes) = None"
  by (induction ps) auto

lemma map_of_mergeUnsorted:
  "kvOK us \<Longrightarrow> kvOK ss \<Longrightarrow> map_of (mergeUnsorted us ss) = map_of ss ++ map_of us"
proof (induction us ss rule: mergeUnsorted.induct)
  case (3 uk uv us sk sv ss)
  consider "uk < sk" | "sk < uk" | "uk = sk" by (rule linorder_cases)
  then show ?case
  proof cases
    case 1
    with 3 show ?thesis by (simp add: map_add_def fun_eq_iff)
  next
    case 2
    then have "\<forall>p\<in>set ((uk, uv) # us). sk < fst p" using "3.prems" by (auto intro: less_trans)
    from kvOK_map_of_None [OF this] 2 less_not_sym [OF 2] 3 show ?thesis
      by (auto simp: map_add_def fun_eq_iff split: option.splits if_splits)
  next
    case eq: 3
    from "3.prems" eq have "map_of us uk = None" by (intro kvOK_map_of_None) auto
    with eq 3 show ?thesis by (auto simp: map_add_def fun_eq_iff split: option.splits)
  qed
qed simp_all

lemma IsKeyInDomain_between:
  "IsKeyInDomain a b e \<Longrightarrow> IsKeyInDomain c b e \<Longrightarrow> a \<le> x \<Longrightarrow> x \<le> c \<Longrightarrow> IsKeyInDomain x b e"
  by (auto simp: IsKeyInDomain_def split: if_splits option.splits)

lemma takeWhile_domain:
  assumes "kvOK ps" "\<forall>p\<in>set ps. a < fst p" "IsKeyInDomain a b e"
  shows "takeWhile (\<lambda>p. IsKeyInDomain (fst p) b e) ps = filter (\<lambda>p. IsKeyInDomain (fst p) b e) ps"
  using assms(1,2)
proof (induction ps)
  case (Cons p ps)
  show ?case
  proof (cases "IsKeyInDomain (fst p) b e")
    case False
    have "\<not> IsKeyInDomain (fst q) b e" if "q \<in> set ps" for q
      using False Cons.prems that assms(3) IsKeyInDomain_between [of a b e "fst q" "fst p"]
      by (cases p) (auto intro: less_imp_le)
    with False show ?thesis by (auto simp: filter_empty_conv)
  next
    case True
    with Cons show ?thesis by (cases p) auto
  qed
qed simp

lemma newMemIterator_range: "kvOK items \<Longrightarrow> newMemIterator b e items asc = kvRange b e asc items"
proof -
  assume ok: "kvOK items"
  then have "takeWhile (\<lambda>p. IsKeyInDomain (fst p) b e) (dropWhile (\<lambda>p. \<not> IsKeyInDomain (fst p) b e) items) =
    filter (\<lambda>p. IsKeyInDomain (fst p) b e) items"
  proof (induction items)
    case (Cons p ps)
    then show ?case using takeWhile_domain [of ps "fst p" b e] by (cases p) auto
  qed simp
  then show ?thesis by (simp add: newMemIterator_def kvRange_def)
qed

definition pendingItems :: "bytes option \<Rightarrow> bytes option \<Rightarrow> 'p cstore \<Rightarrow> (bytes \<times> bytes option) list" where
  "pendingItems b e st = map (\<lambda>(key, _). (key, dirtyValue st key))
     (filter (\<lambda>(key, _). IsKeyInDomain key b e) (unsortedCache st))"

lemma pendingItems_fst: "map fst (pendingItems b e st) = map fst (filter (\<lambda>(key, _). IsKeyInDomain key b e) (unsortedCache st))"
  by (simp add: pendingItems_def case_prod_unfold)

lemma kvOK_pendingItems: "kvOK (unsortedCache st) \<Longrightarrow> kvOK (pendingItems b e st)"
  using kvOK_filter [of "unsortedCache st" "\<lambda>(key, _). IsKeyInDomain key b e"]
  unfolding kvOK_def pendingItems_fst .

lemma map_of_pendingItems:
  "map_of (pendingItems b e st) k =
   (if IsKeyInDomain k b e \<and> map_of (unsortedCache st) k \<noteq> None then Some (dirtyValue st k) else None)"
proof -
  have "map_of (map (\<lambda>(key, _). (key, f key)) (filter (\<lambda>(key, _). P key) us)) k =
      (if P k \<and> map_of us k \<noteq> None then Some (f k) else None)" for f :: "bytes \<Rightarrow> bytes option" and P and us :: "(bytes \<times> unit) list"
    by (induction us) auto
  then show ?thesis by (simp add: pendingItems_def)
qed

lemma dirtyItems_simps [simp]:
  "dirty (dirtyItems b e st) = dirty st" "parent (dirtyItems b e st) = parent st"
  "readList (dirtyItems b e st) = readList st"
  "unsortedCache (dirtyItems b e st) = filter (\<lambda>(key, _). \<not> IsKeyInDomain key b e) (unsortedCache st)"
  by (simp_all add: dirtyItems_def Let_def)

lemma dirtyItems_sorted:
  assumes "kvOK (unsortedCache st)" "kvOK (sortedCache st)"
  shows "kvOK (sortedCache (dirtyItems b e st))"
    and "map_of (sortedCache (dirtyItems b e st)) k =
      (if IsKeyInDomain k b e \<and> map_of (unsortedCache st) k \<noteq> None then Some (dirtyValue st k)
       else map_of (sortedCache st) k)"
proof -
  note ok = kvOK_pendingItems [OF assms(1), of b e]
  then have "sort_key fst (pendingItems b e st) = pendingItems b e st"
    by (intro sort_key_id_if_sorted) (simp add: kvOK_def strict_sorted_iff)
  then have eq: "sortedCache (dirtyItems b e st) = mergeUnsorted (pendingItems b e st) (sortedCache st)"
    by (simp add: dirtyItems_def Let_def pendingItems_def)
  show "kvOK (sortedCache (dirtyItems b e st))"
    unfolding eq by (rule kvOK_mergeUnsorted [OF ok assms(2)])
  show "map_of (sortedCache (dirtyItems b e st)) k =
      (if IsKeyInDomain k b e \<and> map_of (unsortedCache st) k \<noteq> None then Some (dirtyValue st k)
       else map_of (sortedCache st) k)"
    unfolding eq by (simp add: map_of_mergeUnsorted [OF ok assms(2)] map_add_def map_of_pendingItems)
qed

lemma map_of_filter_key: "map_of (filter (\<lambda>(key, _). P key) us) k = (if P k then map_of us k else None)"
  by (induction us) auto

lemma in_keys_iff: "k \<in> fst ` set ps \<longleftrightarrow> map_of ps k \<noteq> None"
  by (simp add: map_of_eq_None_iff)

lemma dirtyItems_inv:
  assumes "cacheInv view pinv st"
  shows "cacheInv view pinv (dirtyItems b e st)"
proof -
  note inv = assms [unfolded cacheInv_def]
  have ok: "kvOK (unsortedCache st)" "kvOK (sortedCache st)" "kvOK (dirty st)" using inv by auto
  note sorted = dirtyItems_sorted [OF ok(1,2), of b e]
  have keys: "fst ` set (sortedCache (dirtyItems b e st)) \<subseteq> fst ` set (dirty st)"
  proof
    fix k assume "k \<in> fst ` set (sortedCache (dirtyItems b e st))"
    then have "map_of (unsortedCache st) k \<noteq> None \<or> map_of (sortedCache st) k \<noteq> None"
      unfolding in_keys_iff sorted(2) by (auto split: if_splits)
    then show "k \<in> fst ` set (dirty st)" using inv unfolding in_keys_iff [symmetric] by blast
  qed
  have cur: "map_of (sortedCache (dirtyItems b e st)) (fst p) = Some (cvValue (snd p))"
    if "p \<in> set (dirty st)" "map_of (unsortedCache (dirtyItems b e st)) (fst p) = None" for p
  proof -
    have "map_of (dirty st) (fst p) = Some (snd p)" using that(1) kvOK_distinct [OF ok(3)] by simp
    then have "dirtyValue st (fst p) = cvValue (snd p)" by (simp add: dirtyValue_def)
    with that inv show ?thesis
      unfolding sorted(2) by (auto simp: map_of_filter_key split: if_splits)
  qed
  show ?thesis
    using inv ok sorted(1) keys cur unfolding cacheInv_def by auto
qed

text \<open>After sorting, the sorted list shows the pending entries of the range.\<close>

lemma dirtyItems_map:
  assumes "cacheInv view pinv st" "IsKeyInDomain k b e"
  shows "map_of (sortedCache (dirtyItems b e st)) k = map_option cvValue (map_of (dirty st) k)"
proof -
  let ?st = "dirtyItems b e st"
  have inv: "cacheInv view pinv ?st" by (rule dirtyItems_inv [OF assms(1)])
  show ?thesis
  proof (cases "map_of (dirty st) k")
    case None
    then have "k \<notin> fst ` set (dirty st)" by (simp add: in_keys_iff)
    then have "k \<notin> fst ` set (sortedCache ?st)" using inv by (auto simp: cacheInv_def)
    with None show ?thesis by (simp add: in_keys_iff)
  next
    case (Some cv)
    then have "(k, cv) \<in> set (dirty ?st)" by (simp add: map_of_SomeD)
    moreover have "map_of (unsortedCache ?st) k = None" using assms(2) by (simp add: map_of_filter_key)
    ultimately show ?thesis using inv Some by (fastforce simp: cacheInv_def simp del: dirtyItems_simps)
  qed
qed

lemma ordered_range: "kvOK ps \<Longrightarrow> ordered asc (kvRange b e asc ps)"
  by (cases asc) (simp_all add: ordered_asc ordered_desc kvRange_def)

lemma ordered_unique: "ordered asc xs \<Longrightarrow> ordered asc ys \<Longrightarrow> map_of xs = map_of ys \<Longrightarrow> xs = ys"
proof (cases asc)
  case False
  assume *: "ordered asc xs" "ordered asc ys" "map_of xs = map_of ys"
  then have "map_of (rev xs) = map_of (rev ys)"
    using ordered_distinct [OF *(1)] ordered_distinct [OF *(2)] by (simp add: map_of_inject_set rev_map [symmetric])
  with * False have "rev xs = rev ys" by (intro kvOK_unique) (auto simp: ordered_desc)
  then show ?thesis by simp
qed (auto simp: ordered_asc intro: kvOK_unique)

lemma map_of_cacheView:
  assumes "cacheInv view pinv st" "kvOK (view (parent st))"
  shows "map_of (cacheView view st) k =
    (case map_of (dirty st) k of None \<Rightarrow> map_of (view (parent st)) k | Some cv \<Rightarrow> cvValue cv)"
  using assms kvOK_distinct [of "dirty st"] by (simp add: cacheView_def cacheInv_def map_of_fold_applyCV)

lemma cacheIterator_range:
  assumes inv: "cacheInv view pinv st" and ok: "kvOK (view (parent st))"
    and it: "opIterator ops b e asc (parent st) = (kvRange b e asc (view (parent st)), p)"
    and p: "pinv p" "view p = view (parent st)"
  shows "\<exists>st'. cacheIterator ops b e asc st = (kvRange b e asc (cacheView view st), st') \<and>
    cacheInv view pinv st' \<and> cacheView view st' = cacheView view st"
proof -
  let ?st = "st\<lparr>parent := p\<rparr>"
  have inv1: "cacheInv view pinv ?st" and v1: "cacheView view ?st = cacheView view st"
    using inv p by (simp_all add: cacheInv_def cacheView_def)
  let ?cs = "sortedCache (dirtyItems b e ?st)"
  have okc: "kvOK ?cs" using dirtyItems_inv [OF inv1] by (simp add: cacheInv_def)
  have okv: "kvOK (cacheView view st)" using ok by (simp add: cacheView_def)
  have "overlay asc (kvRange b e asc (view (parent st))) (kvRange b e asc ?cs) =
      kvRange b e asc (cacheView view st)"
  proof (rule ordered_unique)
    show "ordered asc (overlay asc (kvRange b e asc (view (parent st))) (kvRange b e asc ?cs))"
      by (intro ordered_overlay ordered_range ok okc)
    show "ordered asc (kvRange b e asc (cacheView view st))" by (rule ordered_range [OF okv])
    show "map_of (overlay asc (kvRange b e asc (view (parent st))) (kvRange b e asc ?cs)) =
        map_of (kvRange b e asc (cacheView view st))"
      using map_of_overlay [OF ordered_range [OF ok] ordered_range [OF okc], of asc b e b e]
        dirtyItems_map [OF inv1, of _ b e] map_of_cacheView [OF inv ok]
      by (auto simp: fun_eq_iff map_of_range ok okc okv split: option.splits)
  qed
  moreover have "cacheInv view pinv (dirtyItems b e ?st)" by (rule dirtyItems_inv [OF inv1])
  moreover have "cacheView view (dirtyItems b e ?st) = cacheView view st" using v1 by (simp add: cacheView_def)
  ultimately show ?thesis
    by (simp add: cacheIterator_def it mergeAll_overlay newMemIterator_range [OF okc])
qed

section \<open>A cache over a store is a store\<close>

lemma keys_subset_kvSet: "A \<subseteq> fst ` set ps \<Longrightarrow> A \<subseteq> fst ` set (kvSet k v ps)"
  by (auto simp: fst_set_kvSet)

lemma cvOK_kvSet:
  assumes "cvOK cs" "d = (val = None)"
  shows "cvOK (kvSet k \<lparr>cvValue = val, cvDeleted = d\<rparr> cs)"
proof -
  have "e \<in> set (kvSet k c ps) \<Longrightarrow> e = (k, c) \<or> e \<in> set ps" for e and c :: cValue and ps
    by (induction k c ps rule: kvSet.induct) (auto split: if_splits)
  with assms show ?thesis unfolding cvOK_def by fastforce
qed

lemma kvOK_cacheView: "kvOK (view (parent st)) \<Longrightarrow> kvOK (cacheView view st)"
  by (simp add: cacheView_def)

lemma setCacheValue_inv:
  assumes "cacheInv view pinv st" "kvOK (view (parent st))"
  shows "cacheInv view pinv (setCacheValue k val (val = None) True st)"
    and "cacheView view (setCacheValue k val (val = None) True st) =
      applyCV (k, \<lparr>cvValue = val, cvDeleted = (val = None)\<rparr>) (cacheView view st)"
proof -
  let ?cv = "\<lparr>cvValue = val, cvDeleted = (val = None)\<rparr>"
  let ?st = "setCacheValue k val (val = None) True st"
  note inv = assms(1) [unfolded cacheInv_def]
  have ok: "kvOK (dirty st)" "kvOK (unsortedCache st)" using inv by auto
  have st: "dirty ?st = kvSet k ?cv (dirty st)" "unsortedCache ?st = kvSet k () (unsortedCache st)"
    "parent ?st = parent st" "readList ?st = readList st" "sortedCache ?st = sortedCache st"
    by (simp_all add: setCacheValue_def)
  have cur: "map_of (sortedCache st) (fst e) = Some (cvValue (snd e))"
    if "e \<in> set (kvSet k ?cv (dirty st))" "map_of (kvSet k () (unsortedCache st)) (fst e) = None" for e
  proof -
    have "map_of (kvSet k ?cv (dirty st)) (fst e) = Some (snd e)"
      using that(1) kvOK_distinct [OF kvOK_set [OF ok(1)]] by simp
    moreover have "fst e \<noteq> k" "map_of (unsortedCache st) (fst e) = None"
      using that(2) by (auto simp: map_of_kvSet ok split: if_splits)
    ultimately have "e \<in> set (dirty st)" by (cases e) (auto simp: map_of_kvSet ok dest: map_of_SomeD)
    with inv \<open>map_of (unsortedCache st) (fst e) = None\<close> show ?thesis by blast
  qed
  show inv': "cacheInv view pinv ?st"
    unfolding cacheInv_def st using inv cur
    by (auto simp: fst_set_kvSet intro!: cvOK_kvSet)
  have okv: "kvOK (view (parent ?st))" using assms(2) by (simp add: st)
  show "cacheView view ?st = applyCV (k, ?cv) (cacheView view st)"
  proof (rule kvOK_unique)
    show "map_of (cacheView view ?st) = map_of (applyCV (k, ?cv) (cacheView view st))"
      unfolding map_of_applyCV [OF kvOK_cacheView [of view st, OF assms(2)]]
      by (rule ext) (simp add: map_of_cacheView [OF inv' okv] map_of_cacheView [OF assms] st map_of_kvSet ok split: option.split)
  qed (simp_all add: kvOK_cacheView assms(2) okv)
qed

lemma cacheGet_spec:
  assumes "cacheInv view pinv st" "kvOK (view (parent st))"
    and get: "opGet ops k (parent st) = (map_of (view (parent st)) k, p)" "pinv p" "view p = view (parent st)"
  shows "\<exists>st'. cacheGet ops k st = (map_of (cacheView view st) k, st') \<and>
    cacheInv view pinv st' \<and> cacheView view st' = cacheView view st"
proof (cases "map_of (dirty st) k")
  case (Some cv)
  with assms(1) map_of_cacheView [OF assms(1,2), of k] show ?thesis by (simp add: cacheGet_def)
next
  case None
  show ?thesis
  proof (cases "map_of (readList st) k")
    case (Some c)
    then have "map_of (view (parent st)) k = c"
      using assms(1) by (force simp: cacheInv_def dest: map_of_SomeD)
    with None Some assms(1) map_of_cacheView [OF assms(1,2), of k] show ?thesis by (simp add: cacheGet_def)
  next
    case r: None
    let ?v = "map_of (view (parent st)) k" and ?st = "st\<lparr>parent := p\<rparr>"
    have inv: "cacheInv view pinv ?st" "cacheView view ?st = cacheView view st"
      using assms by (simp_all add: cacheInv_def cacheView_def)
    have "\<forall>e\<in>set (kvSet k ?v (readList st)). map_of (view (parent st)) (fst e) = snd e"
    proof
      fix e assume "e \<in> set (kvSet k ?v (readList st))"
      then have "map_of (kvSet k ?v (readList st)) (fst e) = Some (snd e)"
        using kvOK_distinct [OF kvOK_set [of "readList st" k ?v]] assms(1) by (simp add: cacheInv_def)
      then show "map_of (view (parent st)) (fst e) = snd e"
        using assms(1) by (force simp: cacheInv_def map_of_kvSet dest: map_of_SomeD split: if_splits)
    qed
    with inv get(3) have "cacheInv view pinv (setCacheValue k ?v False False ?st)"
      "cacheView view (setCacheValue k ?v False False ?st) = cacheView view st"
      by (simp_all add: cacheInv_def cacheView_def setCacheValue_def)
    with None r inv map_of_cacheView [OF assms(1,2), of k] get(1) show ?thesis
      by (simp add: cacheGet_def Let_def)
  qed
qed

text \<open>The parent keeps the contract, with byte slices as values.\<close>

locale byte_store = kv_store ops view inv fits
  for ops :: "('s, bytes) kvops" and view and inv and fits
begin

lemma parent_ok: "cacheInv view inv st \<Longrightarrow> kvOK (view (parent st))"
  by (simp add: cacheInv_def view_ok)

lemma cache_store: "byte_store (cacheOps ops) (cacheView view) (cacheInv view inv) (\<lambda>_. True)"
proof
  fix st k v b e asc
  assume inv: "cacheInv view inv st"
  note ok = parent_ok [OF inv]
  have pinv: "inv (parent st)" using inv by (simp add: cacheInv_def)
  show "kvOK (cacheView view st)" using ok by (rule kvOK_cacheView)
  show "\<exists>st'. opGet (cacheOps ops) k st = (map_of (cacheView view st) k, st') \<and>
      cacheInv view inv st' \<and> cacheView view st' = cacheView view st"
    using get_spec [OF pinv, of k] cacheGet_spec [OF inv ok, of ops k] by (auto simp: cacheOps_def)
  show "\<exists>st'. opSet (cacheOps ops) k v st = Some st' \<and> cacheInv view inv st' \<and>
      cacheView view st' = kvSet k v (cacheView view st)"
    using setCacheValue_inv [OF inv ok, of k "Some v"] by (simp add: cacheOps_def cacheSet_def applyCV_def)
  show "\<exists>st'. opDelete (cacheOps ops) k st = Some st' \<and> cacheInv view inv st' \<and>
      cacheView view st' = kvDelete k (cacheView view st)"
    using setCacheValue_inv [OF inv ok, of k None] by (simp add: cacheOps_def cacheDelete_def applyCV_def)
  show "\<exists>st'. opIterator (cacheOps ops) b e asc st = (kvRange b e asc (cacheView view st), st') \<and>
      cacheInv view inv st' \<and> cacheView view st' = cacheView view st"
    using iterator_spec [OF pinv, of b e asc] cacheIterator_range [OF inv ok, of ops b e asc]
    by (auto simp: cacheOps_def)
qed simp

lemma NewStore_inv: "inv p \<Longrightarrow> cacheInv view inv (NewStore p)" "cacheView view (NewStore p) = view p"
  by (simp_all add: cacheInv_def cacheView_def NewStore_def cvOK_def)

lemma clearCache_inv: "inv (parent st) \<Longrightarrow> cacheInv view inv (clearCache st)"
  "cacheView view (clearCache st) = view (parent st)" "parent (clearCache st) = parent st"
  by (simp_all add: cacheInv_def cacheView_def clearCache_def cvOK_def)

text \<open>Writing the pending entries to the parent.\<close>

lemma writeEntry_spec:
  assumes "inv p" "fits (Suc (length (view p)))" "cvDeleted cv = (cvValue cv = None)"
  shows "\<exists>p'. writeEntry ops k cv p = Some p' \<and> inv p' \<and> view p' = applyCV (k, cv) (view p)"
  using delete_spec [OF assms(1), of k] set_spec [OF assms(1,2), of k] assms(3)
  by (auto simp: writeEntry_def applyCV_def split: option.splits)

lemma writeEntries_spec:
  assumes "inv p" "fits (length (view p) + length cs)" "cvOK cs"
  shows "\<exists>p'. writeEntries ops cs p = Some p' \<and> inv p' \<and> view p' = fold applyCV cs (view p)"
  using assms
proof (induction cs arbitrary: p)
  case (Cons e cs)
  obtain k cv where e: "e = (k, cv)" by (cases e)
  have "fits (Suc (length (view p)))" by (rule fits_mono [OF Cons.prems(2)]) simp
  from writeEntry_spec [OF Cons.prems(1) this, of cv k] Cons.prems(3) e obtain p1 where
    1: "writeEntry ops k cv p = Some p1" "inv p1" "view p1 = applyCV e (view p)" by (auto simp: cvOK_def)
  have "fits (length (view p1) + length cs)"
    by (rule fits_mono [OF Cons.prems(2)]) (use length_applyCV [of e "view p"] 1(3) in simp)
  from Cons.IH [OF 1(2) this] 1 e Cons.prems(3) show ?case by (auto simp: cvOK_def)
qed simp

lemma Write_spec:
  assumes "cacheInv view inv st" "fits (length (view (parent st)) + length (dirty st))"
  shows "\<exists>st'. Write ops st = Some st' \<and> cacheInv view inv st' \<and> dirty st' = [] \<and>
    view (parent st') = cacheView view st \<and> cacheView view st' = cacheView view st"
proof -
  from assms(1) have "inv (parent st)" "cvOK (dirty st)" by (auto simp: cacheInv_def)
  from writeEntries_spec [OF this(1) assms(2) this(2)] obtain p where
    p: "writeEntries ops (dirty st) (parent st) = Some p" "inv p" "view p = cacheView view st"
    by (auto simp: cacheView_def)
  with clearCache_inv [of "st\<lparr>parent := p\<rparr>"] show ?thesis
    by (auto simp: Write_def clearCache_def)
qed

end

section \<open>Snapshots and stacked caches\<close>

definition revertCV :: "bytes \<times> bytes option \<Rightarrow> bytes \<times> cValue" where
  "revertCV w = (fst w, \<lparr>cvValue = snd w, cvDeleted = (snd w = None)\<rparr>)"

lemma map_fst_revertCV [simp]: "map fst (map revertCV ws) = map fst ws"
  by (simp add: revertCV_def)

lemma map_of_revertCV: "map_of (map revertCV ws) k = map_option (\<lambda>v. \<lparr>cvValue = v, cvDeleted = (v = None)\<rparr>) (map_of ws k)"
  by (induction ws) (auto simp: revertCV_def)

lemma writeToCacheKv_simps:
  "parent (writeToCacheKv order st) = fold writeToCacheEntry order (parent st)"
  "dirty (writeToCacheKv order st) = []"
  by (cases st; simp add: writeToCacheKv_def clearCache_def)+

lemma map_of_map_keyfun:
  "map_of (map (\<lambda>e. (fst e, f (fst e))) xs) k = (if map_of xs k = None then None else Some (f k))"
  by (induction xs) auto

context byte_store
begin

lemma writeToCacheEntry_spec:
  assumes "cacheInv view inv st" "cvDeleted cv = (cvValue cv = None)"
  shows "cacheInv view inv (writeToCacheEntry (k, cv) st)"
    "cacheView view (writeToCacheEntry (k, cv) st) = applyCV (k, cv) (cacheView view st)"
    "parent (writeToCacheEntry (k, cv) st) = parent st"
proof -
  have "writeToCacheEntry (k, cv) st = setCacheValue k (cvValue cv) (cvValue cv = None) True st"
    using assms(2) by (auto simp: writeToCacheEntry_def cacheSet_def cacheDelete_def split: option.splits)
  moreover have cv: "\<lparr>cvValue = cvValue cv, cvDeleted = (cvValue cv = None)\<rparr> = cv"
    using assms(2) by (cases cv) simp
  ultimately show "cacheInv view inv (writeToCacheEntry (k, cv) st)"
    "cacheView view (writeToCacheEntry (k, cv) st) = applyCV (k, cv) (cacheView view st)"
    "parent (writeToCacheEntry (k, cv) st) = parent st"
    using setCacheValue_inv [OF assms(1) parent_ok [OF assms(1)], of k "cvValue cv", unfolded cv]
    by (simp_all add: setCacheValue_def)
qed

lemma fold_writeToCacheEntry:
  assumes "cacheInv view inv st" "cvOK cs"
  shows "cacheInv view inv (fold writeToCacheEntry cs st) \<and>
    cacheView view (fold writeToCacheEntry cs st) = fold applyCV cs (cacheView view st) \<and>
    parent (fold writeToCacheEntry cs st) = parent st"
  using assms
proof (induction cs arbitrary: st)
  case (Cons e cs)
  then have "cvDeleted (snd e) = (cvValue (snd e) = None)" "cvOK cs" by (auto simp: cvOK_def)
  with Cons.IH [OF _ this(2)] writeToCacheEntry_spec [OF Cons.prems(1) this(1), of "fst e"] show ?case by simp
qed simp

lemma writeToCacheKv_spec:
  assumes "cacheInv (cacheView view) (cacheInv view inv) st"
    and "distinct (map fst order)" "set order = set (dirty st)"
  shows "cacheInv view inv (parent (writeToCacheKv order st))"
    and "cacheView view (parent (writeToCacheKv order st)) = cacheView (cacheView view) st"
    and "parent (parent (writeToCacheKv order st)) = parent (parent st)"
    and "dirty (writeToCacheKv order st) = []"
proof -
  have inv: "cacheInv view inv (parent st)" "kvOK (dirty st)" "cvOK order"
    using assms(1,3) by (auto simp: cacheInv_def [of "cacheView view"] cvOK_def)
  note w = fold_writeToCacheEntry [OF inv(1,3)] and p = writeToCacheKv_simps [of order st]
  show "cacheInv view inv (parent (writeToCacheKv order st))"
    "parent (parent (writeToCacheKv order st)) = parent (parent st)"
    "dirty (writeToCacheKv order st) = []"
    unfolding p using w by simp_all
  have "fold applyCV order (cacheView view (parent st)) = fold applyCV (dirty st) (cacheView view (parent st))"
    by (rule fold_applyCV_perm [OF kvOK_cacheView [of view "parent st", OF parent_ok [OF inv(1)]]
      kvOK_distinct [OF inv(2)] assms(2,3)])
  then show "cacheView view (parent (writeToCacheKv order st)) = cacheView (cacheView view) st"
    unfolding p cacheView_def [of "cacheView view"] using w by simp
qed

lemma writeSnapshot_spec:
  assumes "inv p" "fits (length (view p) + length cs)" "cvOK cs" "distinct (map fst cs)"
  shows "\<exists>p'. writeSnapshot ops cs p = Some (map (\<lambda>e. (fst e, map_of (view p) (fst e))) cs, p') \<and>
    inv p' \<and> view p' = fold applyCV cs (view p)"
  using assms
proof (induction cs arbitrary: p)
  case (Cons e cs)
  obtain k cv where e: "e = (k, cv)" by (cases e)
  from get_spec [OF Cons.prems(1), of k] obtain p0 where
    0: "opGet ops k p = (map_of (view p) k, p0)" "inv p0" "view p0 = view p" by auto
  have "fits (Suc (length (view p0)))" by (rule fits_mono [OF Cons.prems(2)]) (simp add: 0)
  from writeEntry_spec [OF 0(2) this, of cv k] Cons.prems(3) e obtain p1 where
    1: "writeEntry ops k cv p0 = Some p1" "inv p1" "view p1 = applyCV e (view p)" by (auto simp: cvOK_def 0)
  have "fits (length (view p1) + length cs)"
    by (rule fits_mono [OF Cons.prems(2)]) (use length_applyCV [of e "view p"] 1(3) in simp)
  moreover have "map_of (view p1) (fst a) = map_of (view p) (fst a)" if "a \<in> set cs" for a
    using that Cons.prems(4) 1(3) e by (auto simp: map_of_applyCV view_ok [OF Cons.prems(1)])
  ultimately show ?case using Cons.IH [OF 1(2)] 0 1 e Cons.prems(3,4) by (auto simp: cvOK_def Let_def)
qed simp

lemma Revert_fold: "RevertSnapshotWSet ws st = fold writeToCacheEntry (map revertCV ws) st"
  by (induction ws st rule: RevertSnapshotWSet.induct)
    (simp_all add: writeToCacheEntry_def revertCV_def split: option.splits)

text \<open>Writing with a snapshot and then reverting, in any order, gives the old content of the parent.\<close>

lemma snapshot_revert:
  assumes inv: "cacheInv view inv st" and fits: "fits (length (view (parent st)) + length (dirty st))"
  shows "\<exists>ws st'. WriteWithSnapshotWSet ops st = Some (ws, st') \<and> distinct (map fst ws) \<and>
    view (parent st') = cacheView view st \<and> cacheInv view inv st' \<and>
    (\<forall>ws'. distinct (map fst ws') \<and> set ws' = set ws \<longrightarrow>
      cacheInv view inv (RevertSnapshotWSet ws' st') \<and>
      cacheView view (RevertSnapshotWSet ws' st') = view (parent st))"
proof -
  let ?pv = "view (parent st)"
  let ?ws = "map (\<lambda>e. (fst e, map_of ?pv (fst e))) (dirty st)"
  from inv have p: "inv (parent st)" "cvOK (dirty st)" "distinct (map fst (dirty st))"
    by (auto simp: cacheInv_def kvOK_distinct)
  from writeSnapshot_spec [OF p(1) fits p(2,3)] obtain p' where
    p': "writeSnapshot ops (dirty st) (parent st) = Some (?ws, p')" "inv p'" "view p' = cacheView view st"
    by (auto simp: cacheView_def)
  let ?st = "clearCache (st\<lparr>parent := p'\<rparr>)"
  have st': "cacheInv view inv ?st" "cacheView view ?st = cacheView view st" "parent ?st = p'"
    using clearCache_inv [of "st\<lparr>parent := p'\<rparr>"] p' by simp_all
  have d: "distinct (map fst ?ws)" using p(3) by (simp add: comp_def)
  have "cacheInv view inv (RevertSnapshotWSet ws ?st) \<and> cacheView view (RevertSnapshotWSet ws ?st) = ?pv"
    if ws: "distinct (map fst ws)" "set ws = set ?ws" for ws
  proof -
    have "cvOK (map revertCV ws)" by (simp add: cvOK_def revertCV_def)
    note w = fold_writeToCacheEntry [OF st'(1) this]
    have "map_of ws = map_of ?ws" using ws d by (simp add: map_of_inject_set)
    then have m: "map_of ws k = (if map_of (dirty st) k = None then None else Some (map_of ?pv k))" for k
      by (simp add: map_of_map_keyfun)
    have okv: "kvOK (cacheView view st)" by (simp add: parent_ok [OF inv] kvOK_cacheView)
    have "fold applyCV (map revertCV ws) (cacheView view st) = ?pv"
    proof (rule kvOK_unique)
      show "map_of (fold applyCV (map revertCV ws) (cacheView view st)) = map_of ?pv"
        unfolding fun_eq_iff map_of_fold_applyCV [OF okv ws(1) [folded map_fst_revertCV]]
        using map_of_cacheView [OF inv parent_ok [OF inv]]
        by (simp add: map_of_revertCV m split: option.splits)
    qed (simp_all add: parent_ok [OF inv] kvOK_cacheView)
    with w st' show ?thesis by (simp add: Revert_fold)
  qed
  with p' st' d show ?thesis by (auto simp: WriteWithSnapshotWSet_def)
qed

end

context byte_store
begin

text \<open>Commands on a cache leave the content of the parent alone.\<close>

lemma step_parent:
  assumes "cacheInv view inv st" "kvStep (cacheOps ops) c st = Some (r, st')"
  shows "view (parent st') = view (parent st) \<and> length (dirty st') \<le> Suc (length (dirty st))"
proof (cases c)
  case (CGet k)
  from assms(1) have "inv (parent st)" by (simp add: cacheInv_def)
  from get_spec [OF this, of k] CGet assms(2) show ?thesis
    by (auto simp: cacheOps_def cacheGet_def setCacheValue_def Let_def split: option.splits if_splits)
next
  case (CSet k v)
  with assms(2) show ?thesis by (auto simp: cacheOps_def cacheSet_def setCacheValue_def length_kvSet)
next
  case (CDelete k)
  with assms(2) show ?thesis by (auto simp: cacheOps_def cacheDelete_def setCacheValue_def length_kvSet)
next
  case (CIter b e asc)
  from assms(1) have "inv (parent st)" by (simp add: cacheInv_def)
  from iterator_spec [OF this, of b e asc] CIter assms(2) show ?thesis
    by (auto simp: cacheOps_def cacheIterator_def Let_def)
qed

lemma run_parent:
  assumes "cacheInv view inv st"
  shows "\<exists>rs st'. kvRun (cacheOps ops) cs st = Some (rs, st') \<and> cacheInv view inv st' \<and>
    kvRun listOps cs (cacheView view st) = Some (rs, cacheView view st') \<and>
    view (parent st') = view (parent st) \<and> length (dirty st') \<le> length (dirty st) + length cs"
  using assms
proof (induction cs arbitrary: st)
  case (Cons c cs)
  from kv_store.step_spec [OF byte_store.axioms [OF cache_store] Cons.prems TrueI, of c]
  obtain r st1 where 1: "kvStep (cacheOps ops) c st = Some (r, st1)" "cacheInv view inv st1"
    "kvStep listOps c (cacheView view st) = Some (r, cacheView view st1)" by blast
  from Cons.IH [OF 1(2)] step_parent [OF Cons.prems 1(1)] 1 show ?case by fastforce
qed simp

text \<open>A block of commands on a fresh cache, then discarded or written.\<close>

lemma cache_commit:
  assumes "inv p" "fits (length (view p) + length cs)"
  shows "\<exists>rs st st'. kvRun (cacheOps ops) cs (NewStore p) = Some (rs, st) \<and>
    kvRun listOps cs (view p) = Some (rs, cacheView view st) \<and>
    inv (parent st) \<and> view (parent st) = view p \<and>
    Write ops st = Some st' \<and> inv (parent st') \<and> view (parent st') = cacheView view st"
proof -
  from run_parent [OF NewStore_inv(1) [OF assms(1)], of cs] obtain rs st where
    st: "kvRun (cacheOps ops) cs (NewStore p) = Some (rs, st)" "cacheInv view inv st"
    "kvRun listOps cs (view p) = Some (rs, cacheView view st)"
    "view (parent st) = view p" "length (dirty st) \<le> length cs"
    using NewStore_inv(2) [of p] by (auto simp: NewStore_def)
  have "fits (length (view (parent st)) + length (dirty st))"
    by (rule fits_mono [OF assms(2)]) (use st in simp)
  from Write_spec [OF st(2) this] st show ?thesis by (auto simp: cacheInv_def)
qed

end

lemma kvRun_append:
  "kvRun ops cs s = Some (rs1, s1) \<Longrightarrow> kvRun ops ds s1 = Some (rs2, s2) \<Longrightarrow>
   kvRun ops (cs @ ds) s = Some (rs1 @ rs2, s2)"
  by (induction cs arbitrary: s rs1) auto

lemma length_dirty_fold: "length (dirty (fold writeToCacheEntry es st)) \<le> length (dirty st) + length es"
proof (induction es arbitrary: st)
  case (Cons e es)
  have "length (dirty (writeToCacheEntry e st)) \<le> Suc (length (dirty st))"
    by (auto simp: writeToCacheEntry_def cacheSet_def cacheDelete_def setCacheValue_def length_kvSet
      split: option.splits)
  with Cons.IH [of "writeToCacheEntry e st"] show ?case by simp
qed simp

context byte_store
begin

text \<open>The parent changes by reads only, so whatever its reads keep is kept.\<close>

lemma run_keeps:
  assumes get: "\<And>k s. inv s \<Longrightarrow> Q (snd (opGet ops k s)) = Q s"
    and iter: "\<And>b e asc s. inv s \<Longrightarrow> Q (snd (opIterator ops b e asc s)) = Q s"
    and inv: "cacheInv view inv st" and run: "kvRun (cacheOps ops) cs st = Some (rs, st')"
  shows "Q (parent st') = Q (parent st)"
  using inv run
proof (induction cs arbitrary: st rs)
  case (Cons c cs)
  from Cons.prems(2) obtain r st1 rs1 where
    1: "kvStep (cacheOps ops) c st = Some (r, st1)" "kvRun (cacheOps ops) cs st1 = Some (rs1, st')" by auto
  have inv1: "cacheInv view inv st1"
    using kv_store.step_spec [OF byte_store.axioms [OF cache_store] Cons.prems(1) TrueI, of c] 1(1) by auto
  have p: "inv (parent st)" using Cons.prems(1) by (simp add: cacheInv_def)
  have "Q (parent st1) = Q (parent st)"
  proof (cases c)
    case (CGet k)
    with 1(1) get [OF p, of k] show ?thesis
      by (auto simp: cacheOps_def cacheGet_def setCacheValue_def Let_def split: option.splits prod.splits if_splits)
  next
    case (CIter b e asc)
    with 1(1) iter [OF p, of b e asc] show ?thesis
      by (auto simp: cacheOps_def cacheIterator_def Let_def split: prod.splits)
  qed (use 1(1) in \<open>auto simp: cacheOps_def cacheSet_def cacheDelete_def setCacheValue_def\<close>)
  with Cons.IH [OF inv1 1(2)] show ?case by simp
qed simp

lemma cacheOps_reads:
  assumes "cacheInv view inv s"
  shows "(dirty (snd (opGet (cacheOps ops) k s)), view (parent (snd (opGet (cacheOps ops) k s)))) = (dirty s, view (parent s))"
    and "(dirty (snd (opIterator (cacheOps ops) b e asc s)), view (parent (snd (opIterator (cacheOps ops) b e asc s)))) =
      (dirty s, view (parent s))"
proof -
  have p: "inv (parent s)" using assms by (simp add: cacheInv_def)
  from get_spec [OF p, of k]
  show "(dirty (snd (opGet (cacheOps ops) k s)), view (parent (snd (opGet (cacheOps ops) k s)))) = (dirty s, view (parent s))"
    by (auto simp: cacheOps_def cacheGet_def setCacheValue_def Let_def split: option.splits)
  from iterator_spec [OF p, of b e asc]
  show "(dirty (snd (opIterator (cacheOps ops) b e asc s)), view (parent (snd (opIterator (cacheOps ops) b e asc s)))) =
      (dirty s, view (parent s))"
    by (auto simp: cacheOps_def cacheIterator_def Let_def)
qed

text \<open>A message cache on top of a transaction cache: discarded, or written through both layers.\<close>

lemma nested_cache:
  assumes "inv p" "fits (length (view p) + (length cs + length ds))"
    and run1: "kvRun (cacheOps ops) cs (NewStore p) = Some (rs1, st1)"
    and run2: "kvRun (cacheOps (cacheOps ops)) ds (NewStore st1) = Some (rs2, st2)"
    and order: "distinct (map fst order)" "set order = set (dirty st2)"
  shows "cacheView view (parent st2) = cacheView view st1 \<and> view (parent (parent st2)) = view p \<and>
    (\<exists>st3. Write ops (parent (writeToCacheKv order st2)) = Some st3 \<and>
      kvRun listOps (cs @ ds) (view p) = Some (rs1 @ rs2, view (parent st3)))"
proof -
  have st1: "cacheInv view inv st1" "kvRun listOps cs (view p) = Some (rs1, cacheView view st1)"
    "view (parent st1) = view p" "length (dirty st1) \<le> length cs"
    using run_parent [OF NewStore_inv(1) [OF assms(1)], of cs] run1 NewStore_inv(2) [of p]
    by (auto simp: NewStore_def)
  note c = cache_store
  have st2: "cacheInv (cacheView view) (cacheInv view inv) st2"
    "kvRun listOps ds (cacheView view st1) = Some (rs2, cacheView (cacheView view) st2)"
    "cacheView view (parent st2) = cacheView view st1" "length (dirty st2) \<le> length ds"
    using byte_store.run_parent [OF c byte_store.NewStore_inv(1) [OF c st1(1)], of ds] run2
      byte_store.NewStore_inv(2) [OF c, of st1] by (auto simp: NewStore_def)
  let ?st = "parent (writeToCacheKv order st2)"
  note w = writeToCacheKv_spec [OF st2(1) order]
  have "(dirty (parent st2), view (parent (parent st2))) = (dirty (parent (NewStore st1)), view (parent (parent (NewStore st1))))"
    by (rule byte_store.run_keeps [OF c cacheOps_reads byte_store.NewStore_inv(1) [OF c st1(1)] run2])
  then have pv: "view (parent (parent st2)) = view p" and dl: "length (dirty (parent st2)) \<le> length cs"
    using st1(3,4) by (simp_all add: NewStore_def)
  have "length order = length (dirty st2)"
    using order st2(1) by (metis cacheInv_def distinct_card distinct_map kvOK_distinct)
  then have "length (dirty ?st) \<le> length cs + length ds"
    using length_dirty_fold [of order "parent st2"] st2(4) dl by (simp add: writeToCacheKv_simps)
  then have "fits (length (view (parent ?st)) + length (dirty ?st))"
    by (intro fits_mono [OF assms(2)]) (simp add: w pv)
  from Write_spec [OF w(1) this] w(2) kvRun_append [OF st1(2) st2(2)] st2(3) pv show ?thesis by auto
qed

end

end
