(* ===== verification/PrefixStore.thy ===== *)
theory PrefixStore
  imports KVStore
begin

text \<open>
  The prefix store of \<open>libs/cosmos-sdk/store/prefix/store.go\<close> and \<open>PrefixEndBytes\<close> of
  \<open>store/types/utils.go\<close>: a view of the keys of a store that begin with a prefix. The modules of
  the chain keep their records under one-byte prefixes and list them with prefix iterators.
\<close>

section \<open>Definitions\<close>

definition bytesHasPrefix :: "bytes \<Rightarrow> bytes \<Rightarrow> bool" where
  "bytesHasPrefix key pre \<longleftrightarrow> take (length pre) key = pre"

text \<open>
  \<open>PrefixEndBytes\<close> removes bytes \<open>FF\<close> from the end and increments the last byte that is left; the
  loop works on the reversed slice.
\<close>

fun incrementLast :: "bytes \<Rightarrow> bytes option" where
  "incrementLast [] = None"
| "incrementLast (c # cs) =
     (if c \<noteq> CHR 0xFF then Some (char_of ((of_char c :: nat) + 1) # cs) else incrementLast cs)"

definition PrefixEndBytes :: "bytes \<Rightarrow> bytes option" where
  "PrefixEndBytes pre = map_option rev (incrementLast (rev pre))"

definition InclusiveEndBytes :: "bytes \<Rightarrow> bytes" where
  "InclusiveEndBytes inclusiveBytes = inclusiveBytes @ [CHR 0x00]"

definition KVStorePrefixIterator :: "('s, 'v) kvops \<Rightarrow> bytes \<Rightarrow> 's \<Rightarrow> (bytes \<times> 'v) list \<times> 's" where
  "KVStorePrefixIterator ops pre s = opIterator ops (Some pre) (PrefixEndBytes pre) True s"

definition KVStoreReversePrefixIterator :: "('s, 'v) kvops \<Rightarrow> bytes \<Rightarrow> 's \<Rightarrow> (bytes \<times> 'v) list \<times> 's" where
  "KVStoreReversePrefixIterator ops pre s = opIterator ops (Some pre) (PrefixEndBytes pre) False s"

definition cloneAppend :: "bytes \<Rightarrow> bytes option \<Rightarrow> bytes" where
  "cloneAppend bz tail = bz @ (case tail of None \<Rightarrow> [] | Some t \<Rightarrow> t)"

text \<open>The panic of \<open>stripPrefix\<close> is \<^term>\<open>None\<close>.\<close>

definition stripPrefix :: "bytes \<Rightarrow> bytes \<Rightarrow> bytes option" where
  "stripPrefix key pre = (if bytesHasPrefix key pre then Some (drop (length pre) key) else None)"

text \<open>
  The iterator is valid as long as the parent's key has the prefix; \<open>Key\<close> strips it.
\<close>

fun prefixIterator :: "bytes \<Rightarrow> (bytes \<times> 'v) list \<Rightarrow> (bytes \<times> 'v) list" where
  "prefixIterator pre [] = []"
| "prefixIterator pre ((k, v) # ps) =
     (if \<not> bytesHasPrefix k pre then []
      else case stripPrefix k pre of None \<Rightarrow> [] | Some k' \<Rightarrow> (k', v) # prefixIterator pre ps)"

definition prefixIterate ::
  "bytes \<Rightarrow> ('s, 'v) kvops \<Rightarrow> bytes option \<Rightarrow> bytes option \<Rightarrow> bool \<Rightarrow> 's \<Rightarrow> (bytes \<times> 'v) list \<times> 's" where
  "prefixIterate pre ops start end ascending s =
     (let newstart = cloneAppend pre start;
          newend = (case end of None \<Rightarrow> PrefixEndBytes pre | Some e \<Rightarrow> Some (cloneAppend pre (Some e)));
          (ps, s') = opIterator ops (Some newstart) newend ascending s in
      (prefixIterator pre ps, s'))"

definition prefixOps :: "bytes \<Rightarrow> ('s, 'v) kvops \<Rightarrow> ('s, 'v) kvops" where
  "prefixOps pre ops =
     \<lparr>opGet = (\<lambda>key s. opGet ops (cloneAppend pre (Some key)) s),
      opSet = (\<lambda>key val s. opSet ops (cloneAppend pre (Some key)) val s),
      opDelete = (\<lambda>key s. opDelete ops (cloneAppend pre (Some key)) s),
      opIterator = prefixIterate pre ops\<rparr>"

section \<open>The interval of a prefix\<close>

lemma IsKeyInDomain_iff:
  "IsKeyInDomain k b e \<longleftrightarrow>
   (case b of None \<Rightarrow> [] | Some x \<Rightarrow> x) \<le> k \<and> (case e of None \<Rightarrow> True | Some x \<Rightarrow> k < x)"
  by (auto simp: IsKeyInDomain_def split: option.splits)

lemma of_char_lt: "(of_char c :: nat) < 256"
  using of_char_mod_256 [of c, where ?'a = nat] by (metis mod_less_divisor zero_less_numeral)

lemma char_FF: "c \<le> CHR 0xFF"
proof -
  have "of_char (CHR 0xFF) = (255 :: nat)" by simp
  with of_char_lt [of c] show ?thesis unfolding less_eq_char_def by linarith
qed

lemma char_between: "c \<noteq> CHR 0xFF \<Longrightarrow> x < char_of ((of_char c :: nat) + 1) \<longleftrightarrow> x \<le> c"
proof -
  assume "c \<noteq> CHR 0xFF"
  then have "of_char c \<noteq> (of_char (CHR 0xFF) :: nat)" unfolding of_char_eq_iff .
  moreover have "of_char (CHR 0xFF) = (255 :: nat)" by simp
  ultimately have "(of_char c :: nat) + 1 < 256" using of_char_lt [of c] by linarith
  then show ?thesis by (simp add: less_char_def less_eq_char_def of_char_of) linarith
qed

lemma append_less_cancel: "q @ (a :: bytes) < q @ b \<longleftrightarrow> a < b" "q @ (a :: bytes) \<le> q @ b \<longleftrightarrow> a \<le> b"
  by (induction q) auto

lemma PrefixEndBytes_snoc:
  "PrefixEndBytes (q @ [c]) = (if c \<noteq> CHR 0xFF then Some (q @ [char_of ((of_char c :: nat) + 1)]) else PrefixEndBytes q)"
  by (simp add: PrefixEndBytes_def)

lemma between_prefix: "q \<le> k \<Longrightarrow> k < q @ e \<Longrightarrow> \<exists>r. k = q @ (r :: bytes)"
proof (induction q arbitrary: k)
  case (Cons a q)
  then show ?case by (cases k) auto
qed simp

lemma snoc_interval:
  assumes "\<And>x. x < d \<longleftrightarrow> x \<le> c"
  shows "q @ [c] \<le> (k :: bytes) \<and> k < q @ [d] \<longleftrightarrow> (\<exists>r. k = q @ c # r)"
proof (induction q arbitrary: k)
  case Nil
  have "(c < x \<or> c = x) \<and> x < d \<longleftrightarrow> x = c" for x
    unfolding assms by auto
  then show ?case by (cases k) auto
next
  case (Cons a q)
  show ?case
  proof (cases k)
    case (Cons x xs)
    with \<open>\<And>k. (q @ [c] \<le> k \<and> k < q @ [d]) = (\<exists>r. k = q @ c # r)\<close> [of xs] show ?thesis by auto
  qed simp
qed

text \<open>The keys between a prefix and its end bytes are exactly the keys with the prefix.\<close>

lemma prefix_interval: "IsKeyInDomain k (Some pre) (PrefixEndBytes pre) \<longleftrightarrow> (\<exists>r. k = pre @ r)"
proof (induction pre rule: rev_induct)
  case Nil
  then show ?case by (simp add: IsKeyInDomain_def PrefixEndBytes_def)
next
  case (snoc c q)
  show ?case
  proof (cases "c = CHR 0xFF")
    case False
    note * = snoc_interval [OF char_between [OF False], of q k]
    from * False show ?thesis by (simp add: PrefixEndBytes_snoc IsKeyInDomain_iff)
  next
    case True
    have le: "q \<le> q @ [c]" by (induction q) auto
    have "IsKeyInDomain k (Some (q @ [c])) (PrefixEndBytes q) \<longleftrightarrow>
        q @ [c] \<le> k \<and> IsKeyInDomain k (Some q) (PrefixEndBytes q)"
      using le by (auto simp: IsKeyInDomain_iff)
    also have "\<dots> \<longleftrightarrow> (\<exists>r. k = q @ c # r)"
    proof
      assume "q @ [c] \<le> k \<and> IsKeyInDomain k (Some q) (PrefixEndBytes q)"
      then obtain r where r: "k = q @ r" "[c] \<le> r" using snoc by (auto simp: append_less_cancel)
      then show "\<exists>r. k = q @ c # r" using True char_FF by (cases r) (auto simp: antisym)
    qed (use snoc in \<open>auto simp: append_less_cancel\<close>)
    finally show ?thesis using True by (simp add: PrefixEndBytes_snoc)
  qed
qed

lemma prefix_domain:
  "IsKeyInDomain k (Some (cloneAppend pre b))
     (case e of None \<Rightarrow> PrefixEndBytes pre | Some x \<Rightarrow> Some (cloneAppend pre (Some x))) \<longleftrightarrow>
   (\<exists>r. k = pre @ r \<and> IsKeyInDomain r b e)"
proof -
  let ?b = "case b of None \<Rightarrow> [] | Some t \<Rightarrow> t"
  have le: "pre \<le> pre @ ?b" by (induction pre) auto
  show ?thesis
  proof (cases e)
    case None
    have "IsKeyInDomain k (Some (pre @ ?b)) (PrefixEndBytes pre) \<longleftrightarrow>
        pre @ ?b \<le> k \<and> IsKeyInDomain k (Some pre) (PrefixEndBytes pre)"
      using le by (auto simp: IsKeyInDomain_iff)
    also have "\<dots> \<longleftrightarrow> (\<exists>r. k = pre @ r \<and> ?b \<le> r)"
      unfolding prefix_interval by (auto simp: append_less_cancel)
    finally show ?thesis using None by (simp add: cloneAppend_def IsKeyInDomain_iff [of _ b])
  next
    case (Some x)
    have "pre @ ?b \<le> k \<and> k < pre @ x \<longleftrightarrow> (\<exists>r. k = pre @ r \<and> ?b \<le> r \<and> r < x)"
    proof
      assume a: "pre @ ?b \<le> k \<and> k < pre @ x"
      with le between_prefix obtain r where "k = pre @ r" by (blast intro: order_trans)
      with a show "\<exists>r. k = pre @ r \<and> ?b \<le> r \<and> r < x" by (auto simp: append_less_cancel)
    qed (auto simp: append_less_cancel)
    with Some show ?thesis by (simp add: cloneAppend_def IsKeyInDomain_iff)
  qed
qed

section \<open>A prefix store is a store\<close>

text \<open>The content of the prefix store: the entries with the prefix, which is stripped.\<close>

definition prefixView :: "bytes \<Rightarrow> (bytes \<times> 'v) list \<Rightarrow> (bytes \<times> 'v) list" where
  "prefixView pre ps =
     map (\<lambda>(k, v). (drop (length pre) k, v)) (filter (\<lambda>(k, v). bytesHasPrefix k pre) ps)"

lemma bytesHasPrefix_iff: "bytesHasPrefix k pre \<longleftrightarrow> (\<exists>r. k = pre @ r)"
  by (auto simp: bytesHasPrefix_def) (metis append_take_drop_id)

lemma prefixView_simps [simp]:
  "prefixView pre [] = []"
  "prefixView pre ((k, v) # ps) =
     (if bytesHasPrefix k pre then (drop (length pre) k, v) # prefixView pre ps else prefixView pre ps)"
  by (simp_all add: prefixView_def)

lemma map_of_prefixView: "map_of (prefixView pre ps) k = map_of ps (pre @ k)"
  by (induction ps) (auto simp: bytesHasPrefix_iff)

lemma prefixView_keys: "q \<in> set (prefixView pre ps) \<Longrightarrow> \<exists>p\<in>set ps. fst p = pre @ fst q"
  by (auto simp: prefixView_def bytesHasPrefix_iff) force

lemma kvOK_prefixView: "kvOK ps \<Longrightarrow> kvOK (prefixView pre ps)"
proof (induction ps)
  case (Cons p ps)
  obtain k v where p: "p = (k, v)" by (cases p)
  have "drop (length pre) k < fst q" if "bytesHasPrefix k pre" "q \<in> set (prefixView pre ps)" for q
  proof -
    from prefixView_keys [OF that(2)] Cons.prems p have "k < pre @ fst q" by auto
    with that(1) show ?thesis by (auto simp: bytesHasPrefix_iff append_less_cancel)
  qed
  with Cons p show ?case by auto
qed simp

lemma prefixIterator_all:
  "(\<forall>p\<in>set ps. bytesHasPrefix (fst p) pre) \<Longrightarrow> prefixIterator pre ps = prefixView pre ps"
  by (induction pre ps rule: prefixIterator.induct) (auto simp: stripPrefix_def)

lemma prefixView_rev: "prefixView pre (rev ps) = rev (prefixView pre ps)"
  by (simp add: prefixView_def rev_filter rev_map)

lemma prefixIterate_range:
  assumes "opIterator ops (Some (cloneAppend pre b))
      (case e of None \<Rightarrow> PrefixEndBytes pre | Some x \<Rightarrow> Some (cloneAppend pre (Some x))) asc s =
      (kvRange (Some (cloneAppend pre b))
        (case e of None \<Rightarrow> PrefixEndBytes pre | Some x \<Rightarrow> Some (cloneAppend pre (Some x))) asc ps, s')"
  shows "prefixIterate pre ops b e asc s = (kvRange b e asc (prefixView pre ps), s')"
proof -
  let ?e = "case e of None \<Rightarrow> PrefixEndBytes pre | Some x \<Rightarrow> Some (cloneAppend pre (Some x))"
  let ?r = "filter (\<lambda>p. IsKeyInDomain (fst p) (Some (cloneAppend pre b)) ?e) ps"
  have r: "prefixView pre ?r = filter (\<lambda>p. IsKeyInDomain (fst p) b e) (prefixView pre ps)"
    unfolding prefix_domain by (induction ps) (auto simp: bytesHasPrefix_iff)
  have all: "\<forall>p\<in>set ?r. bytesHasPrefix (fst p) pre"
    unfolding prefix_domain by (auto simp: bytesHasPrefix_iff)
  have "prefixIterator pre (kvRange (Some (cloneAppend pre b)) ?e asc ps) = kvRange b e asc (prefixView pre ps)"
    using all r by (simp add: kvRange_def Let_def prefixIterator_all prefixView_rev)
  with assms show ?thesis by (simp add: prefixIterate_def Let_def)
qed

lemma prefix_set:
  "kvOK ps \<Longrightarrow> prefixView pre (kvSet (pre @ k) v ps) = kvSet k v (prefixView pre ps)"
  by (rule kvOK_unique) (auto simp: kvOK_prefixView map_of_prefixView map_of_kvSet fun_eq_iff)

lemma prefix_delete:
  "kvOK ps \<Longrightarrow> prefixView pre (kvDelete (pre @ k) ps) = kvDelete k (prefixView pre ps)"
  by (rule kvOK_unique) (auto simp: kvOK_prefixView map_of_prefixView map_of_kvDelete fun_eq_iff)

text \<open>
  The parent must hold any number of entries, as the cache stores do: how many entries it holds
  under other prefixes does not show in the view.
\<close>

locale unbounded_store = kv_store ops view inv "\<lambda>_. True"
  for ops :: "('s, 'v) kvops" and view and inv
begin

lemma prefix_store: "unbounded_store (prefixOps pre ops) (\<lambda>s. prefixView pre (view s)) inv"
proof
  fix s k v b e asc
  assume inv: "inv s"
  show "kvOK (prefixView pre (view s))" by (rule kvOK_prefixView [OF view_ok [OF inv]])
  show "\<exists>s'. opGet (prefixOps pre ops) k s = (map_of (prefixView pre (view s)) k, s') \<and> inv s' \<and>
      prefixView pre (view s') = prefixView pre (view s)"
    using get_spec [OF inv, of "pre @ k"] by (auto simp: prefixOps_def cloneAppend_def map_of_prefixView)
  show "\<exists>s'. opSet (prefixOps pre ops) k v s = Some s' \<and> inv s' \<and>
      prefixView pre (view s') = kvSet k v (prefixView pre (view s))"
    using set_spec [OF inv TrueI, of "pre @ k" v] prefix_set [OF view_ok [OF inv]]
    by (auto simp: prefixOps_def cloneAppend_def)
  show "\<exists>s'. opDelete (prefixOps pre ops) k s = Some s' \<and> inv s' \<and>
      prefixView pre (view s') = kvDelete k (prefixView pre (view s))"
    using delete_spec [OF inv, of "pre @ k"] prefix_delete [OF view_ok [OF inv]]
    by (auto simp: prefixOps_def cloneAppend_def)
  show "\<exists>s'. opIterator (prefixOps pre ops) b e asc s = (kvRange b e asc (prefixView pre (view s)), s') \<and>
      inv s' \<and> prefixView pre (view s') = prefixView pre (view s)"
    using iterator_spec [OF inv] prefixIterate_range by (fastforce simp: prefixOps_def)
qed simp

text \<open>Keys without the prefix are out of reach.\<close>

lemma prefix_step_frame:
  assumes "inv s" "kvStep (prefixOps pre ops) c s = Some (r, s')" "\<not> bytesHasPrefix j pre"
  shows "map_of (view s') j = map_of (view s) j"
proof -
  have ne: "pre @ k \<noteq> j" for k using assms(3) by (auto simp: bytesHasPrefix_iff)
  show ?thesis
  proof (cases c)
    case (CGet k)
    with assms get_spec [OF assms(1), of "pre @ k"] show ?thesis by (auto simp: prefixOps_def cloneAppend_def)
  next
    case (CSet k v)
    with assms set_spec [OF assms(1) TrueI, of "pre @ k" v] ne view_ok [OF assms(1)] show ?thesis
      by (auto simp: prefixOps_def cloneAppend_def map_of_kvSet)
  next
    case (CDelete k)
    with assms delete_spec [OF assms(1), of "pre @ k"] ne show ?thesis
      by (auto simp: prefixOps_def cloneAppend_def map_of_kvDelete)
  next
    case (CIter b e asc)
    with assms iterator_spec [OF assms(1)] show ?thesis
      by (auto simp: prefixOps_def prefixIterate_def Let_def split: prod.splits) (metis prod.inject)
  qed
qed

lemma prefix_run:
  assumes "inv s"
  shows "\<exists>rs s'. kvRun (prefixOps pre ops) cs s = Some (rs, s') \<and> inv s' \<and>
    kvRun listOps cs (prefixView pre (view s)) = Some (rs, prefixView pre (view s')) \<and>
    (\<forall>j. \<not> bytesHasPrefix j pre \<longrightarrow> map_of (view s') j = map_of (view s) j)"
  using assms
proof (induction cs arbitrary: s)
  case (Cons c cs)
  from kv_store.step_spec [OF unbounded_store.axioms [OF prefix_store] Cons.prems TrueI, of pre c]
  obtain r s1 where 1: "kvStep (prefixOps pre ops) c s = Some (r, s1)" "inv s1"
    "kvStep listOps c (prefixView pre (view s)) = Some (r, prefixView pre (view s1))" by blast
  from Cons.IH [OF 1(2)] prefix_step_frame [OF Cons.prems 1(1)] 1 show ?case by fastforce
qed simp

lemma prefix_iterator:
  assumes "inv s"
  shows "\<exists>s'. KVStorePrefixIterator ops pre s = (filter (\<lambda>p. bytesHasPrefix (fst p) pre) (view s), s') \<and>
    inv s' \<and> view s' = view s"
  using iterator_spec [OF assms, of "Some pre" "PrefixEndBytes pre" True]
  by (auto simp: KVStorePrefixIterator_def kvRange_def prefix_interval bytesHasPrefix_iff)

end

interpretation listStore: unbounded_store listOps "\<lambda>s. s" kvOK
  by (rule unbounded_store.intro) (rule reference.kv_store_axioms)

end
