(* ===== verification/StoreStack.thy ===== *)
theory StoreStack
  imports Iavl CacheKV PrefixStore
begin

text \<open>
  The stores as they are stacked while a block is executed: the committed IAVL store, the cache a
  transaction runs on, the cache one of its messages runs on, and the prefix store through which a
  module sees its records. The contracts of the components are put together by interpretation.
\<close>

section \<open>Interpretations\<close>

interpretation tree: byte_store iavlOps storeView storeInv small
  by (rule byte_store.intro) (rule iavl.kv_store_axioms)

interpretation tx: byte_store "cacheOps iavlOps" "cacheView storeView" "cacheInv storeView storeInv" "\<lambda>_. True"
  by (rule tree.cache_store)

interpretation msg: byte_store "cacheOps (cacheOps iavlOps)" "cacheView (cacheView storeView)"
  "cacheInv (cacheView storeView) (cacheInv storeView storeInv)" "\<lambda>_. True"
  by (rule tx.cache_store)

interpretation cacheStore: unbounded_store "cacheOps iavlOps" "cacheView storeView" "cacheInv storeView storeInv"
  by (rule unbounded_store.intro) (rule tx.kv_store_axioms)

interpretation moduleStore: unbounded_store "prefixOps pre (cacheOps iavlOps)"
  "\<lambda>s. prefixView pre (cacheView storeView s)" "cacheInv storeView storeInv" for pre
  by (rule cacheStore.prefix_store)

lemma tx_run:
  assumes "storeInv s" "kvRun (cacheOps iavlOps) cs (NewStore s) = Some (rs, st)"
  shows "cacheInv storeView storeInv st" "kvRun listOps cs (storeView s) = Some (rs, cacheView storeView st)"
    "storeView (parent st) = storeView s" "length (dirty st) \<le> length cs"
  using tree.run_parent [OF tree.NewStore_inv(1) [OF assms(1)], of cs] tree.NewStore_inv(2) [of s] assms(2)
  by (auto simp: NewStore_def)

text \<open>Sizes, for the bound on the number of entries.\<close>

lemma writeSnapshot_length: "writeSnapshot ops cs p = Some (ws, p') \<Longrightarrow> length ws = length cs"
  by (induction cs arbitrary: p ws) (auto simp: Let_def split: prod.splits)

lemma snapshot_shape:
  "WriteWithSnapshotWSet ops st = Some (ws, st1) \<Longrightarrow> length ws = length (dirty st) \<and> dirty st1 = []"
  by (auto simp: WriteWithSnapshotWSet_def clearCache_def dest: writeSnapshot_length)

lemma parent_fold_write: "parent (fold writeToCacheEntry es st) = parent st"
proof (induction es arbitrary: st)
  case (Cons e es)
  have "parent (writeToCacheEntry e st) = parent st"
    by (simp add: writeToCacheEntry_def cacheSet_def cacheDelete_def setCacheValue_def split: option.split)
  with Cons show ?case by simp
qed simp

lemma revert_size:
  "parent (RevertSnapshotWSet ws st) = parent st"
  "length (dirty (RevertSnapshotWSet ws st)) \<le> length (dirty st) + length ws"
  using length_dirty_fold [of "map revertCV ws" st] by (simp_all add: tree.Revert_fold parent_fold_write)

lemma length_cacheView: "length (cacheView view st) \<le> length (view (parent st)) + length (dirty st)"
proof -
  have "length (fold applyCV cs ps) \<le> length ps + length cs" for cs ps
  proof (induction cs arbitrary: ps)
    case (Cons e cs)
    with length_applyCV [of e ps] show ?case by (fastforce intro: le_trans)
  qed simp
  then show ?thesis by (simp add: cacheView_def)
qed

section \<open>Properties\<close>

text \<open>
  C36. A transaction cache is transparent, isolated and atomic: commands run on a fresh cache over the
  IAVL store return what the reference store returns, without any effect on the store below; then
  \<open>Write\<close> succeeds and makes the content of the store the content the cache showed.
\<close>

theorem tx_cache_commit:
  assumes "storeInv s" "length (storeView s) + length cs < 2 ^ 63"
  shows "\<exists>rs st st'. kvRun (cacheOps iavlOps) cs (NewStore s) = Some (rs, st) \<and>
    kvRun listOps cs (storeView s) = Some (rs, cacheView storeView st) \<and>
    storeView (parent st) = storeView s \<and>
    Write iavlOps st = Some st' \<and> storeInv (parent st') \<and> storeView (parent st') = cacheView storeView st"
  using tree.cache_commit [OF assms(1), of cs] assms(2) unfolding small_def by blast

text \<open>
  C37. Caches stack: a message cache on top of a transaction cache leaves both layers below as they
  were until it is written, and writing it into the transaction cache, in whatever order the map of
  pending entries is visited, and then writing that cache to the IAVL store has the effect of
  running the commands of both caches one after the other on the reference store.
\<close>

theorem nested_cache_commit:
  assumes "storeInv s" "length (storeView s) + (length cs + length ds) < 2 ^ 63"
    and "kvRun (cacheOps iavlOps) cs (NewStore s) = Some (rs1, st1)"
    and "kvRun (cacheOps (cacheOps iavlOps)) ds (NewStore st1) = Some (rs2, st2)"
    and "distinct (map fst order)" "set order = set (dirty st2)"
  shows "cacheView storeView (parent st2) = cacheView storeView st1 \<and>
    storeView (parent (parent st2)) = storeView s \<and>
    (\<exists>st3. Write iavlOps (parent (writeToCacheKv order st2)) = Some st3 \<and>
      kvRun listOps (cs @ ds) (storeView s) = Some (rs1 @ rs2, storeView (parent st3)))"
  using tree.nested_cache [OF assms(1) _ assms(3-6)] assms(2) unfolding small_def by blast

text \<open>
  C38. Writing with a snapshot and reverting is a round trip: after \<open>WriteWithSnapshotWSet\<close> the store
  holds what the cache showed, and reverting the recorded values, in any order, and writing once more
  gives the store its old content back.
\<close>

theorem snapshot_roundtrip:
  assumes "storeInv s" "length (storeView s) + 2 * length cs < 2 ^ 63"
    and "kvRun (cacheOps iavlOps) cs (NewStore s) = Some (rs, st)"
    and "WriteWithSnapshotWSet iavlOps st = Some (ws, st1)"
    and "distinct (map fst ws')" "set ws' = set ws"
  shows "storeView (parent st1) = cacheView storeView st \<and>
    cacheView storeView (RevertSnapshotWSet ws' st1) = storeView s \<and>
    (\<exists>st2. Write iavlOps (RevertSnapshotWSet ws' st1) = Some st2 \<and> storeView (parent st2) = storeView s)"
proof -
  note st = tx_run [OF assms(1,3)]
  have "small (length (storeView (parent st)) + length (dirty st))" using st(3,4) assms(2) by (simp add: small_def)
  from tree.snapshot_revert [OF st(1) this] assms(4-6) st(3) have
    r: "storeView (parent st1) = cacheView storeView st" "cacheInv storeView storeInv (RevertSnapshotWSet ws' st1)"
      "cacheView storeView (RevertSnapshotWSet ws' st1) = storeView s" "distinct (map fst ws)" by auto
  have lens: "length ws' = length ws"
    using assms(5,6) r(4) by (metis distinct_card distinct_map)
  have len: "length (dirty (RevertSnapshotWSet ws' st1)) \<le> length cs"
    "length (storeView (parent (RevertSnapshotWSet ws' st1))) \<le> length (storeView s) + length cs"
    using revert_size [of ws' st1] snapshot_shape [OF assms(4)] st(3,4) length_cacheView [of storeView st]
      r(1) lens by simp_all
  then have "small (length (storeView (parent (RevertSnapshotWSet ws' st1))) + length (dirty (RevertSnapshotWSet ws' st1)))"
    using assms(2) by (simp add: small_def)
  from tree.Write_spec [OF r(2) this] r show ?thesis by auto
qed

text \<open>
  C39. A prefix store over a transaction cache is a store of its own: commands never panic and return
  what the reference store returns on the entries with the prefix, and the entries under any other
  key stay as they were. In particular \<open>PrefixEndBytes\<close> ends the range of a prefix exactly, also when
  the prefix ends in bytes \<open>FF\<close>.
\<close>

theorem prefix_store_refines:
  assumes "cacheInv storeView storeInv st" "\<not> bytesHasPrefix j pre"
  shows "\<exists>rs st'. kvRun (prefixOps pre (cacheOps iavlOps)) cs st = Some (rs, st') \<and>
    kvRun listOps cs (prefixView pre (cacheView storeView st)) = Some (rs, prefixView pre (cacheView storeView st')) \<and>
    map_of (cacheView storeView st') j = map_of (cacheView storeView st) j \<and>
    IsKeyInDomain (pre @ k) (Some pre) (PrefixEndBytes pre) \<and>
    \<not> IsKeyInDomain j (Some pre) (PrefixEndBytes pre)"
  using cacheStore.prefix_run [OF assms(1), of pre cs] assms(2)
  by (auto simp: prefix_interval bytesHasPrefix_iff)

section \<open>Witnesses\<close>

definition exCmds2 :: "bytes kvCmd list" where
  "exCmds2 = [CSet ''b'' ''9'', CDelete ''a'']"

lemma exRun1:
  "\<exists>st1. kvRun (cacheOps iavlOps) exCmds (NewStore exIavl) =
     Some ([RDone, RDone, RDone, RGet (Some ''2''), RIter [(''a'', ''2'')]], st1) \<and>
   cacheInv storeView storeInv st1 \<and> cacheView storeView st1 = [(''a'', ''2''), (''c'', ''3'')] \<and>
   length (dirty st1) \<le> 5 \<and> storeView (parent st1) = [(''b'', ''1'')]"
  using tree.run_parent [OF tree.NewStore_inv(1) [OF exIavl_inv(1)], of exCmds] tree.NewStore_inv(2) [of exIavl]
  by (auto simp: exIavl_inv(2) exCmds_run NewStore_def) (simp add: exCmds_def)

theorem tx_cache_commit_witness:
  "\<exists>st st'. kvRun (cacheOps iavlOps) exCmds (NewStore exIavl) =
     Some ([RDone, RDone, RDone, RGet (Some ''2''), RIter [(''a'', ''2'')]], st) \<and>
   storeView (parent st) = [(''b'', ''1'')] \<and> Write iavlOps st = Some st' \<and>
   storeView (parent st') = [(''a'', ''2''), (''c'', ''3'')]"
proof -
  have "length (storeView exIavl) + length exCmds < 2 ^ 63" by (simp add: exIavl_inv(2) exCmds_def)
  from tx_cache_commit [OF exIavl_inv(1) this] show ?thesis
    unfolding exIavl_inv(2) exCmds_run by fastforce
qed

theorem nested_cache_commit_witness:
  "\<exists>rs1 st1 rs2 st2 st3. kvRun (cacheOps iavlOps) exCmds (NewStore exIavl) = Some (rs1, st1) \<and>
   kvRun (cacheOps (cacheOps iavlOps)) exCmds2 (NewStore st1) = Some (rs2, st2) \<and>
   Write iavlOps (parent (writeToCacheKv (rev (dirty st2)) st2)) = Some st3 \<and>
   storeView (parent st3) = [(''b'', ''9''), (''c'', ''3'')]"
proof -
  from exRun1 obtain rs1 st1 where 1: "kvRun (cacheOps iavlOps) exCmds (NewStore exIavl) = Some (rs1, st1)"
    "cacheInv storeView storeInv st1" by blast
  from tx.run_parent [OF tx.NewStore_inv(1) [OF 1(2)], of exCmds2] obtain rs2 st2 where
    2: "kvRun (cacheOps (cacheOps iavlOps)) exCmds2 (NewStore st1) = Some (rs2, st2)" "kvOK (dirty st2)"
    by (auto simp: cacheInv_def [of "cacheView storeView"])
  have len: "length (storeView exIavl) + (length exCmds + length exCmds2) < 2 ^ 63"
    by (simp add: exIavl_inv(2) exCmds_def exCmds2_def)
  have ord: "distinct (map fst (rev (dirty st2)))" "set (rev (dirty st2)) = set (dirty st2)"
    using kvOK_distinct [OF 2(2)] by (simp_all add: rev_map [symmetric])
  have "kvRun listOps (exCmds @ exCmds2) [(''b'', ''1'')] = Some (rs, ps) \<Longrightarrow> ps = [(''b'', ''9''), (''c'', ''3'')]" for rs ps
    by (simp add: exCmds_def exCmds2_def listOps_def kvDelete_def kvRange_def IsKeyInDomain_def)
  with nested_cache_commit [OF exIavl_inv(1) len 1(1) 2(1) ord] 1(1) 2(1) show ?thesis
    unfolding exIavl_inv(2) by blast
qed

theorem snapshot_roundtrip_witness:
  "\<exists>rs st ws st1 st2. kvRun (cacheOps iavlOps) exCmds (NewStore exIavl) = Some (rs, st) \<and>
   WriteWithSnapshotWSet iavlOps st = Some (ws, st1) \<and>
   storeView (parent st1) = [(''a'', ''2''), (''c'', ''3'')] \<and>
   Write iavlOps (RevertSnapshotWSet ws st1) = Some st2 \<and> storeView (parent st2) = [(''b'', ''1'')]"
proof -
  from exRun1 obtain rs st where 1: "kvRun (cacheOps iavlOps) exCmds (NewStore exIavl) = Some (rs, st)"
    "cacheInv storeView storeInv st" "cacheView storeView st = [(''a'', ''2''), (''c'', ''3'')]"
    "length (dirty st) \<le> 5" "storeView (parent st) = [(''b'', ''1'')]" by blast
  then have "small (length (storeView (parent st)) + length (dirty st))" by (simp add: small_def)
  from tree.snapshot_revert [OF 1(2) this] obtain ws st1 where
    2: "WriteWithSnapshotWSet iavlOps st = Some (ws, st1)" "distinct (map fst ws)" by blast
  have "length (storeView exIavl) + 2 * length exCmds < 2 ^ 63" by (simp add: exIavl_inv(2) exCmds_def)
  from snapshot_roundtrip [OF exIavl_inv(1) this 1(1) 2 refl] 1(1,3) 2(1) show ?thesis
    unfolding exIavl_inv(2) by auto
qed

theorem prefix_store_refines_witness:
  "\<exists>rs st'. kvRun (prefixOps ''a'' (cacheOps iavlOps)) [CSet ''b'' ''1'', CIter None None True] (NewStore exIavl) =
      Some ([RDone, RIter [(''b'', ''1'')]], st') \<and>
    map_of (cacheView storeView st') ''b'' = Some ''1''"
proof -
  have 1: "cacheInv storeView storeInv (NewStore exIavl)" "cacheView storeView (NewStore exIavl) = [(''b'', ''1'')]"
    using tree.NewStore_inv(1) [OF exIavl_inv(1)] tree.NewStore_inv(2) [of exIavl] exIavl_inv(2) by simp_all
  have 2: "\<not> bytesHasPrefix ''b'' ''a''" by (simp add: bytesHasPrefix_def)
  have m: "map_of [(''b'', ''1'')] ''b'' = Some ''1''" by simp
  have run: "kvRun listOps [CSet ''b'' ''1'', CIter None None True] (prefixView ''a'' [(''b'', ''1'')]) =
      Some ([RDone, RIter [(''b'', ''1'')]], [(''b'', ''1'')])"
    by (simp add: listOps_def bytesHasPrefix_def kvRange_def IsKeyInDomain_def)
  from prefix_store_refines [OF 1(1) 2, of "[CSet ''b'' ''1'', CIter None None True]"] obtain rs st' where
    3: "kvRun (prefixOps ''a'' (cacheOps iavlOps)) [CSet ''b'' ''1'', CIter None None True] (NewStore exIavl) = Some (rs, st')"
      "kvRun listOps [CSet ''b'' ''1'', CIter None None True] (prefixView ''a'' [(''b'', ''1'')]) =
        Some (rs, prefixView ''a'' (cacheView storeView st'))"
      "map_of (cacheView storeView st') ''b'' = Some ''1''"
    unfolding 1(2) m by blast
  from trans [OF 3(2) [symmetric] run] have "rs = [RDone, RIter [(''b'', ''1'')]]" by simp
  with 3(1,3) show ?thesis by blast
qed

end
