(* ===== verification/GasStore.thy ===== *)
theory GasStore
  imports StoreStack "HOL-Library.Word"
begin

text \<open>
  Gas: the meters of \<open>libs/cosmos-sdk/store/types/gas.go\<close> with their 64-bit counters, and the store of
  \<open>store/gaskv/store.go\<close> that charges every operation of a module. A panic of a meter carries its
  error and leaves the counters as they are at that moment; \<open>ParentPanic\<close> is a panic of the store
  below.
\<close>

section \<open>Definitions\<close>

subsection \<open>Meters\<close>

type_synonym Gas = "64 word"

datatype GasError = ErrorOutOfGas string | ErrorGasOverflow string

text \<open>The limit and the gas consumed.\<close>

datatype GasMeter = BasicGasMeter Gas Gas | InfiniteGasMeter Gas

definition NewGasMeter :: "Gas \<Rightarrow> GasMeter" where
  "NewGasMeter limit = BasicGasMeter limit 0"

definition NewInfiniteGasMeter :: GasMeter where
  "NewInfiniteGasMeter = InfiniteGasMeter 0"

fun GasConsumed :: "GasMeter \<Rightarrow> Gas" where
  "GasConsumed (BasicGasMeter limit consumed) = consumed"
| "GasConsumed (InfiniteGasMeter consumed) = consumed"

fun Limit :: "GasMeter \<Rightarrow> Gas" where
  "Limit (BasicGasMeter limit consumed) = limit"
| "Limit (InfiniteGasMeter consumed) = 0"

fun IsPastLimit :: "GasMeter \<Rightarrow> bool" where
  "IsPastLimit (BasicGasMeter limit consumed) = (consumed > limit)"
| "IsPastLimit (InfiniteGasMeter consumed) = False"

fun IsOutOfGas :: "GasMeter \<Rightarrow> bool" where
  "IsOutOfGas (BasicGasMeter limit consumed) = (consumed \<ge> limit)"
| "IsOutOfGas (InfiniteGasMeter consumed) = False"

fun GasConsumedToLimit :: "GasMeter \<Rightarrow> Gas" where
  "GasConsumedToLimit (BasicGasMeter limit consumed) =
     (if IsPastLimit (BasicGasMeter limit consumed) then limit else consumed)"
| "GasConsumedToLimit (InfiniteGasMeter consumed) = consumed"

fun SetGas :: "Gas \<Rightarrow> GasMeter \<Rightarrow> GasMeter" where
  "SetGas val (BasicGasMeter limit consumed) = BasicGasMeter limit val"
| "SetGas val (InfiniteGasMeter consumed) = InfiniteGasMeter val"

text \<open>\<open>math.MaxUint64\<close> is the word \<open>- 1\<close>.\<close>

definition addUint64Overflow :: "Gas \<Rightarrow> Gas \<Rightarrow> Gas \<times> bool" where
  "addUint64Overflow a b = (if - 1 - a < b then (0, True) else (a + b, False))"

fun ConsumeGas :: "Gas \<Rightarrow> string \<Rightarrow> GasMeter \<Rightarrow> GasError option \<times> GasMeter" where
  "ConsumeGas amount descriptor (BasicGasMeter limit consumed) =
     (let (c, overflow) = addUint64Overflow consumed amount in
      if overflow then (Some (ErrorGasOverflow descriptor), BasicGasMeter limit c)
      else if c > limit then (Some (ErrorOutOfGas descriptor), BasicGasMeter limit c)
      else (None, BasicGasMeter limit c))"
| "ConsumeGas amount descriptor (InfiniteGasMeter consumed) =
     (let (c, overflow) = addUint64Overflow consumed amount in
      if overflow then (Some (ErrorGasOverflow descriptor), InfiniteGasMeter c)
      else (None, InfiniteGasMeter c))"

record GasConfig =
  HasCost :: Gas
  DeleteCost :: Gas
  ReadCostFlat :: Gas
  ReadCostPerByte :: Gas
  WriteCostFlat :: Gas
  WriteCostPerByte :: Gas
  IterNextCostFlat :: Gas

definition GetDefaultGasConfig :: GasConfig where
  "GetDefaultGasConfig = \<lparr>HasCost = 1000, DeleteCost = 1000, ReadCostFlat = 1000, ReadCostPerByte = 3,
     WriteCostFlat = 2000, WriteCostPerByte = 30, IterNextCostFlat = 30\<rparr>"

definition AsDefaultGasConfig :: "GasConfig \<Rightarrow> GasConfig" where
  "AsDefaultGasConfig gc =
     \<lparr>HasCost = (if HasCost gc = 0 then HasCost GetDefaultGasConfig else HasCost gc),
      DeleteCost = (if DeleteCost gc = 0 then DeleteCost GetDefaultGasConfig else DeleteCost gc),
      ReadCostFlat = (if ReadCostFlat gc = 0 then ReadCostFlat GetDefaultGasConfig else ReadCostFlat gc),
      ReadCostPerByte = (if ReadCostPerByte gc = 0 then ReadCostPerByte GetDefaultGasConfig else ReadCostPerByte gc),
      WriteCostFlat = (if WriteCostFlat gc = 0 then WriteCostFlat GetDefaultGasConfig else WriteCostFlat gc),
      WriteCostPerByte = (if WriteCostPerByte gc = 0 then WriteCostPerByte GetDefaultGasConfig else WriteCostPerByte gc),
      IterNextCostFlat = (if IterNextCostFlat gc = 0 then IterNextCostFlat GetDefaultGasConfig else IterNextCostFlat gc)\<rparr>"

subsection \<open>The store\<close>

record 'p gstore =
  gasMeter :: GasMeter
  gasConfig :: GasConfig
  gparent :: 'p

datatype ('s, 'a) gasRes = GasOk 'a 's | GasPanic GasError 's | ParentPanic

definition bindG :: "('s, 'a) gasRes \<Rightarrow> ('a \<Rightarrow> 's \<Rightarrow> ('s, 'b) gasRes) \<Rightarrow> ('s, 'b) gasRes" where
  "bindG r f = (case r of GasOk a s \<Rightarrow> f a s | GasPanic e s \<Rightarrow> GasPanic e s | ParentPanic \<Rightarrow> ParentPanic)"

definition charge :: "Gas \<Rightarrow> string \<Rightarrow> 'p gstore \<Rightarrow> ('p gstore, unit) gasRes" where
  "charge amount descriptor gs =
     (let (e, m) = ConsumeGas amount descriptor (gasMeter gs); gs' = gs\<lparr>gasMeter := m\<rparr> in
      case e of None \<Rightarrow> GasOk () gs' | Some err \<Rightarrow> GasPanic err gs')"

text \<open>\<open>len\<close> of a slice; a nil slice has length 0.\<close>

definition byteLen :: "bytes option \<Rightarrow> Gas" where
  "byteLen val = (case val of None \<Rightarrow> 0 | Some v \<Rightarrow> of_nat (length v))"

definition gasGet :: "('p, bytes) kvops \<Rightarrow> bytes \<Rightarrow> 'p gstore \<Rightarrow> ('p gstore, bytes option) gasRes" where
  "gasGet ops key gs =
     bindG (charge (ReadCostFlat (gasConfig gs)) ''ReadFlat'' gs) (\<lambda>_ gs1.
     let (val, p) = opGet ops key (gparent gs1); gs2 = gs1\<lparr>gparent := p\<rparr> in
     bindG (charge (ReadCostPerByte (gasConfig gs2) * byteLen val) ''ReadPerByte'' gs2) (\<lambda>_ gs3.
     GasOk val gs3))"

definition gasSet :: "('p, bytes) kvops \<Rightarrow> bytes \<Rightarrow> bytes \<Rightarrow> 'p gstore \<Rightarrow> ('p gstore, unit) gasRes" where
  "gasSet ops key val gs =
     bindG (charge (WriteCostFlat (gasConfig gs)) ''WriteFlat'' gs) (\<lambda>_ gs1.
     bindG (charge (WriteCostPerByte (gasConfig gs1) * byteLen (Some val)) ''WritePerByte'' gs1) (\<lambda>_ gs2.
     case opSet ops key val (gparent gs2) of
       None \<Rightarrow> ParentPanic
     | Some p \<Rightarrow> GasOk () (gs2\<lparr>gparent := p\<rparr>)))"

definition gasDelete :: "('p, bytes) kvops \<Rightarrow> bytes \<Rightarrow> 'p gstore \<Rightarrow> ('p gstore, unit) gasRes" where
  "gasDelete ops key gs =
     bindG (charge (DeleteCost (gasConfig gs)) ''Delete'' gs) (\<lambda>_ gs1.
     case opDelete ops key (gparent gs1) of
       None \<Rightarrow> ParentPanic
     | Some p \<Rightarrow> GasOk () (gs1\<lparr>gparent := p\<rparr>))"

text \<open>\<open>Has\<close> of the store below is an argument.\<close>

definition gasHas :: "(bytes \<Rightarrow> 'p \<Rightarrow> bool \<times> 'p) \<Rightarrow> bytes \<Rightarrow> 'p gstore \<Rightarrow> ('p gstore, bool) gasRes" where
  "gasHas has key gs =
     bindG (charge (HasCost (gasConfig gs)) ''Has'' gs) (\<lambda>_ gs1.
     let (found, p) = has key (gparent gs1) in GasOk found (gs1\<lparr>gparent := p\<rparr>))"

definition consumeSeekGas :: "bytes \<Rightarrow> 'p gstore \<Rightarrow> ('p gstore, unit) gasRes" where
  "consumeSeekGas val gs =
     bindG (charge (ReadCostPerByte (gasConfig gs) * byteLen (Some val)) ''ValuePerByte'' gs) (\<lambda>_ gs1.
     charge (IterNextCostFlat (gasConfig gs1)) ''IterNextFlat'' gs1)"

text \<open>
  A full iteration: opening the iterator pays for the first entry, every \<open>Next\<close> pays for the entry
  it leaves.
\<close>

fun gasNextAll :: "(bytes \<times> bytes) list \<Rightarrow> 'p gstore \<Rightarrow> ('p gstore, unit) gasRes" where
  "gasNextAll [] gs = GasOk () gs"
| "gasNextAll ((k, v) # ps) gs = bindG (consumeSeekGas v gs) (\<lambda>_ gs1. gasNextAll ps gs1)"

definition gasIterator ::
  "('p, bytes) kvops \<Rightarrow> bytes option \<Rightarrow> bytes option \<Rightarrow> bool \<Rightarrow> 'p gstore \<Rightarrow>
   ('p gstore, (bytes \<times> bytes) list) gasRes" where
  "gasIterator ops start end ascending gs =
     (let (ps, p) = opIterator ops start end ascending (gparent gs); gs1 = gs\<lparr>gparent := p\<rparr> in
      bindG (case ps of [] \<Rightarrow> GasOk () gs1 | (k, v) # _ \<Rightarrow> consumeSeekGas v gs1) (\<lambda>_ gs2.
      bindG (gasNextAll ps gs2) (\<lambda>_ gs3. GasOk ps gs3)))"

fun gasStep :: "('p, bytes) kvops \<Rightarrow> bytes kvCmd \<Rightarrow> 'p gstore \<Rightarrow> ('p gstore, bytes kvRes) gasRes" where
  "gasStep ops (CGet k) gs = bindG (gasGet ops k gs) (\<lambda>v gs1. GasOk (RGet v) gs1)"
| "gasStep ops (CSet k v) gs = bindG (gasSet ops k v gs) (\<lambda>_ gs1. GasOk RDone gs1)"
| "gasStep ops (CDelete k) gs = bindG (gasDelete ops k gs) (\<lambda>_ gs1. GasOk RDone gs1)"
| "gasStep ops (CIter b e asc) gs = bindG (gasIterator ops b e asc gs) (\<lambda>ps gs1. GasOk (RIter ps) gs1)"

fun gasRun :: "('p, bytes) kvops \<Rightarrow> bytes kvCmd list \<Rightarrow> 'p gstore \<Rightarrow> ('p gstore, bytes kvRes list) gasRes" where
  "gasRun ops [] gs = GasOk [] gs"
| "gasRun ops (c # cs) gs =
     bindG (gasStep ops c gs) (\<lambda>r gs1. bindG (gasRun ops cs gs1) (\<lambda>rs gs2. GasOk (r # rs) gs2))"

section \<open>The price of a command\<close>

text \<open>As a natural number, so that sums do not wrap around.\<close>

definition seekCost :: "GasConfig \<Rightarrow> bytes \<Rightarrow> nat" where
  "seekCost cfg val = unat (ReadCostPerByte cfg * byteLen (Some val)) + unat (IterNextCostFlat cfg)"

fun cmdCost :: "GasConfig \<Rightarrow> bytes kvCmd \<Rightarrow> bytes kvRes \<Rightarrow> nat" where
  "cmdCost cfg (CGet k) (RGet v) = unat (ReadCostFlat cfg) + unat (ReadCostPerByte cfg * byteLen v)"
| "cmdCost cfg (CSet k v) r = unat (WriteCostFlat cfg) + unat (WriteCostPerByte cfg * byteLen (Some v))"
| "cmdCost cfg (CDelete k) r = unat (DeleteCost cfg)"
| "cmdCost cfg (CIter b e asc) (RIter ps) =
     (case ps of [] \<Rightarrow> 0 | (k, v) # _ \<Rightarrow> seekCost cfg v) + sum_list (map (\<lambda>(k, v). seekCost cfg v) ps)"
| "cmdCost cfg _ _ = 0"

definition runCost :: "GasConfig \<Rightarrow> bytes kvCmd list \<Rightarrow> bytes kvRes list \<Rightarrow> nat" where
  "runCost cfg cs rs = sum_list (map2 (cmdCost cfg) cs rs)"

section \<open>Charging\<close>

lemma gas_lt: "unat (a :: Gas) < 2 ^ 64"
  using unsigned_less [where ?'a = nat, of a] by simp

lemma addUint64Overflow_spec:
  "addUint64Overflow a b = (if unat a + unat b < 2 ^ 64 then (a + b, False) else (0, True))"
proof -
  have m: "unat (- 1 :: Gas) = 2 ^ 64 - 1"
    by (simp add: unsigned_minus_1_eq_mask mask_eq_exp_minus_1)
  have "unat (- 1 - a) = 2 ^ 64 - 1 - unat a"
    using unat_sub [of a "- 1"] m by simp
  then have "- 1 - a < b \<longleftrightarrow> \<not> unat a + unat b < 2 ^ 64"
    unfolding word_less_nat_alt using gas_lt [of a] by linarith
  then show ?thesis by (simp add: addUint64Overflow_def)
qed

lemma bindG_simps [simp]:
  "bindG (GasOk a s) f = f a s" "bindG (GasPanic e s) f = GasPanic e s" "bindG ParentPanic f = ParentPanic"
  by (simp_all add: bindG_def)

lemma bindG_assoc: "bindG (bindG r f) g = bindG r (\<lambda>a s. bindG (f a s) g)"
  by (cases r) simp_all

text \<open>Within the limit a charge adds to the counter; beyond it, it panics.\<close>

definition panics :: "('s, 'a) gasRes \<Rightarrow> bool" where
  "panics r \<longleftrightarrow> (\<exists>e s. r = GasPanic e s)"

lemma panics_simps [simp]: "panics (GasPanic e s)" "\<not> panics (GasOk a s)" "\<not> panics ParentPanic"
  by (simp_all add: panics_def)

lemma panics_bind: "panics r \<Longrightarrow> panics (bindG r f)"
  by (auto simp: panics_def)

definition spend :: "nat \<Rightarrow> 'p gstore \<Rightarrow> 'p gstore" where
  "spend n gs = gs\<lparr>gasMeter := BasicGasMeter (Limit (gasMeter gs)) (of_nat (unat (GasConsumed (gasMeter gs)) + n))\<rparr>"

text \<open>The gas left, for a meter with a limit that is not exceeded.\<close>

fun metered :: "GasMeter \<Rightarrow> bool" where
  "metered (BasicGasMeter limit consumed) = (consumed \<le> limit)"
| "metered (InfiniteGasMeter consumed) = False"

definition gasLeft :: "'p gstore \<Rightarrow> nat" where
  "gasLeft gs = unat (Limit (gasMeter gs)) - unat (GasConsumed (gasMeter gs))"

lemma charge_spec:
  assumes "metered (gasMeter gs)"
  shows "if unat a \<le> gasLeft gs then charge a d gs = GasOk () (spend (unat a) gs) else panics (charge a d gs)"
proof -
  obtain lim c where m: "gasMeter gs = BasicGasMeter lim c" and le: "unat c \<le> unat lim"
    using assms by (cases "gasMeter gs") (auto simp: word_le_nat_alt)
  have lim: "unat lim < 2 ^ 64" by (rule gas_lt)
  have "unat (c + a) = unat c + unat a" if "unat c + unat a < 2 ^ 64"
    using that by (simp add: unat_word_ariths)
  then show ?thesis
    using m le lim by (auto simp: charge_def addUint64Overflow_spec gasLeft_def spend_def word_less_nat_alt)
qed

lemma gasLeft_mono: "gasLeft gs \<le> unat (Limit (gasMeter gs))"
  by (simp add: gasLeft_def)

lemma spend_props:
  assumes "metered (gasMeter gs)" "n \<le> gasLeft gs"
  shows "metered (gasMeter (spend n gs))" "gasLeft (spend n gs) = gasLeft gs - n"
    "gasConfig (spend n gs) = gasConfig gs" "gparent (spend n gs) = gparent gs"
    "spend m (spend n gs) = spend (n + m) gs"
proof -
  obtain lim c where m: "gasMeter gs = BasicGasMeter lim c" and le: "unat c \<le> unat lim"
    using assms(1) by (cases "gasMeter gs") (auto simp: word_le_nat_alt)
  have "unat c + n < 2 ^ 64" using assms(2) m le gas_lt [of lim] unfolding gasLeft_def by simp
  then have u: "unat (of_nat (unat c + n) :: Gas) = unat c + n"
    by (simp only: unat_of_nat) simp
  show "metered (gasMeter (spend n gs))" "gasLeft (spend n gs) = gasLeft gs - n"
    "gasConfig (spend n gs) = gasConfig gs" "gparent (spend n gs) = gparent gs"
    "spend m (spend n gs) = spend (n + m) gs"
    using assms(2) m le u by (simp_all add: spend_def gasLeft_def word_le_nat_alt add.assoc del: of_nat_add)
qed

lemma spend_0: "metered (gasMeter gs) \<Longrightarrow> spend 0 gs = gs"
  by (cases "gasMeter gs") (simp_all add: spend_def)

lemma spend_parent: "spend n (gs\<lparr>gparent := p\<rparr>) = (spend n gs)\<lparr>gparent := p\<rparr>"
  by (simp add: spend_def)

lemma gasLeft_parent [simp]: "gasLeft (gs\<lparr>gparent := p\<rparr>) = gasLeft gs"
  by (simp add: gasLeft_def)

text \<open>
  What an action that costs \<open>n\<close> does: with enough gas left it returns \<open>a\<close> with the gas spent and the
  parent \<open>p\<close>, otherwise it panics.
\<close>

definition costs :: "nat \<Rightarrow> 'a \<Rightarrow> 'p \<Rightarrow> 'p gstore \<Rightarrow> ('p gstore, 'a) gasRes \<Rightarrow> bool" where
  "costs n a p gs r \<longleftrightarrow> (if n \<le> gasLeft gs then r = GasOk a ((spend n gs)\<lparr>gparent := p\<rparr>) else panics r)"

lemma costs_charge: "metered (gasMeter gs) \<Longrightarrow> costs (unat a) () (gparent gs) gs (charge a d gs)"
  using charge_spec [of gs a d] spend_props(4) [of gs "unat a"] by (auto simp: costs_def split: if_splits)

lemma costs_return: "metered (gasMeter gs) \<Longrightarrow> costs 0 a (gparent gs) gs (GasOk a gs)"
  by (simp add: costs_def spend_0)

lemma costs_bind:
  assumes "metered (gasMeter gs)" "costs n a p gs r"
    and "\<And>gs1. metered (gasMeter gs1) \<Longrightarrow> gasConfig gs1 = gasConfig gs \<Longrightarrow> gparent gs1 = p \<Longrightarrow> costs m b q gs1 (f a gs1)"
  shows "costs (n + m) b q gs (bindG r f)"
proof (cases "n \<le> gasLeft gs")
  case True
  let ?gs = "(spend n gs)\<lparr>gparent := p\<rparr>"
  note sp = spend_props [OF assms(1) True]
  from assms(2) True have r: "r = GasOk a ?gs" by (simp add: costs_def)
  have "costs m b q ?gs (f a ?gs)" by (rule assms(3)) (use sp in simp_all)
  moreover have "spend m ?gs = (spend (n + m) gs)\<lparr>gparent := p\<rparr>" by (simp add: spend_parent sp)
  ultimately show ?thesis using r sp(2) True by (auto simp: costs_def)
next
  case False
  with assms(2) show ?thesis by (auto simp: costs_def intro: panics_bind)
qed

lemma costs_seek:
  assumes "metered (gasMeter gs)"
  shows "costs (seekCost (gasConfig gs) v) () (gparent gs) gs (consumeSeekGas v gs)"
  unfolding consumeSeekGas_def seekCost_def
  by (rule costs_bind [OF assms costs_charge [OF assms]]) (metis costs_charge)

lemma costs_nextAll:
  "metered (gasMeter gs) \<Longrightarrow>
   costs (sum_list (map (\<lambda>(k, v). seekCost (gasConfig gs) v) ps)) () (gparent gs) gs (gasNextAll ps gs)"
proof (induction ps arbitrary: gs)
  case (Cons e ps)
  obtain k v where e: "e = (k, v)" by (cases e)
  show ?case
    unfolding e gasNextAll.simps list.map sum_list.Cons case_prod_conv
    by (rule costs_bind [OF Cons.prems costs_seek [OF Cons.prems]]) (metis Cons.IH)
qed (simp add: costs_return)

lemma costs_parent: "costs n a q (gs\<lparr>gparent := p\<rparr>) r = costs n a q gs r"
  by (simp add: costs_def spend_parent)

lemma costs_ret: "metered (gasMeter gs) \<Longrightarrow> gparent gs = p \<Longrightarrow> costs 0 a p gs (GasOk a gs)"
  using costs_return [of gs a] by simp

lemma costs_get:
  assumes "metered (gasMeter gs)" "opGet ops k (gparent gs) = (v, p)"
  shows "costs (unat (ReadCostFlat (gasConfig gs)) + (unat (ReadCostPerByte (gasConfig gs) * byteLen v) + 0)) v p gs
    (gasGet ops k gs)"
  unfolding gasGet_def
proof (rule costs_bind [OF assms(1) costs_charge [OF assms(1)]])
  fix gs1 :: "'a gstore"
  assume 1: "metered (gasMeter gs1)" "gasConfig gs1 = gasConfig gs" "gparent gs1 = gparent gs"
  let ?gs = "gs1\<lparr>gparent := p\<rparr>"
  have m: "metered (gasMeter ?gs)" using 1(1) by simp
  have "costs (unat (ReadCostPerByte (gasConfig ?gs) * byteLen v) + 0) v (gparent ?gs) ?gs
    (bindG (charge (ReadCostPerByte (gasConfig ?gs) * byteLen v) ''ReadPerByte'' ?gs) (\<lambda>_ gs3. GasOk v gs3))"
    by (rule costs_bind [OF m costs_charge [OF m]]) (rule costs_ret)
  with 1 assms(2) show "costs (unat (ReadCostPerByte (gasConfig gs) * byteLen v) + 0) v p gs1
    (let (val, p) = opGet ops k (gparent gs1); gs2 = gs1\<lparr>gparent := p\<rparr> in
      bindG (charge (ReadCostPerByte (gasConfig gs2) * byteLen val) ''ReadPerByte'' gs2) (\<lambda>_ gs3. GasOk val gs3))"
    by (simp add: costs_parent)
qed

lemma costs_put:
  "metered (gasMeter gs) \<Longrightarrow> costs 0 () p gs (GasOk () (gs\<lparr>gparent := p\<rparr>))"
  by (simp add: costs_def spend_0)

lemma costs_set:
  assumes "metered (gasMeter gs)" "opSet ops k v (gparent gs) = Some p"
  shows "costs (unat (WriteCostFlat (gasConfig gs)) + (unat (WriteCostPerByte (gasConfig gs) * byteLen (Some v)) + 0))
    () p gs (gasSet ops k v gs)"
  unfolding gasSet_def
proof (rule costs_bind [OF assms(1) costs_charge [OF assms(1)]])
  fix gs1 :: "'a gstore"
  assume 1: "metered (gasMeter gs1)" "gasConfig gs1 = gasConfig gs" "gparent gs1 = gparent gs"
  show "costs (unat (WriteCostPerByte (gasConfig gs) * byteLen (Some v)) + 0) () p gs1
    (bindG (charge (WriteCostPerByte (gasConfig gs1) * byteLen (Some v)) ''WritePerByte'' gs1) (\<lambda>_ gs2.
      case opSet ops k v (gparent gs2) of None \<Rightarrow> ParentPanic | Some p \<Rightarrow> GasOk () (gs2\<lparr>gparent := p\<rparr>)))"
    unfolding 1(2) [symmetric]
    by (rule costs_bind [OF 1(1) costs_charge [OF 1(1)]]) (simp add: 1 assms(2) costs_put)
qed

lemma costs_delete:
  assumes "metered (gasMeter gs)" "opDelete ops k (gparent gs) = Some p"
  shows "costs (unat (DeleteCost (gasConfig gs)) + 0) () p gs (gasDelete ops k gs)"
  unfolding gasDelete_def
  by (rule costs_bind [OF assms(1) costs_charge [OF assms(1)]]) (simp add: assms(2) costs_put)

lemma costs_first:
  "metered (gasMeter gs) \<Longrightarrow>
   costs (case ps of [] \<Rightarrow> 0 | (k, v) # _ \<Rightarrow> seekCost (gasConfig gs) v) () (gparent gs) gs
     (case ps of [] \<Rightarrow> GasOk () gs | (k, v) # _ \<Rightarrow> consumeSeekGas v gs)"
  using costs_seek costs_return by (auto split: list.split)

lemma costs_iter:
  assumes "metered (gasMeter gs)" "opIterator ops b e asc (gparent gs) = (ps, p)"
  shows "costs ((case ps of [] \<Rightarrow> 0 | (k, v) # _ \<Rightarrow> seekCost (gasConfig gs) v) +
      (sum_list (map (\<lambda>(k, v). seekCost (gasConfig gs) v) ps) + 0)) ps p gs (gasIterator ops b e asc gs)"
proof -
  let ?gs = "gs\<lparr>gparent := p\<rparr>"
  have m: "metered (gasMeter ?gs)" using assms(1) by simp
  have "costs ((case ps of [] \<Rightarrow> 0 | (k, v) # _ \<Rightarrow> seekCost (gasConfig ?gs) v) +
      (sum_list (map (\<lambda>(k, v). seekCost (gasConfig ?gs) v) ps) + 0)) ps (gparent ?gs) ?gs
    (bindG (case ps of [] \<Rightarrow> GasOk () ?gs | (k, v) # _ \<Rightarrow> consumeSeekGas v ?gs) (\<lambda>_ gs2.
      bindG (gasNextAll ps gs2) (\<lambda>_ gs3. GasOk ps gs3)))"
  proof (rule costs_bind [OF m costs_first [OF m]])
    fix gs1 :: "'a gstore"
    assume 1: "metered (gasMeter gs1)" "gasConfig gs1 = gasConfig ?gs" "gparent gs1 = gparent ?gs"
    show "costs (sum_list (map (\<lambda>(k, v). seekCost (gasConfig ?gs) v) ps) + 0) ps (gparent ?gs) gs1
      (bindG (gasNextAll ps gs1) (\<lambda>_ gs3. GasOk ps gs3))"
      unfolding 1(2,3) [symmetric] by (rule costs_bind [OF 1(1) costs_nextAll [OF 1(1)]]) (rule costs_ret)
  qed
  moreover have "gasConfig ?gs = gasConfig gs" by simp
  ultimately show ?thesis using assms(2) by (simp only: gasIterator_def Let_def prod.case costs_parent) simp
qed

text \<open>Every command costs its price and does to the parent what the command does.\<close>

lemma costs_result:
  assumes "metered (gasMeter gs)" "costs n a p gs r"
  shows "costs n (f a) p gs (bindG r (\<lambda>x gs1. GasOk (f x) gs1))"
  using assms by (auto simp: costs_def panics_def)

lemma costs_step:
  assumes "metered (gasMeter gs)" "kvStep ops c (gparent gs) = Some (r, p)"
  shows "costs (cmdCost (gasConfig gs) c r) r p gs (gasStep ops c gs)"
proof (cases c)
  case (CGet k)
  with assms(2) obtain v where "opGet ops k (gparent gs) = (v, p)" "r = RGet v" by (auto split: prod.splits)
  with CGet costs_result [OF assms(1) costs_get [OF assms(1)], of ops k v p RGet] show ?thesis by simp
next
  case (CSet k v)
  with assms(2) have "opSet ops k v (gparent gs) = Some p" "r = RDone" by auto
  with CSet costs_result [OF assms(1) costs_set [OF assms(1)], of ops k v p "\<lambda>_. RDone"] show ?thesis by simp
next
  case (CDelete k)
  with assms(2) have "opDelete ops k (gparent gs) = Some p" "r = RDone" by auto
  with CDelete costs_result [OF assms(1) costs_delete [OF assms(1)], of ops k p "\<lambda>_. RDone"] show ?thesis by simp
next
  case (CIter b e asc)
  with assms(2) obtain ps where "opIterator ops b e asc (gparent gs) = (ps, p)" "r = RIter ps"
    by (auto split: prod.splits)
  with CIter costs_result [OF assms(1) costs_iter [OF assms(1)], of ops b e asc ps p RIter] show ?thesis by simp
qed

lemma costs_run:
  "metered (gasMeter gs) \<Longrightarrow> kvRun ops cs (gparent gs) = Some (rs, p) \<Longrightarrow>
   costs (runCost (gasConfig gs) cs rs) rs p gs (gasRun ops cs gs)"
proof (induction cs arbitrary: gs rs)
  case Nil
  then show ?case by (auto simp: runCost_def intro: costs_ret)
next
  case (Cons c cs)
  from Cons.prems(2) obtain r p1 rs' where 1: "kvStep ops c (gparent gs) = Some (r, p1)"
    "kvRun ops cs p1 = Some (rs', p)" "rs = r # rs'" by auto
  have "costs (cmdCost (gasConfig gs) c r + runCost (gasConfig gs) cs rs') rs p gs (gasRun ops (c # cs) gs)"
    unfolding gasRun.simps
  proof (rule costs_bind [OF Cons.prems(1) costs_step [OF Cons.prems(1) 1(1)]])
    fix gs1 :: "'a gstore"
    assume 2: "metered (gasMeter gs1)" "gasConfig gs1 = gasConfig gs" "gparent gs1 = p1"
    from Cons.IH [OF 2(1), of rs'] 1(2) 2 have "costs (runCost (gasConfig gs) cs rs') rs' p gs1 (gasRun ops cs gs1)"
      by simp
    from costs_result [OF 2(1) this, of "\<lambda>rs. r # rs"] 1(3)
    show "costs (runCost (gasConfig gs) cs rs') rs p gs1 (bindG (gasRun ops cs gs1) (\<lambda>rs gs2. GasOk (r # rs) gs2))"
      by simp
  qed
  with 1(3) show ?case by (simp add: runCost_def)
qed

section \<open>Properties\<close>



end
