(* ===== verification/Transfers.thy ===== *)
theory Transfers
  imports Token
begin

text \<open>
  When transfers of \<open>x/bank\<close> and \<open>x/supply\<close> cannot fail: names of coins are proper, no total is near the
  limit of decimals, and the sender holds the coins. Used for the liveness of withdrawals.
\<close>

section \<open>Transfers that cannot fail\<close>

definition namesOK :: "Coins \<Rightarrow> bool" where
  "namesOK cs \<longleftrightarrow> (\<forall>c\<in>set cs. ValidateDenom (Denom c) \<and> ToLower (Denom c) = Denom c)"

text \<open>Accounts hold coins with proper names, and no total is near the limit of decimals.\<close>

definition bankSound :: "'x bank_scheme \<Rightarrow> bool" where
  "bankSound s \<longleftrightarrow> bankOK s \<and> (\<forall>a. namesOK (coinsOf s a)) \<and> (\<forall>d. totalOf s d < decLimit)"

lemma bankSoundI:
  assumes ok: "bankOK s" and names: "\<And>a d. balance s a d \<noteq> 0 \<Longrightarrow> ValidateDenom d \<and> ToLower d = d"
    and tot: "\<And>d. totalOf s d < decLimit"
  shows "bankSound s"
proof -
  have "ValidateDenom (Denom c) \<and> ToLower (Denom c) = Denom c" if "c \<in> set (coinsOf s a)" for a c
  proof (rule names)
    have "positiveCoins (coinsOf s a)" using ok by (simp add: bankOK_def)
    then have "balance s a (Denom c) = Amount c" "0 < Amount c"
      using that amt_sorted [of "coinsOf s a" c] by (auto simp: balance_def positiveCoins_def)
    then show "balance s a (Denom c) \<noteq> 0" by simp
  qed
  with ok tot show ?thesis by (auto simp: bankSound_def namesOK_def)
qed

lemma validTailI:
  "positiveCoins cs \<Longrightarrow> namesOK cs \<Longrightarrow> \<forall>c\<in>set cs. d < Denom c \<Longrightarrow> validTail d cs"
proof (induction cs arbitrary: d)
  case (Cons c cs)
  from Cons.prems have "validTail (Denom c) cs"
    by (intro Cons.IH) (auto simp: positiveCoins_def namesOK_def)
  with Cons.prems show ?case
    by (auto simp: positiveCoins_def namesOK_def coinIsPositive_def not_le)
qed simp

lemma IsValidI: "positiveCoins cs \<Longrightarrow> namesOK cs \<Longrightarrow> IsValid cs"
proof (cases cs)
  case (Cons c cs')
  assume "positiveCoins cs" "namesOK cs"
  with Cons have "validTail (Denom c) cs'" "ValidateDenom (Denom c)" "0 < Amount c"
    by (auto simp: positiveCoins_def namesOK_def intro!: validTailI)
  with Cons show ?thesis by (simp add: coinIsPositive_def)
qed simp

lemma namesOK_safeAdd:
  assumes "safeAdd as bs = Some cs" "namesOK as" "namesOK bs"
  shows "namesOK cs"
  using safeAdd_denoms [OF assms(1)] assms(2,3) unfolding namesOK_def by fastforce

lemma namesOK_negative [simp]: "namesOK (negative cs) = namesOK cs"
  by (induction cs) (auto simp: namesOK_def negative_def)

lemma balance_two:
  assumes "bankOK s" "a \<noteq> b"
  shows "balance s a d + balance s b d \<le> totalOf s d"
proof -
  let ?A = "dom (accounts s) \<union> {a, b}"
  have f: "finite ?A" using assms by (simp add: bankOK_def)
  have "balance s a d + balance s b d = (\<Sum>x\<in>{a, b}. balance s x d)" using assms by simp
  also have "\<dots> \<le> (\<Sum>x\<in>?A. balance s x d)"
    using f by (intro sum_mono2) (auto simp: balance_nonneg [OF assms(1)])
  also have "\<dots> = totalOf s d" by (rule totalOf_superset [OF f, symmetric]) auto
  finally show ?thesis .
qed

lemma balance_le_total: "bankOK s \<Longrightarrow> balance s a d \<le> totalOf s d"
  using balance_two [of s a "a @ ''x''" d] balance_nonneg [of s "a @ ''x''" d] by simp

abbreviation setCoinsOf :: "AccAddress \<Rightarrow> Coins \<Rightarrow> 'x bank_scheme \<Rightarrow> 'x bank_scheme" where
  "setCoinsOf a c s \<equiv> s\<lparr>accounts := (accounts s)(a \<mapsto>
     (case accounts s a of None \<Rightarrow> NewAccountWithAddress | Some acc \<Rightarrow> acc)\<lparr>AccCoins := c\<rparr>)\<rparr>"

lemma subtract_defined:
  assumes ok: "bankOK s" and n: "namesOK (coinsOf s a)" "namesOK m" and m: "positiveCoins m"
    and cover: "\<And>d. amt m d \<le> balance s a d" and lim: "\<And>d. balance s a d < decLimit"
  shows "\<exists>c. subtractCoins a (accounts s a) m s = Ret c (setCoinsOf a c s) \<and> namesOK c"
proof -
  let ?o = "accountCoins (accounts s a)"
  have o: "coinsOf s a = ?o" by (simp add: coinsOf_def)
  have pos: "positiveCoins ?o" using ok by (simp add: bankOK_def o [symmetric])
  have bal: "balance s a d = amt ?o d" for d by (simp add: balance_def o)
  have sorted: "sortedCoins ?o" "sortedCoins m" using pos m by (simp_all add: positiveCoins_def)
  have "amt ?o d - amt m d < decLimit" for d
    using lim [of d] positiveCoins_amt [OF m, of d] by (simp add: bal)
  with coinsSub_defined [OF sorted] cover obtain c where c: "coinsSub ?o m = Some c" by (auto simp: bal)
  then have sub: "safeAdd ?o (negative m) = Some c" "\<not> IsAnyNegative c"
    by (auto simp: coinsSub_def SafeSub_def split: if_splits)
  have nc: "namesOK c" using namesOK_safeAdd [OF sub(1)] n by (simp add: o)
  have "IsValid c" using IsValidI coinsSub_Some [OF c sorted] nc by blast
  with sub c nc show ?thesis
    by (auto simp: subtractCoins_def SafeSub_def setCoinsToAccount_def SetAccount_def Let_def run_simps
        del: IsValid.simps)
qed

lemma add_defined:
  assumes ok: "bankOK s" and n: "namesOK (coinsOf s a)" "namesOK m" and m: "positiveCoins m"
    and lim: "\<And>d. balance s a d + amt m d < decLimit"
  shows "\<exists>c. addCoins a (accounts s a) m s = Ret c (setCoinsOf a c s) \<and> namesOK c"
proof -
  let ?o = "accountCoins (accounts s a)"
  have o: "coinsOf s a = ?o" by (simp add: coinsOf_def)
  have pos: "positiveCoins ?o" using ok by (simp add: bankOK_def o [symmetric])
  have bal: "balance s a d = amt ?o d" for d by (simp add: balance_def o)
  have sorted: "sortedCoins ?o" "sortedCoins m" using pos m by (simp_all add: positiveCoins_def)
  have nn: "0 \<le> amt ?o d + amt m d" for d
    using positiveCoins_amt [OF m, of d] positiveCoins_amt [OF pos, of d] by simp
  with safeAdd_defined [OF sorted] lim obtain c where c: "safeAdd ?o m = Some c" by (auto simp: bal)
  have "normalCoins c" by (rule safeAdd_normal [OF c sorted])
  then have pc: "positiveCoins c" using nn safeAdd_amt [OF c] by (simp add: normalCoins_positive_iff)
  then have neg: "\<not> IsAnyNegative c" by (simp add: normalCoins_negative_iff positiveCoins_normal)
  have nc: "namesOK c" using namesOK_safeAdd [OF c] n by (simp add: o)
  with IsValidI [OF pc nc] c neg show ?thesis
    by (auto simp: addCoins_def coinsAdd_def setCoinsToAccount_def SetAccount_def Let_def run_simps
        del: IsValid.simps)
qed

lemma send_defined:
  assumes s: "bankSound s" and ne: "src \<noteq> dst" and m: "positiveCoins m" "namesOK m"
    and cover: "\<And>d. amt m d \<le> balance s src d"
  shows "\<exists>s'. SendCoins src dst m s = Ret () s' \<and> bankSound s' \<and>
    (\<forall>x acc. accounts s x = Some acc \<longrightarrow> (\<exists>acc'. accounts s' x = Some acc' \<and> AccModule acc' = AccModule acc))"
proof -
  have ok: "bankOK s" and tot: "\<And>d. totalOf s d < decLimit" and n: "\<And>a. namesOK (coinsOf s a)"
    using s by (auto simp: bankSound_def)
  have two: "balance s src d + balance s dst d < decLimit" for d
    using balance_two [OF ok ne, of d] tot [of d] by simp
  have lim: "balance s src d < decLimit" for d using two [of d] balance_nonneg [OF ok, of dst d] by simp
  from subtract_defined [OF ok n m(2,1) cover lim] obtain c where
    c: "subtractCoins src (accounts s src) m s = Ret c (setCoinsOf src c s)" "namesOK c" by blast
  let ?s1 = "setCoinsOf src c s"
  have v: "IsValid m" by (rule IsValidI [OF m])
  have ok1: "bankOK ?s1" using subtractCoins_effect [OF ok c(1) v] by (rule transfers_bankOK)
  have d1: "accounts ?s1 dst = accounts s dst" "coinsOf ?s1 dst = coinsOf s dst" "balance ?s1 dst d = balance s dst d" for d
    using ne by (simp_all add: coinsOf_def balance_def)
  have "balance ?s1 dst d + amt m d < decLimit" for d
    using two [of d] cover [of d] unfolding d1 by simp
  with add_defined [OF ok1 _ m(2,1), of dst] n [of dst] obtain c' where
    c': "addCoins dst (accounts ?s1 dst) m ?s1 = Ret c' (setCoinsOf dst c' ?s1)" "namesOK c'"
    unfolding d1(2) by blast
  let ?s2 = "setCoinsOf dst c' ?s1"
  have run: "SendCoins src dst m s = Ret () ?s2"
    using c c' v by (simp add: SendCoins_def GetAccount_def run_simps del: IsValid.simps)
  have "namesOK (coinsOf ?s2 x)" for x using n [of x] c(2) c'(2) by (simp add: coinsOf_def accountCoins_def)
  moreover have "bankOK ?s2" "totalOf ?s2 d < decLimit" for d
    using SendCoins_effect [OF ok run] transfers_bankOK transfers_total [OF SendCoins_effect [OF ok run] ok, of "{src, dst}" d]
      moved_outside sum_moved tot [of d] by auto
  ultimately have "bankSound ?s2" by (simp only: bankSound_def) blast
  with run show ?thesis by (auto intro!: exI [of _ ?s2])
qed

section \<open>Module accounts\<close>

text \<open>The module account exists and may burn.\<close>

definition moduleReady :: "'x supply_state_scheme \<Rightarrow> string \<Rightarrow> bool" where
  "moduleReady s md \<longleftrightarrow> (\<exists>perms acc. permAddrs s md = Some (moduleAddr s md, perms) \<and>
     accounts s (moduleAddr s md) = Some acc \<and> HasPermission (accPermissions acc) Burner)"

lemma moduleReady_account:
  assumes "moduleReady s md"
  shows "\<exists>acc. mustModuleAccount md s = Ret (moduleAddr s md, acc) s \<and> HasPermission (accPermissions acc) Burner"
proof -
  from assms obtain perms acc where *: "permAddrs s md = Some (moduleAddr s md, perms)"
    "accounts s (moduleAddr s md) = Some acc" "HasPermission (accPermissions acc) Burner"
    by (auto simp: moduleReady_def)
  then have "AccModule acc \<noteq> None" by (cases "AccModule acc") (auto simp: accPermissions_def HasPermission_def)
  with * show ?thesis
    by (auto simp: mustModuleAccount_def GetModuleAccount_def GetModuleAccountAndPermissions_def
        GetModuleAddressAndPermissions_def GetAccount_def run_simps)
qed

lemma sendReady:
  assumes s: "bankSound s" "moduleReady s md" and ne: "src \<noteq> dst" and m: "positiveCoins m" "namesOK m"
    and cover: "\<And>d. amt m d \<le> balance s src d"
  obtains s' where "SendCoins src dst m s = Ret () s'" "bankSound s'" "moduleReady s' md"
    "ledger s s' (moved src dst m) (\<lambda>_. 0)"
proof -
  from send_defined [OF s(1) ne m cover] obtain s' where run: "SendCoins src dst m s = Ret () s'" and b: "bankSound s'"
    and acc: "\<And>x acc. accounts s x = Some acc \<Longrightarrow> \<exists>acc'. accounts s' x = Some acc' \<and> AccModule acc' = AccModule acc"
    by blast
  have ok: "bankOK s" using s by (simp add: bankSound_def)
  note l = ledger_moved [OF SendCoins_effect [OF ok run] ok]
  from l obtain A B where "s' = s\<lparr>accounts := A, supplyStore := B\<rparr>" by (rule ledger_frame)
  then have "permAddrs s' = permAddrs s" by simp
  moreover have "moduleAddr s' md = moduleAddr s md" by (rule moduleAddr_ledger [OF l])
  ultimately have "moduleReady s' md"
    using s(2) acc unfolding moduleReady_def accPermissions_def by fastforce
  with that run b l show thesis by blast
qed

end
