(* ===== verification/Swap.thy ===== *)
theory Swap
  imports Token PrefixStore
begin

text \<open>
  The automated market maker: \<open>x/ammswap\<close> (\<open>handler.go\<close>, \<open>keeper/keeper.go\<close>, \<open>keeper/swap.go\<close>,
  \<open>keeper/querier.go\<close>, \<open>types/swap.go\<close>, \<open>types/msgs.go\<close>, \<open>types/params.go\<close>, \<open>genesis.go\<close>) and
  \<open>MulAndQuo\<close> and \<open>HasSufficientCoins\<close> of \<open>x/common/util.go\<close>. Its store is kept as the sorted list of
  its entries, which is what the store interface promises to show. The block time is in
  nanoseconds. Observers of the keeper belong to the indexing back end and do not change the state.
\<close>

section \<open>Definitions\<close>

subsection \<open>Pools\<close>

record SwapTokenPair =
  QuotePooledCoin :: DecCoin
  BasePooledCoin :: DecCoin
  PoolTokenName :: string

record swap_state = token_state +
  swapStore :: "(bytes \<times> SwapTokenPair) list"
  swapFeeRate :: Dec

definition swapModule :: string where "swapModule = ''ammswap''"
definition PoolTokenPrefix :: string where "PoolTokenPrefix = ''ammswap_''"
definition GenerateTokenType :: int where "GenerateTokenType = 2"
definition TokenPairPrefixKey :: bytes where "TokenPairPrefixKey = [CHR 0x01]"

definition GetTokenPairKey :: "string \<Rightarrow> bytes" where
  "GetTokenPairKey key = TokenPairPrefixKey @ key"

definition GetBaseQuoteTokenName :: "string \<Rightarrow> string \<Rightarrow> string \<times> string" where
  "GetBaseQuoteTokenName token0 token1 = (if token0 < token1 then (token0, token1) else (token1, token0))"

definition GetSwapTokenPairName :: "string \<Rightarrow> string \<Rightarrow> string" where
  "GetSwapTokenPairName token0 token1 =
     (let (baseTokenName, quoteTokenName) = GetBaseQuoteTokenName token0 token1 in
      baseTokenName @ ''_'' @ quoteTokenName)"

definition GetPoolTokenName :: "string \<Rightarrow> string \<Rightarrow> string" where
  "GetPoolTokenName token1 token2 = PoolTokenPrefix @ GetSwapTokenPairName token1 token2"

definition TokenPairName :: "SwapTokenPair \<Rightarrow> string" where
  "TokenPairName p = Denom (BasePooledCoin p) @ ''_'' @ Denom (QuotePooledCoin p)"

definition NewSwapPair :: "string \<Rightarrow> string \<Rightarrow> SwapTokenPair option" where
  "NewSwapPair token0 token1 =
     (let (base, quote) = GetBaseQuoteTokenName token0 token1 in do {
        q \<leftarrow> NewDecCoinFromDec quote ZeroDec;
        b \<leftarrow> NewDecCoinFromDec base ZeroDec;
        Some \<lparr>QuotePooledCoin = q, BasePooledCoin = b, PoolTokenName = GetPoolTokenName token0 token1\<rparr> })"

definition IsPoolToken :: "string \<Rightarrow> bool" where
  "IsPoolToken symbol = NotAllowedOriginSymbol symbol"

text \<open>\<open>SplitPoolToken\<close> indexes the pieces between underscores and panics when there are too few.\<close>

definition SplitPoolToken :: "string \<Rightarrow> (string \<times> string) option" where
  "SplitPoolToken symbol =
     (case splitOn (CHR ''_'') symbol of
        _ # token0 # token1 # _ \<Rightarrow> Some (token0, token1)
      | _ \<Rightarrow> None)"

text \<open>The owner of a pool token is the module's address, as in the supply keeper's table.\<close>

definition InitPoolToken :: "AccAddress \<Rightarrow> string \<Rightarrow> Token" where
  "InitPoolToken owner poolTokenName =
     \<lparr>tkDescription = poolTokenName, tkSymbol = poolTokenName, tkOriginalSymbol = poolTokenName,
      tkWholeName = poolTokenName, tkOriginalTotalSupply = NewDec 0, tkType = GenerateTokenType,
      tkOwner = owner, tkMintable = True\<rparr>"

subsection \<open>Errors\<close>

definition swapErr :: "int \<Rightarrow> error" where "swapErr c = Error ''ammswap'' c"

definition ErrNonExistSwapTokenPair :: error where "ErrNonExistSwapTokenPair = swapErr 65000"
definition ErrNonExistPoolToken :: error where "ErrNonExistPoolToken = swapErr 65001"
definition ErrCodeMinCoinsFailed :: error where "ErrCodeMinCoinsFailed = swapErr 65002"
definition ErrSendCoinsFromAccountToModule :: error where "ErrSendCoinsFromAccountToModule = swapErr 65003"
definition ErrBaseAmountNameBiggerThanQuoteAmountName :: error where "ErrBaseAmountNameBiggerThanQuoteAmountName = swapErr 65004"
definition ErrValidateSwapAmountName :: error where "ErrValidateSwapAmountName = swapErr 65005"
definition ErrBaseNameEqualQuoteName :: error where "ErrBaseNameEqualQuoteName = swapErr 65006"
definition ErrValidateDenom :: error where "ErrValidateDenom = swapErr 65007"
definition ErrNotAllowedOriginSymbol :: error where "ErrNotAllowedOriginSymbol = swapErr 65008"
definition ErrInsufficientPoolToken :: error where "ErrInsufficientPoolToken = swapErr 65009"
definition ErrTokenNotExist :: error where "ErrTokenNotExist = swapErr 65010"
definition ErrSwapInvalidCoins :: error where "ErrSwapInvalidCoins = swapErr 65011"
definition ErrInvalidTokenPair :: error where "ErrInvalidTokenPair = swapErr 65012"
definition ErrAddressIsRequire :: error where "ErrAddressIsRequire = swapErr 65013"
definition ErrIsZeroValue :: error where "ErrIsZeroValue = swapErr 65014"
definition ErrBlockTimeBigThanDeadline :: error where "ErrBlockTimeBigThanDeadline = swapErr 65015"
definition ErrLessThan :: error where "ErrLessThan = swapErr 65016"
definition ErrMintPoolTokenFailed :: error where "ErrMintPoolTokenFailed = swapErr 65017"
definition ErrSendCoinsFromPoolToAccountFailed :: error where "ErrSendCoinsFromPoolToAccountFailed = swapErr 65018"
definition ErrBurnPoolTokenFailed :: error where "ErrBurnPoolTokenFailed = swapErr 65019"
definition ErrSendCoinsToPoolFailed :: error where "ErrSendCoinsToPoolFailed = swapErr 65020"
definition ErrSwapUnknownMsgType :: error where "ErrSwapUnknownMsgType = swapErr 65021"
definition ErrSellAmountOrBuyTokenIsEmpty :: error where "ErrSellAmountOrBuyTokenIsEmpty = swapErr 65023"
definition ErrSellAmountEqualBuyToken :: error where "ErrSellAmountEqualBuyToken = swapErr 65024"
definition ErrQueryParamsQuoteTokenAmountIsEmpty :: error where "ErrQueryParamsQuoteTokenAmountIsEmpty = swapErr 65026"
definition ErrQueryParamsBaseTokenIsEmpty :: error where "ErrQueryParamsBaseTokenIsEmpty = swapErr 65027"
definition ErrMinLiquidityIsNegative :: error where "ErrMinLiquidityIsNegative = swapErr 65028"
definition ErrMaxBaseAmountOrQuoteAmountIsNegative :: error where "ErrMaxBaseAmountOrQuoteAmountIsNegative = swapErr 65029"
definition ErrMaxBaseAmount :: error where "ErrMaxBaseAmount = swapErr 65030"
definition ErrQuoteAmount :: error where "ErrQuoteAmount = swapErr 65031"
definition ErrMinBaseAmount :: error where "ErrMinBaseAmount = swapErr 65032"
definition ErrMinQuoteAmount :: error where "ErrMinQuoteAmount = swapErr 65033"
definition ErrSoldTokenAmountIsNegative :: error where "ErrSoldTokenAmountIsNegative = swapErr 65034"
definition ErrToken0NameEqualToken1Name :: error where "ErrToken0NameEqualToken1Name = swapErr 65035"
definition ErrSoldTokenAmount :: error where "ErrSoldTokenAmount = swapErr 65036"
definition ErrMinBoughtTokenAmount :: error where "ErrMinBoughtTokenAmount = swapErr 65037"
definition ErrConvertSellTokenAmount :: error where "ErrConvertSellTokenAmount = swapErr 65038"
definition ErrConvertQuoteTokenAmount :: error where "ErrConvertQuoteTokenAmount = swapErr 65039"
definition ErrSendCoinsFailed :: error where "ErrSendCoinsFailed = swapErr 65040"
definition ErrMsgDeadlineLessThanBlockTime :: error where "ErrMsgDeadlineLessThanBlockTime = swapErr 65041"
definition ErrBaseTokensAmountBiggerThanMax :: error where "ErrBaseTokensAmountBiggerThanMax = swapErr 65042"
definition ErrSwapTokenPairExist :: error where "ErrSwapTokenPairExist = swapErr 65043"
definition ErrPoolTokenPairExist :: error where "ErrPoolTokenPairExist = swapErr 65044"
definition ErrSwapInsufficientCoins :: error where "ErrSwapInsufficientCoins = swapErr 60107"

subsection \<open>Stateless checks\<close>

definition ValidateSwapAmountName :: "string \<Rightarrow> ('s, unit) action" where
  "ValidateSwapAmountName amountName =
     seqM (failIf (\<not> ValidateDenom amountName) ErrValidateDenom)
     (failIf (NotAllowedOriginSymbol amountName) ErrNotAllowedOriginSymbol)"

definition ValidateBaseAndQuoteAmount :: "string \<Rightarrow> string \<Rightarrow> ('s, unit) action" where
  "ValidateBaseAndQuoteAmount baseAmountName quoteAmountName =
     seqM (failIf (baseAmountName > quoteAmountName) ErrBaseAmountNameBiggerThanQuoteAmountName)
     (seqM (failIf (baseAmountName = quoteAmountName) ErrBaseNameEqualQuoteName)
     (seqM (ValidateSwapAmountName baseAmountName)
     (ValidateSwapAmountName quoteAmountName)))"

record MsgAddLiquidity =
  MinLiquidity :: Dec
  MaxBaseAmount :: DecCoin
  QuoteAmount :: DecCoin
  alDeadline :: int
  alSender :: AccAddress

record MsgRemoveLiquidity =
  Liquidity :: Dec
  MinBaseAmount :: DecCoin
  MinQuoteAmount :: DecCoin
  rlDeadline :: int
  rlSender :: AccAddress

record MsgCreateExchange =
  Token0Name :: string
  Token1Name :: string
  ceSender :: AccAddress

record MsgTokenToToken =
  SoldTokenAmount :: DecCoin
  MinBoughtTokenAmount :: DecCoin
  ttDeadline :: int
  ttRecipient :: AccAddress
  ttSender :: AccAddress

definition MsgAddLiquidityValidateBasic :: "MsgAddLiquidity \<Rightarrow> ('s, unit) action" where
  "MsgAddLiquidityValidateBasic msg =
     seqM (failIf (alSender msg = []) ErrAddressIsRequire)
     (seqM (failIf (MinLiquidity msg < 0) ErrMinLiquidityIsNegative)
     (seqM (failIf (\<not> (coinIsPositive (MaxBaseAmount msg) \<and> coinIsPositive (QuoteAmount msg)))
              ErrMaxBaseAmountOrQuoteAmountIsNegative)
     (seqM (failIf (\<not> coinIsValid (MaxBaseAmount msg)) ErrMaxBaseAmount)
     (seqM (failIf (\<not> coinIsValid (QuoteAmount msg)) ErrQuoteAmount)
     (ValidateBaseAndQuoteAmount (Denom (MaxBaseAmount msg)) (Denom (QuoteAmount msg)))))))"

definition MsgRemoveLiquidityValidateBasic :: "MsgRemoveLiquidity \<Rightarrow> ('s, unit) action" where
  "MsgRemoveLiquidityValidateBasic msg =
     seqM (failIf (rlSender msg = []) ErrAddressIsRequire)
     (seqM (failIf (\<not> Liquidity msg > 0) ErrMinLiquidityIsNegative)
     (seqM (failIf (\<not> coinIsValid (MinBaseAmount msg)) ErrMinBaseAmount)
     (seqM (failIf (\<not> coinIsValid (MinQuoteAmount msg)) ErrMinQuoteAmount)
     (ValidateBaseAndQuoteAmount (Denom (MinBaseAmount msg)) (Denom (MinQuoteAmount msg))))))"

definition MsgCreateExchangeValidateBasic :: "MsgCreateExchange \<Rightarrow> ('s, unit) action" where
  "MsgCreateExchangeValidateBasic msg =
     seqM (failIf (ceSender msg = []) ErrAddressIsRequire)
     (seqM (ValidateSwapAmountName (Token0Name msg))
     (seqM (ValidateSwapAmountName (Token1Name msg))
     (failIf (Token0Name msg = Token1Name msg) ErrToken0NameEqualToken1Name)))"

definition MsgTokenToTokenValidateBasic :: "MsgTokenToToken \<Rightarrow> ('s, unit) action" where
  "MsgTokenToTokenValidateBasic msg =
     seqM (failIf (ttSender msg = []) ErrAddressIsRequire)
     (seqM (failIf (ttRecipient msg = []) ErrAddressIsRequire)
     (seqM (failIf (\<not> coinIsPositive (SoldTokenAmount msg)) ErrSoldTokenAmountIsNegative)
     (seqM (failIf (\<not> coinIsValid (SoldTokenAmount msg)) ErrSoldTokenAmount)
     (seqM (failIf (\<not> coinIsValid (MinBoughtTokenAmount msg)) ErrMinBoughtTokenAmount)
     (case GetBaseQuoteTokenName (Denom (SoldTokenAmount msg)) (Denom (MinBoughtTokenAmount msg)) of
        (baseAmountName, quoteAmountName) \<Rightarrow> ValidateBaseAndQuoteAmount baseAmountName quoteAmountName)))))"

definition alPairName :: "MsgAddLiquidity \<Rightarrow> string" where
  "alPairName msg = GetSwapTokenPairName (Denom (MaxBaseAmount msg)) (Denom (QuoteAmount msg))"

definition rlPairName :: "MsgRemoveLiquidity \<Rightarrow> string" where
  "rlPairName msg = GetSwapTokenPairName (Denom (MinBaseAmount msg)) (Denom (MinQuoteAmount msg))"

definition cePairName :: "MsgCreateExchange \<Rightarrow> string" where
  "cePairName msg = GetSwapTokenPairName (Token0Name msg) (Token1Name msg)"

definition ttPairName :: "MsgTokenToToken \<Rightarrow> string" where
  "ttPairName msg = GetSwapTokenPairName (Denom (MinBoughtTokenAmount msg)) (Denom (SoldTokenAmount msg))"

text \<open>The validator of the only parameter.\<close>

definition validateParams :: "Dec \<Rightarrow> bool" where
  "validateParams v \<longleftrightarrow> \<not> v < 0 \<and> \<not> v > OneDec"

definition defaultFeeRate :: "Dec option" where
  "defaultFeeRate = NewDecWithPrec 3 3"

subsection \<open>Arithmetic\<close>

text \<open>\<open>MulAndQuo\<close>: \<open>a * b / c\<close>, with an auxiliary factor \<open>10 ^ 18\<close> against loss of precision.\<close>

definition MulAndQuo :: "Dec \<Rightarrow> Dec \<Rightarrow> Dec \<Rightarrow> Dec option" where
  "MulAndQuo a b c = do {
     auxiliaryDec \<leftarrow> NewDecFromBigIntWithPrec (10 ^ Precision) 0;
     a1 \<leftarrow> DecMulTruncate a auxiliaryDec;
     a2 \<leftarrow> DecMulTruncate a1 b;
     a3 \<leftarrow> DecQuoTruncate a2 c;
     DecQuoTruncate a3 auxiliaryDec }"

definition GetInputPrice :: "Dec \<Rightarrow> Dec \<Rightarrow> Dec \<Rightarrow> Dec \<Rightarrow> Dec option" where
  "GetInputPrice inputAmount inputReserve outputReserve feeRate = do {
     rest \<leftarrow> DecSub OneDec feeRate;
     factor \<leftarrow> DecMulTruncate rest (NewDec 1000);
     inputAmountWithFee \<leftarrow> DecMulTruncate inputAmount factor;
     reserve \<leftarrow> DecMulTruncate inputReserve (NewDec 1000);
     denominator \<leftarrow> DecAdd reserve inputAmountWithFee;
     MulAndQuo inputAmountWithFee outputReserve denominator }"

definition CalculateTokenToBuy :: "SwapTokenPair \<Rightarrow> DecCoin \<Rightarrow> string \<Rightarrow> Dec \<Rightarrow> DecCoin option" where
  "CalculateTokenToBuy pair sellToken buyTokenDenom feeRate =
     (let (inputReserve, outputReserve) =
        (if buyTokenDenom < Denom sellToken
         then (Amount (QuotePooledCoin pair), Amount (BasePooledCoin pair))
         else (Amount (BasePooledCoin pair), Amount (QuotePooledCoin pair))) in do {
      tokenBuyAmt \<leftarrow> GetInputPrice (Amount sellToken) inputReserve outputReserve feeRate;
      NewDecCoinFromDec buyTokenDenom tokenBuyAmt })"

text \<open>\<open>HasSufficientCoins\<close>: the error, if there is one.\<close>

definition HasSufficientCoins :: "Coins \<Rightarrow> Coins \<Rightarrow> error option option" where
  "HasSufficientCoins availableCoins am =
     (if \<not> IsValid am then Some (Some ErrInvalidCoins)
      else if \<not> IsValid availableCoins then Some (Some ErrInvalidCoins)
      else do {
        (_, hasNeg) \<leftarrow> SafeSub availableCoins am;
        Some (if hasNeg then Some ErrInsufficientFunds else None) })"

definition coinSort :: "Coins \<Rightarrow> Coins" where
  "coinSort coins = SortCoins (filter (\<lambda>c. 0 < Amount c) coins)"

subsection \<open>Keeper\<close>

definition GetSwapTokenPair :: "string \<Rightarrow> ('x swap_state_scheme, SwapTokenPair) action" where
  "GetSwapTokenPair tokenPairName =
     bindM (getM (\<lambda>s. fst (opGet listOps (GetTokenPairKey tokenPairName) (swapStore s)))) (\<lambda>rawItem.
     case rawItem of
       None \<Rightarrow> failM ErrNonExistSwapTokenPair
     | Some item \<Rightarrow> returnM item)"

definition SetSwapTokenPair :: "string \<Rightarrow> SwapTokenPair \<Rightarrow> ('x swap_state_scheme, unit) action" where
  "SetSwapTokenPair tokenPairName swapTokenPair =
     modifyM (\<lambda>s. s\<lparr>swapStore := kvSet (GetTokenPairKey tokenPairName) swapTokenPair (swapStore s)\<rparr>)"

definition DeleteSwapTokenPair :: "string \<Rightarrow> ('x swap_state_scheme, unit) action" where
  "DeleteSwapTokenPair tokenPairName =
     modifyM (\<lambda>s. s\<lparr>swapStore := kvDelete (GetTokenPairKey tokenPairName) (swapStore s)\<rparr>)"

definition GetSwapTokenPairsIterator :: "('x swap_state_scheme, (bytes \<times> SwapTokenPair) list) action" where
  "GetSwapTokenPairsIterator = getM (\<lambda>s. fst (KVStorePrefixIterator listOps TokenPairPrefixKey (swapStore s)))"

definition GetSwapTokenPairs :: "('x swap_state_scheme, SwapTokenPair list) action" where
  "GetSwapTokenPairs = bindM GetSwapTokenPairsIterator (\<lambda>iterator. returnM (map snd iterator))"

definition NewPoolToken :: "string \<Rightarrow> ('x swap_state_scheme, unit) action" where
  "NewPoolToken symbol =
     bindM (getM (\<lambda>s. moduleAddr s swapModule)) (\<lambda>owner. NewToken (InitPoolToken owner symbol))"

definition GetPoolTokenInfo :: "string \<Rightarrow> ('x swap_state_scheme, Token) action" where
  "GetPoolTokenInfo symbol =
     bindM (GetTokenInfo symbol) (\<lambda>poolToken.
     seqM (failIf (tkOwner poolToken = []) ErrNonExistPoolToken)
     (returnM poolToken))"

definition GetPoolTokenAmount :: "string \<Rightarrow> ('x swap_state_scheme, Dec) action" where
  "GetPoolTokenAmount poolTokenName = GetSupplyByDenom poolTokenName"

definition MintPoolCoinsToUser :: "Coins \<Rightarrow> AccAddress \<Rightarrow> ('x swap_state_scheme, unit) action" where
  "MintPoolCoinsToUser coins addr =
     seqM (wrapM ErrCodeMinCoinsFailed (MintCoins swapModule coins))
     (SendCoinsFromModuleToAccount swapModule addr coins)"

definition BurnPoolCoinsFromUser :: "Coins \<Rightarrow> AccAddress \<Rightarrow> ('x swap_state_scheme, unit) action" where
  "BurnPoolCoinsFromUser coins addr =
     seqM (wrapM ErrSendCoinsFromAccountToModule (SendCoinsFromAccountToModule addr swapModule coins))
     (BurnCoins swapModule coins)"

definition SendCoinsToPool :: "Coins \<Rightarrow> AccAddress \<Rightarrow> ('x swap_state_scheme, unit) action" where
  "SendCoinsToPool coins addr = SendCoinsFromAccountToModule addr swapModule coins"

definition SendCoinsFromPoolToAccount :: "Coins \<Rightarrow> AccAddress \<Rightarrow> ('x swap_state_scheme, unit) action" where
  "SendCoinsFromPoolToAccount coins addr = SendCoinsFromModuleToAccount swapModule addr coins"

definition swapGetParams :: "('x swap_state_scheme, Dec) action" where
  "swapGetParams = getM swapFeeRate"

text \<open>\<open>SetParamSet\<close> panics on a value that its validator refuses.\<close>

definition swapSetParams :: "Dec \<Rightarrow> ('x swap_state_scheme, unit) action" where
  "swapSetParams feeRate =
     seqM (panicIf (\<not> validateParams feeRate)) (modifyM (\<lambda>s. s\<lparr>swapFeeRate := feeRate\<rparr>))"

definition IsTokenExist :: "string \<Rightarrow> ('x swap_state_scheme, unit) action" where
  "IsTokenExist token =
     bindM (TokenExist token) (\<lambda>isExist.
     seqM (failIf (\<not> isExist) ErrTokenNotExist)
     (bindM (GetTokenInfo token) (\<lambda>t.
     failIf (tkType t = GenerateTokenType) ErrSwapInvalidCoins)))"

text \<open>The assets for \<open>liquidity\<close> pool tokens out of \<open>poolTokenAmount\<close>.\<close>

definition redeemAmounts :: "SwapTokenPair \<Rightarrow> Dec \<Rightarrow> Dec \<Rightarrow> (DecCoin \<times> DecCoin) option" where
  "redeemAmounts pair liquidity poolTokenAmount = do {
     baseDec \<leftarrow> MulAndQuo (Amount (BasePooledCoin pair)) liquidity poolTokenAmount;
     quoteDec \<leftarrow> MulAndQuo (Amount (QuotePooledCoin pair)) liquidity poolTokenAmount;
     baseAmount \<leftarrow> NewDecCoinFromDec (Denom (BasePooledCoin pair)) baseDec;
     quoteAmount \<leftarrow> NewDecCoinFromDec (Denom (QuotePooledCoin pair)) quoteDec;
     Some (baseAmount, quoteAmount) }"

definition GetRedeemableAssets ::
  "string \<Rightarrow> string \<Rightarrow> Dec \<Rightarrow> ('x swap_state_scheme, DecCoin \<times> DecCoin) action" where
  "GetRedeemableAssets baseAmountName quoteAmountName liquidity =
     seqM (wrapM ErrValidateSwapAmountName (ValidateBaseAndQuoteAmount baseAmountName quoteAmountName))
     (bindM (GetSwapTokenPair (GetSwapTokenPairName baseAmountName quoteAmountName)) (\<lambda>swapTokenPair.
     bindM (GetPoolTokenAmount (PoolTokenName swapTokenPair)) (\<lambda>poolTokenAmount.
     seqM (failIf (poolTokenAmount < liquidity) ErrInsufficientPoolToken)
     (liftM (redeemAmounts swapTokenPair liquidity poolTokenAmount)))))"

subsection \<open>Handlers\<close>

text \<open>\<open>ctx.BlockTime().Unix()\<close>.\<close>

definition blockUnix :: "('x swap_state_scheme, int) action" where
  "blockUnix = getM (\<lambda>s. blockTime s div 10 ^ 9)"

definition handleMsgCreateExchange :: "MsgCreateExchange \<Rightarrow> ('x swap_state_scheme, unit) action" where
  "handleMsgCreateExchange msg =
     seqM (IsTokenExist (Token0Name msg))
     (seqM (IsTokenExist (Token1Name msg))
     (let tokenPairName = cePairName msg in
      bindM (attemptM (GetSwapTokenPair tokenPairName)) (\<lambda>found.
      seqM (failIf (\<not> isl found) ErrSwapTokenPairExist)
      (let poolTokenName = GetPoolTokenName (Token0Name msg) (Token1Name msg) in
       bindM (attemptM (GetPoolTokenInfo poolTokenName)) (\<lambda>info.
       seqM (failIf (\<not> isl info) ErrPoolTokenPairExist)
       (seqM (NewPoolToken poolTokenName)
       (bindM (liftM (NewSwapPair (Token0Name msg) (Token1Name msg))) (\<lambda>swapTokenPair.
        SetSwapTokenPair tokenPairName swapTokenPair))))))))"

text \<open>The base amount and the liquidity of a deposit: the three branches of \<open>handleMsgAddLiquidity\<close>.\<close>

definition addLiquidityAmounts ::
  "MsgAddLiquidity \<Rightarrow> SwapTokenPair \<Rightarrow> ('x swap_state_scheme, Dec \<times> Dec) action" where
  "addLiquidityAmounts msg pair =
     (let base = Amount (BasePooledCoin pair); quote = Amount (QuotePooledCoin pair) in
      if quote = 0 \<and> base = 0 then returnM (Amount (MaxBaseAmount msg), NewDec 1)
      else if coinIsPositive (BasePooledCoin pair) \<and> coinIsPositive (QuotePooledCoin pair)
      then
        bindM (liftM (MulAndQuo (Amount (QuoteAmount msg)) base quote)) (\<lambda>baseTokens0.
        bindM (GetPoolTokenAmount (PoolTokenName pair)) (\<lambda>totalSupply.
        bindM (if baseTokens0 = 0 then liftM (NewDecWithPrec 1 (int Precision)) else returnM baseTokens0)
          (\<lambda>baseTokens.
        seqM (failIf (totalSupply = 0) ErrIsZeroValue)
        (bindM (liftM (MulAndQuo (Amount (QuoteAmount msg)) totalSupply quote)) (\<lambda>liquidity.
        seqM (failIf (liquidity = 0) ErrIsZeroValue)
        (returnM (baseTokens, liquidity)))))))
      else failM ErrInvalidTokenPair)"

definition handleMsgAddLiquidity :: "MsgAddLiquidity \<Rightarrow> ('x swap_state_scheme, unit) action" where
  "handleMsgAddLiquidity msg =
     bindM blockUnix (\<lambda>now.
     seqM (failIf (alDeadline msg < now) ErrBlockTimeBigThanDeadline)
     (bindM (GetSwapTokenPair (alPairName msg)) (\<lambda>pair.
     bindM (liftM (NewDecCoinFromDec (Denom (MaxBaseAmount msg)) ZeroDec)) (\<lambda>baseTokens0.
     bindM (GetPoolTokenInfo (PoolTokenName pair)) (\<lambda>poolToken.
     bindM (addLiquidityAmounts msg pair) (\<lambda>(baseAmount, liquidity).
     let baseTokens = baseTokens0\<lparr>Amount := baseAmount\<rparr> in
     seqM (failIf (baseAmount > Amount (MaxBaseAmount msg)) ErrBaseTokensAmountBiggerThanMax)
     (seqM (failIf (liquidity < MinLiquidity msg) ErrLessThan)
     (seqM (wrapM ErrSendCoinsFailed
              (SendCoinsToPool (coinSort [QuoteAmount msg, baseTokens]) (alSender msg)))
     (bindM (liftM (coinAdd (QuotePooledCoin pair) (QuoteAmount msg))) (\<lambda>quote.
     bindM (liftM (coinAdd (BasePooledCoin pair) baseTokens)) (\<lambda>base.
     seqM (SetSwapTokenPair (alPairName msg) (pair\<lparr>QuotePooledCoin := quote, BasePooledCoin := base\<rparr>))
     (bindM (liftM (NewDecCoinFromDec (tkSymbol poolToken) liquidity)) (\<lambda>poolCoins.
      wrapM ErrMintPoolTokenFailed (MintPoolCoinsToUser [poolCoins] (alSender msg)))))))))))))))"

definition handleMsgRemoveLiquidity :: "MsgRemoveLiquidity \<Rightarrow> ('x swap_state_scheme, unit) action" where
  "handleMsgRemoveLiquidity msg =
     bindM blockUnix (\<lambda>now.
     seqM (failIf (rlDeadline msg < now) ErrMsgDeadlineLessThanBlockTime)
     (bindM (GetSwapTokenPair (rlPairName msg)) (\<lambda>pair.
     bindM (GetPoolTokenAmount (PoolTokenName pair)) (\<lambda>poolTokenAmount.
     seqM (failIf (poolTokenAmount < Liquidity msg) ErrLessThan)
     (bindM (liftM (redeemAmounts pair (Liquidity msg) poolTokenAmount)) (\<lambda>(baseAmount, quoteAmount).
     bindM (liftM (coinIsLT baseAmount (MinBaseAmount msg))) (\<lambda>baseLess.
     seqM (failIf baseLess ErrLessThan)
     (bindM (liftM (coinIsLT quoteAmount (MinQuoteAmount msg))) (\<lambda>quoteLess.
     seqM (failIf quoteLess ErrLessThan)
     (seqM (wrapM ErrSendCoinsFromPoolToAccountFailed
              (SendCoinsFromPoolToAccount (coinSort [baseAmount, quoteAmount]) (rlSender msg)))
     (bindM (liftM (coinSub (QuotePooledCoin pair) quoteAmount)) (\<lambda>quote.
     bindM (liftM (coinSub (BasePooledCoin pair) baseAmount)) (\<lambda>base.
     seqM (SetSwapTokenPair (rlPairName msg) (pair\<lparr>QuotePooledCoin := quote, BasePooledCoin := base\<rparr>))
     (bindM (liftM (NewDecCoinFromDec (PoolTokenName pair) (Liquidity msg))) (\<lambda>poolCoins.
      wrapM ErrBurnPoolTokenFailed (BurnPoolCoinsFromUser [poolCoins] (rlSender msg)))))))))))))))))"

definition checkSufficient :: "MsgTokenToToken \<Rightarrow> ('x swap_state_scheme, unit) action" where
  "checkSufficient msg =
     bindM (GetCoins (ttSender msg)) (\<lambda>availableCoins.
     bindM (liftM (HasSufficientCoins availableCoins [SoldTokenAmount msg])) (\<lambda>err.
     failIf (err \<noteq> None) ErrSwapInsufficientCoins))"

definition emptyPool :: "SwapTokenPair \<Rightarrow> bool" where
  "emptyPool pair \<longleftrightarrow> coinIsZero (BasePooledCoin pair) \<or> coinIsZero (QuotePooledCoin pair)"

text \<open>The pool after a swap, the last part of \<open>swapTokenNativeToken\<close>.\<close>

definition updatePair :: "SwapTokenPair \<Rightarrow> DecCoin \<Rightarrow> MsgTokenToToken \<Rightarrow> ('x swap_state_scheme, unit) action" where
  "updatePair pair tokenBuy msg =
     (if Denom (MinBoughtTokenAmount msg) < Denom (SoldTokenAmount msg) then
        bindM (liftM (coinAdd (QuotePooledCoin pair) (SoldTokenAmount msg))) (\<lambda>quote.
        bindM (liftM (coinSub (BasePooledCoin pair) tokenBuy)) (\<lambda>base.
        SetSwapTokenPair (ttPairName msg) (pair\<lparr>QuotePooledCoin := quote, BasePooledCoin := base\<rparr>)))
      else
        bindM (liftM (coinSub (QuotePooledCoin pair) tokenBuy)) (\<lambda>quote.
        bindM (liftM (coinAdd (BasePooledCoin pair) (SoldTokenAmount msg))) (\<lambda>base.
        SetSwapTokenPair (ttPairName msg) (pair\<lparr>QuotePooledCoin := quote, BasePooledCoin := base\<rparr>))))"

definition swapTokenNativeToken ::
  "SwapTokenPair \<Rightarrow> DecCoin \<Rightarrow> MsgTokenToToken \<Rightarrow> ('x swap_state_scheme, unit) action" where
  "swapTokenNativeToken pair tokenBuy msg =
     seqM (wrapM ErrSendCoinsToPoolFailed (SendCoinsToPool [SoldTokenAmount msg] (ttSender msg)))
     (seqM (wrapM ErrSendCoinsFromPoolToAccountFailed
              (SendCoinsFromPoolToAccount [tokenBuy] (ttRecipient msg)))
     (updatePair pair tokenBuy msg))"

definition swapToken :: "MsgTokenToToken \<Rightarrow> ('x swap_state_scheme, unit) action" where
  "swapToken msg =
     seqM (checkSufficient msg)
     (bindM blockUnix (\<lambda>now.
     seqM (failIf (ttDeadline msg < now) ErrBlockTimeBigThanDeadline)
     (bindM (GetSwapTokenPair (ttPairName msg)) (\<lambda>pair.
     seqM (failIf (emptyPool pair) ErrIsZeroValue)
     (bindM swapGetParams (\<lambda>params.
     bindM (liftM (CalculateTokenToBuy pair (SoldTokenAmount msg) (Denom (MinBoughtTokenAmount msg)) params))
       (\<lambda>tokenBuy.
     seqM (failIf (coinIsZero tokenBuy) ErrIsZeroValue)
     (seqM (failIf (Amount tokenBuy < Amount (MinBoughtTokenAmount msg)) ErrLessThan)
     (swapTokenNativeToken pair tokenBuy msg)))))))))"

definition swapTokenByRouter :: "MsgTokenToToken \<Rightarrow> ('x swap_state_scheme, unit) action" where
  "swapTokenByRouter msg =
     bindM blockUnix (\<lambda>now.
     seqM (failIf (ttDeadline msg < now) ErrBlockTimeBigThanDeadline)
     (seqM (checkSufficient msg)
     (bindM (wrapM ErrNonExistSwapTokenPair
               (GetSwapTokenPair (GetSwapTokenPairName (Denom (SoldTokenAmount msg)) DefaultBondDenom))) (\<lambda>pairOne.
     seqM (failIf (emptyPool pairOne) ErrIsZeroValue)
     (bindM (wrapM ErrNonExistSwapTokenPair
               (GetSwapTokenPair (GetSwapTokenPairName (Denom (MinBoughtTokenAmount msg)) DefaultBondDenom))) (\<lambda>pairTwo.
     seqM (failIf (emptyPool pairTwo) ErrIsZeroValue)
     (bindM (liftM (NewDecCoinFromDec DefaultBondDenom ZeroDec)) (\<lambda>nativeAmount.
     bindM swapGetParams (\<lambda>params.
     let msgOne = msg\<lparr>MinBoughtTokenAmount := nativeAmount\<rparr> in
     bindM (liftM (CalculateTokenToBuy pairOne (SoldTokenAmount msgOne) (Denom (MinBoughtTokenAmount msgOne)) params))
       (\<lambda>tokenNative.
     seqM (failIf (coinIsZero tokenNative) ErrIsZeroValue)
     (let msgTwo = msg\<lparr>SoldTokenAmount := tokenNative\<rparr> in
      bindM (liftM (CalculateTokenToBuy pairTwo (SoldTokenAmount msgTwo) (Denom (MinBoughtTokenAmount msgTwo)) params))
        (\<lambda>tokenBuy.
      seqM (failIf (coinIsZero tokenBuy) ErrIsZeroValue)
      (seqM (failIf (Amount tokenBuy < Amount (MinBoughtTokenAmount msg)) ErrLessThan)
      (seqM (swapTokenNativeToken pairOne tokenNative msgOne)
      (swapTokenNativeToken pairTwo tokenBuy msgTwo)))))))))))))))"

definition handleMsgTokenToToken :: "MsgTokenToToken \<Rightarrow> ('x swap_state_scheme, unit) action" where
  "handleMsgTokenToToken msg =
     bindM (attemptM (GetSwapTokenPair (ttPairName msg))) (\<lambda>found.
     if \<not> isl found then swapToken msg else swapTokenByRouter msg)"

datatype SwapMsg =
  AddLiquidityMsg MsgAddLiquidity | RemoveLiquidityMsg MsgRemoveLiquidity |
  CreateExchangeMsg MsgCreateExchange | TokenToTokenMsg MsgTokenToToken | OtherSwapMsg

fun swapHandler :: "SwapMsg \<Rightarrow> ('x swap_state_scheme, unit) action" where
  "swapHandler (AddLiquidityMsg msg) = handleMsgAddLiquidity msg"
| "swapHandler (RemoveLiquidityMsg msg) = handleMsgRemoveLiquidity msg"
| "swapHandler (CreateExchangeMsg msg) = handleMsgCreateExchange msg"
| "swapHandler (TokenToTokenMsg msg) = handleMsgTokenToToken msg"
| "swapHandler OtherSwapMsg = failM ErrSwapUnknownMsgType"

subsection \<open>Queries\<close>

text \<open>
  Requests are the decoded parameters and answers the values that are then encoded. The arguments
  \<open>path\<close> are the pieces of the query path, indexed as in the source.
\<close>

definition pathArg :: "string list \<Rightarrow> nat \<Rightarrow> string option" where
  "pathArg path i = (if i < length path then Some (path ! i) else None)"

record QueryBuyAmountParams =
  SoldToken :: DecCoin
  TokenToBuy :: string

record SwapBuyInfo =
  sbBuyAmount :: Dec
  sbPrice :: Dec
  sbPriceImpact :: "Dec option"
  sbFee :: string
  sbRoute :: string

record SwapAddInfo =
  saBaseTokenAmount :: Dec
  saPoolShare :: Dec
  saLiquidity :: Dec

text \<open>A pool that a query or a route needs, with liquidity on both sides.\<close>

definition fundedPair :: "string \<Rightarrow> ('x swap_state_scheme, SwapTokenPair) action" where
  "fundedPair name =
     bindM (GetSwapTokenPair name) (\<lambda>pair.
     seqM (failIf (emptyPool pair) ErrIsZeroValue)
     (returnM pair))"

definition querySwapTokenPair :: "string list \<Rightarrow> ('x swap_state_scheme, SwapTokenPair option) action" where
  "querySwapTokenPair path =
     bindM (liftM (pathArg path 0)) (\<lambda>tokenPairName.
     bindM (attemptM (GetSwapTokenPair tokenPairName)) (\<lambda>r.
     returnM (case r of Inl _ \<Rightarrow> None | Inr tokenPair \<Rightarrow> Some tokenPair)))"

definition queryBuyAmount :: "QueryBuyAmountParams \<Rightarrow> ('x swap_state_scheme, Dec) action" where
  "queryBuyAmount q =
     seqM (ValidateSwapAmountName (TokenToBuy q))
     (seqM (ValidateSwapAmountName (Denom (SoldToken q)))
     (bindM swapGetParams (\<lambda>params.
     bindM (attemptM (GetSwapTokenPair (GetSwapTokenPairName (Denom (SoldToken q)) (TokenToBuy q)))) (\<lambda>r.
     case r of
       Inr tokenPair \<Rightarrow>
         seqM (failIf (emptyPool tokenPair) ErrIsZeroValue)
         (bindM (liftM (CalculateTokenToBuy tokenPair (SoldToken q) (TokenToBuy q) params)) (\<lambda>buy.
          returnM (Amount buy)))
     | Inl _ \<Rightarrow>
         bindM (fundedPair (GetSwapTokenPairName (Denom (SoldToken q)) DefaultBondDenom)) (\<lambda>tokenPair1.
         bindM (fundedPair (GetSwapTokenPairName (TokenToBuy q) DefaultBondDenom)) (\<lambda>tokenPair2.
         bindM (liftM (CalculateTokenToBuy tokenPair1 (SoldToken q) DefaultBondDenom params)) (\<lambda>nativeToken.
         bindM (liftM (CalculateTokenToBuy tokenPair2 nativeToken (TokenToBuy q) params)) (\<lambda>buy.
         returnM (Amount buy)))))))))"

definition queryRedeemableAssets :: "string list \<Rightarrow> ('x swap_state_scheme, Coins) action" where
  "queryRedeemableAssets path =
     bindM (liftM (pathArg path 0)) (\<lambda>tokenPairName.
     bindM (GetSwapTokenPair tokenPairName) (\<lambda>pair.
     bindM (liftM (pathArg path 1)) (\<lambda>arg.
     case NewDecFromStr arg of
       Inl _ \<Rightarrow> failM ErrInternal
     | Inr liquidity \<Rightarrow>
         bindM (GetRedeemableAssets (Denom (BasePooledCoin pair)) (Denom (QuotePooledCoin pair)) liquidity)
           (\<lambda>(baseToken, quoteToken). returnM [baseToken, quoteToken]))))"

text \<open>
  The quotient of the two sides of a pool that \<open>querySwapQuoteInfo\<close> calls the market price of the
  token \<open>denom\<close>.
\<close>

definition marketPriceOf :: "SwapTokenPair \<Rightarrow> string \<Rightarrow> Dec option" where
  "marketPriceOf pair denom =
     (if Denom (BasePooledCoin pair) = denom
      then DecQuo (Amount (QuotePooledCoin pair)) (Amount (BasePooledCoin pair))
      else DecQuo (Amount (BasePooledCoin pair)) (Amount (QuotePooledCoin pair)))"

definition feeOf :: "DecCoin \<Rightarrow> Dec \<Rightarrow> DecCoin option" where
  "feeOf c feeRate = do { f \<leftarrow> DecMul (Amount c) feeRate; NewDecCoinFromDec (Denom c) f }"

text \<open>Bought amount, market price, fee and route of the direct and of the routed branch.\<close>

definition directQuote :: "SwapTokenPair \<Rightarrow> DecCoin \<Rightarrow> string \<Rightarrow> Dec \<Rightarrow> (Dec \<times> Dec \<times> DecCoin \<times> string) option" where
  "directQuote pair sellAmount buyToken params = do {
     buy \<leftarrow> CalculateTokenToBuy pair sellAmount buyToken params;
     marketPrice \<leftarrow> marketPriceOf pair (Denom sellAmount);
     fee \<leftarrow> feeOf sellAmount params;
     Some (Amount buy, marketPrice, fee, []) }"

definition routedQuote ::
  "SwapTokenPair \<Rightarrow> SwapTokenPair \<Rightarrow> DecCoin \<Rightarrow> string \<Rightarrow> Dec \<Rightarrow> (Dec \<times> Dec \<times> DecCoin \<times> string) option" where
  "routedQuote pair1 pair2 sellAmount buyToken params = do {
     nativeToken \<leftarrow> CalculateTokenToBuy pair1 sellAmount DefaultBondDenom params;
     buy \<leftarrow> CalculateTokenToBuy pair2 nativeToken buyToken params;
     sellTokenMarketPrice \<leftarrow> marketPriceOf pair1 (Denom sellAmount);
     routeTokenMarketPrice \<leftarrow> marketPriceOf pair2 DefaultBondDenom;
     marketPrice \<leftarrow> (if 0 < routeTokenMarketPrice \<and> 0 < sellTokenMarketPrice
       then DecMul sellTokenMarketPrice routeTokenMarketPrice else Some ZeroDec);
     fee1 \<leftarrow> feeOf sellAmount params;
     routeFee \<leftarrow> DecMul (Amount nativeToken) params;
     routeTokenFee \<leftarrow> NewDecCoinFromDec DefaultBondDenom routeFee;
     fee2 \<leftarrow> CalculateTokenToBuy pair1 routeTokenFee (Denom sellAmount) params;
     fee \<leftarrow> coinAdd fee1 fee2;
     Some (Amount buy, marketPrice, fee, DefaultBondDenom) }"

text \<open>The part of \<open>querySwapQuoteInfo\<close> after the branches.\<close>

definition quoteInfo :: "DecCoin \<Rightarrow> Dec \<times> Dec \<times> DecCoin \<times> string \<Rightarrow> SwapBuyInfo option" where
  "quoteInfo sellAmount = (\<lambda>(buyAmount, marketPrice, fee, route). do {
     price \<leftarrow> (if 0 < Amount sellAmount then DecQuo buyAmount (Amount sellAmount) else Some ZeroDec);
     priceImpact \<leftarrow> (if 0 < marketPrice then do {
         diff \<leftarrow> (if marketPrice > price then DecSub marketPrice price else DecSub price marketPrice);
         impact \<leftarrow> DecQuo diff marketPrice;
         Some (Some impact) }
       else Some None);
     Some \<lparr>sbBuyAmount = buyAmount, sbPrice = price, sbPriceImpact = priceImpact,
       sbFee = coinToString fee, sbRoute = route\<rparr> })"

definition querySwapQuoteInfo :: "string \<Rightarrow> string \<Rightarrow> ('x swap_state_scheme, SwapBuyInfo) action" where
  "querySwapQuoteInfo sellTokenAmount buyToken =
     seqM (failIf (sellTokenAmount = [] \<or> buyToken = []) ErrSellAmountOrBuyTokenIsEmpty)
     (bindM (liftM (ParseDecCoin sellTokenAmount)) (\<lambda>parsed.
     case parsed of
       Inl _ \<Rightarrow> failM ErrConvertSellTokenAmount
     | Inr sellAmount \<Rightarrow>
         seqM (failIf (Denom sellAmount = buyToken) ErrSellAmountEqualBuyToken)
         (bindM swapGetParams (\<lambda>swapParams.
          bindM (attemptM (GetSwapTokenPair (GetSwapTokenPairName (Denom sellAmount) buyToken))) (\<lambda>r.
          bindM
            (case r of
               Inr tokenPair \<Rightarrow>
                 seqM (failIf (emptyPool tokenPair) ErrIsZeroValue)
                 (liftM (directQuote tokenPair sellAmount buyToken swapParams))
             | Inl _ \<Rightarrow>
                 bindM (fundedPair (GetSwapTokenPairName (Denom sellAmount) DefaultBondDenom)) (\<lambda>tokenPair1.
                 bindM (fundedPair (GetSwapTokenPairName buyToken DefaultBondDenom)) (\<lambda>tokenPair2.
                 liftM (routedQuote tokenPair1 tokenPair2 sellAmount buyToken swapParams))))
            (\<lambda>quote. liftM (quoteInfo sellAmount quote)))))))"

definition addQuote :: "SwapTokenPair \<Rightarrow> DecCoin \<Rightarrow> Dec \<Rightarrow> SwapAddInfo option" where
  "addQuote pair queryTokenAmount totalSupply = do {
     (addAmount, liquidity) \<leftarrow>
       (if Denom (BasePooledCoin pair) = Denom queryTokenAmount then do {
          a \<leftarrow> MulAndQuo (Amount queryTokenAmount) (Amount (QuotePooledCoin pair)) (Amount (BasePooledCoin pair));
          l \<leftarrow> MulAndQuo a totalSupply (Amount (QuotePooledCoin pair));
          Some (a, l) }
        else do {
          a \<leftarrow> MulAndQuo (Amount queryTokenAmount) (Amount (BasePooledCoin pair)) (Amount (QuotePooledCoin pair));
          l \<leftarrow> MulAndQuo (Amount queryTokenAmount) totalSupply (Amount (QuotePooledCoin pair));
          Some (a, l) });
     total \<leftarrow> DecAdd totalSupply liquidity;
     share \<leftarrow> DecQuo liquidity total;
     Some \<lparr>saBaseTokenAmount = addAmount, saPoolShare = share, saLiquidity = liquidity\<rparr> }"

definition querySwapAddLiquidityQuote :: "string \<Rightarrow> string \<Rightarrow> ('x swap_state_scheme, SwapAddInfo) action" where
  "querySwapAddLiquidityQuote quoteTokenAmount baseToken =
     seqM (failIf (quoteTokenAmount = []) ErrQueryParamsQuoteTokenAmountIsEmpty)
     (seqM (failIf (baseToken = []) ErrQueryParamsBaseTokenIsEmpty)
     (bindM (liftM (ParseDecCoin quoteTokenAmount)) (\<lambda>parsed.
     case parsed of
       Inl _ \<Rightarrow> failM ErrConvertQuoteTokenAmount
     | Inr queryTokenAmount \<Rightarrow>
         bindM (GetSwapTokenPair (GetSwapTokenPairName baseToken (Denom queryTokenAmount))) (\<lambda>pair.
         seqM (failIf (Amount (BasePooledCoin pair) = 0 \<and> Amount (QuotePooledCoin pair) = 0) ErrIsZeroValue)
         (bindM (GetPoolTokenAmount (PoolTokenName pair)) (\<lambda>totalSupply.
         seqM (failIf (totalSupply = 0) ErrIsZeroValue)
         (liftM (addQuote pair queryTokenAmount totalSupply))))))))"

subsection \<open>Genesis\<close>

record SwapGenesisState =
  gsFeeRate :: Dec
  SwapTokenPairRecords :: "SwapTokenPair list"

definition swapValidateGenesis :: "SwapGenesisState \<Rightarrow> bool" where
  "swapValidateGenesis data =
     list_all (\<lambda>r. coinIsValid (QuotePooledCoin r) \<and> coinIsValid (BasePooledCoin r) \<and>
       NotAllowedOriginSymbol (PoolTokenName r)) (SwapTokenPairRecords data)"

definition swapDefaultGenesisState :: "SwapGenesisState option" where
  "swapDefaultGenesisState = do {
     feeRate \<leftarrow> defaultFeeRate;
     Some \<lparr>gsFeeRate = feeRate, SwapTokenPairRecords = []\<rparr> }"

definition swapInitGenesis :: "SwapGenesisState \<Rightarrow> ('x swap_state_scheme, unit) action" where
  "swapInitGenesis data =
     seqM (swapSetParams (gsFeeRate data))
     (forM (SwapTokenPairRecords data) (\<lambda>r. SetSwapTokenPair (TokenPairName r) r))"

definition swapExportGenesis :: "('x swap_state_scheme, SwapGenesisState) action" where
  "swapExportGenesis =
     bindM GetSwapTokenPairsIterator (\<lambda>iterator.
     bindM swapGetParams (\<lambda>params.
     returnM \<lparr>gsFeeRate = params, SwapTokenPairRecords = map snd iterator\<rparr>))"

end
