(* ===== verification/SwapPools.thy ===== *)
theory SwapPools
  imports Swap Transfers
begin

text \<open>
  Lemmas and properties of \<open>x/ammswap\<close>: the arithmetic of pools, what each handler does to balances, supply
  and pools, the invariant of the module, and the properties that follow.
\<close>

section \<open>Arithmetic of pools\<close>

lemma div_bounds:
  fixes n d :: int
  assumes "0 < d"
  shows "n div d * d \<le> n" "n < (n div d + 1) * d"
  using div_mult_mod_eq [of n d] pos_mod_sign [OF assms, of n] pos_mod_bound [OF assms, of n]
  unfolding distrib_right mult_1 by linarith+

text \<open>\<open>MulAndQuo\<close> computes the floor of \<open>a * b / c\<close>, and where it panics.\<close>

lemma MulAndQuo_Some:
  assumes "0 \<le> a" "0 \<le> b" "0 \<le> c"
  shows "MulAndQuo a b c = Some r \<longleftrightarrow>
    0 < c \<and> a * precisionReuse < decLimit \<and> a * b < decLimit \<and>
    a * b * precisionReuse div c < decLimit \<and> r = a * b div c"
proof (cases "c = 0")
  case True
  then show ?thesis by (auto simp: MulAndQuo_def DecQuoTruncate_def)
next
  case False
  define P where "P = precisionReuse"
  have P: "0 < P" by (simp add: P_def)
  have aux: "NewDecFromBigIntWithPrec (10 ^ Precision) 0 = Some (P * P)"
    by (simp add: NewDecFromBigIntWithPrec_def precisionMultiplier_def P_def precisionReuse_def)
  have trunc: "chopPrecisionAndTruncate x = x div P" if "0 \<le> x" for x
    using that by (simp add: chopPrecisionAndTruncate_def sdiv_nonneg P_def)
  have quo: "DecQuoTruncate x y = checkDec (x * P div y)" if "0 \<le> x" "0 < y" for x y
    using that P by (simp add: DecQuoTruncate_exact P_def [symmetric] sdiv_nonneg)
  have 1: "a * (P * P) div P = a * P" "a * P * b div P = a * b"
    using nonzero_mult_div_cancel_right [of P "a * P"] nonzero_mult_div_cancel_right [of P "a * b"] P
    by (simp_all add: mult.assoc mult.left_commute [of b])
  have "a * b * P div c * P div (P * P) = a * b * P div c div P" using P by simp
  also have "\<dots> = a * b * P div (c * P)" using zdiv_zmult2_eq [of P "a * b * P" c] P by linarith
  also have "\<dots> = a * b div c" using P by (simp only: div_mult_mult2)
  finally have 2: "a * b * P div c * P div (P * P) = a * b div c" .
  have nn: "0 \<le> a * P" "0 \<le> a * b" "0 \<le> a * b * P div c" "0 \<le> a * b div c"
    using assms False P by (simp_all add: pos_imp_zdiv_nonneg_iff)
  have "a * b div c \<le> a * b * P div c"
    using assms(3) False mult_left_mono [of 1 P "a * b"] nn(2) P by (intro zdiv_mono1) simp_all
  then show ?thesis
    using assms False P nn
    by (auto simp: MulAndQuo_def aux DecMulTruncate_def trunc 1 quo 2 P_def [symmetric])
qed

lemma MulAndQuo_nonneg: "MulAndQuo a b c = Some r \<Longrightarrow> 0 \<le> a \<Longrightarrow> 0 \<le> b \<Longrightarrow> 0 \<le> c \<Longrightarrow> 0 \<le> r"
  by (auto simp: MulAndQuo_Some pos_imp_zdiv_nonneg_iff)

text \<open>The input after the fee counts at most 1000 times, which is its weight without a fee.\<close>

lemma GetInputPrice_Some:
  assumes "GetInputPrice x i out_res fee = Some out" "0 \<le> x" "0 < i" "0 \<le> out_res"
    and "validateParams fee"
  shows "\<exists>w. 0 \<le> w \<and> w \<le> 1000 * x \<and> out = w * out_res div (1000 * i + w)"
proof -
  define P where "P = precisionReuse"
  have P: "0 < P" by (simp add: P_def)
  have f: "0 \<le> fee" "fee \<le> P" using assms(5) by (auto simp: validateParams_def OneDec_def P_def)
  have trunc: "chopPrecisionAndTruncate z = z div P" if "0 \<le> z" for z
    using that by (simp add: chopPrecisionAndTruncate_def sdiv_nonneg P_def)
  have e: "(P - fee) * (1000 * P) div P = 1000 * (P - fee)" "i * (1000 * P) div P = 1000 * i"
    using nonzero_mult_div_cancel_right [of P "1000 * (P - fee)"] nonzero_mult_div_cancel_right [of P "1000 * i"] P
    by (simp_all add: mult.assoc mult.left_commute)
  define w where "w = x * (1000 * (P - fee)) div P"
  have w0: "0 \<le> w" using assms(2) f P by (simp add: w_def pos_imp_zdiv_nonneg_iff)
  have "x * (1000 * (P - fee)) \<le> x * (1000 * P)" using assms(2) f by (intro mult_left_mono) auto
  then have "w \<le> x * (1000 * P) div P" unfolding w_def using P by (intro zdiv_mono1)
  also have "\<dots> = 1000 * x"
    using nonzero_mult_div_cancel_right [of P "1000 * x"] P by (simp add: mult.assoc mult.left_commute)
  finally have w1: "w \<le> 1000 * x" .
  have "MulAndQuo w out_res (1000 * i + w) = Some out"
    using assms(1-4) f P w0
    by (auto simp: GetInputPrice_def DecMulTruncate_Some NewDec_def OneDec_def P_def [symmetric] trunc e w_def)
  then show ?thesis using assms w0 w1 by (auto simp: MulAndQuo_Some)
qed

lemma product_kept:
  fixes x i r w :: int
  assumes "0 \<le> x" "0 < i" "0 \<le> r" "0 \<le> w" "w \<le> 1000 * x"
  defines "out \<equiv> w * r div (1000 * i + w)"
  shows "0 \<le> out" "out \<le> r" "i * r \<le> (i + x) * (r - out)"
proof -
  have d: "0 < 1000 * i + w" using assms by simp
  show "0 \<le> out" using assms d by (simp add: out_def pos_imp_zdiv_nonneg_iff)
  have le: "out * (1000 * i + w) \<le> w * r"
    unfolding out_def by (rule div_bounds(1) [OF d])
  show o: "out \<le> r"
  proof (rule ccontr)
    assume "\<not> out \<le> r"
    then have "r * (1000 * i + w) < out * (1000 * i + w)" using d by simp
    moreover have "w * r \<le> r * (1000 * i + w)" using assms by (simp add: algebra_simps)
    ultimately show False using le by linarith
  qed
  have "1000 * (i * out) \<le> w * (r - out)" using le by (simp add: algebra_simps)
  also have "\<dots> \<le> 1000 * x * (r - out)" using assms o by (intro mult_right_mono) auto
  finally have "i * out \<le> x * (r - out)" by simp
  then show "i * r \<le> (i + x) * (r - out)" by (simp add: algebra_simps)
qed

section \<open>Pools and the ledger\<close>

definition poolAt :: "'x swap_state_scheme \<Rightarrow> string \<Rightarrow> SwapTokenPair option" where
  "poolAt s name = map_of (swapStore s) (GetTokenPairKey name)"

definition pairAmt :: "SwapTokenPair \<Rightarrow> string \<Rightarrow> Dec" where
  "pairAmt p d = amt [BasePooledCoin p, QuotePooledCoin p] d"

definition sumPairs :: "(bytes \<times> SwapTokenPair) list \<Rightarrow> string \<Rightarrow> Dec" where
  "sumPairs ps d = (\<Sum>e\<leftarrow>ps. pairAmt (snd e) d)"

text \<open>A stored pool is well formed.\<close>

definition poolOK :: "bytes \<Rightarrow> SwapTokenPair \<Rightarrow> bool" where
  "poolOK k p \<longleftrightarrow>
     k = GetTokenPairKey (TokenPairName p) \<and> PoolTokenName p = PoolTokenPrefix @ TokenPairName p \<and>
     Denom (BasePooledCoin p) < Denom (QuotePooledCoin p) \<and>
     coinIsValid (BasePooledCoin p) \<and> coinIsValid (QuotePooledCoin p)"

definition swapInv :: "'x swap_state_scheme \<Rightarrow> bool" where
  "swapInv s \<longleftrightarrow>
     supplyInv s \<and> kvOK (swapStore s) \<and> (\<forall>(k, p)\<in>set (swapStore s). poolOK k p) \<and>
     validateParams (swapFeeRate s) \<and>
     (\<forall>d. sumPairs (swapStore s) d \<le> balance s (moduleAddr s swapModule) d)"

lemma sumPairs_kvSet:
  "kvOK ps \<Longrightarrow> sumPairs (kvSet k p ps) d =
     sumPairs ps d + pairAmt p d - (case map_of ps k of None \<Rightarrow> 0 | Some q \<Rightarrow> pairAmt q d)"
proof (induction k p ps rule: kvSet.induct)
  case (2 k p a q ps)
  have "map_of ps k = None" if "k < a \<or> k = a"
    using 2(2) that by (auto simp: map_of_eq_None_iff)
  with 2 show ?case by (auto simp: sumPairs_def)
qed (simp add: sumPairs_def)

lemma kvSet_all:
  "(\<forall>(k, p)\<in>set ps. Q k p) \<Longrightarrow> Q k p \<Longrightarrow> (\<forall>(k, p)\<in>set (kvSet k p ps). Q k p)"
  by (induction k p ps rule: kvSet.induct) auto

text \<open>Coin movements and writes of the pool store, in any order.\<close>

definition swapLedger :: "'x swap_state_scheme \<Rightarrow> 'x swap_state_scheme \<Rightarrow>
    (AccAddress \<Rightarrow> string \<Rightarrow> Dec) \<Rightarrow> (string \<Rightarrow> Dec) \<Rightarrow> (bytes \<times> SwapTokenPair) list \<Rightarrow> bool" where
  "swapLedger s s' f g st \<longleftrightarrow>
     bankOK s' \<and> s' = s\<lparr>accounts := accounts s', supplyStore := supplyStore s', swapStore := st\<rparr> \<and>
     (\<forall>a d. balance s' a d = balance s a d + f a d) \<and>
     (\<forall>d. totalOf s' d = totalOf s d + g d) \<and>
     (\<forall>d. supplyOf s' d = supplyOf s d + g d)"

lemma swap_fields [simp]:
  "balance (s\<lparr>swapStore := x\<rparr>) a d = balance s a d"
  "totalOf (s\<lparr>swapStore := x\<rparr>) d = totalOf s d"
  "bankOK (s\<lparr>swapStore := x\<rparr>) = bankOK s"
  "supplyOf (s\<lparr>swapStore := x\<rparr>) d = supplyOf s d"
  "moduleAddr (s\<lparr>swapStore := x\<rparr>) md = moduleAddr s md"
  "supplyInv (s\<lparr>swapStore := x\<rparr>) = supplyInv s"
  "heldLocked (s\<lparr>swapStore := x\<rparr>) off = heldLocked s off"
  by (simp_all add: balance_def coinsOf_def totalOf_def bankOK_def supplyOf_def moduleAddr_def supplyInv_def
      heldLocked_def lockedTotal_def)

lemma swapLedger_frame:
  assumes "swapLedger s s' f g st"
  obtains A B where "s' = s\<lparr>accounts := A, supplyStore := B, swapStore := st\<rparr>"
  using assms unfolding swapLedger_def by blast

lemma swapLedger_ledger:
  assumes "ledger s s' f g"
  shows "swapLedger s s' f g (swapStore s)"
proof -
  from assms obtain A B where "s' = s\<lparr>accounts := A, supplyStore := B\<rparr>" by (rule ledger_frame)
  with assms show ?thesis by (simp add: swapLedger_def ledger_def)
qed

lemma swapLedger_trans:
  assumes "swapLedger s s1 f g st1" "swapLedger s1 s2 f' g' st2"
  shows "swapLedger s s2 (\<lambda>a d. f a d + f' a d) (\<lambda>d. g d + g' d) st2"
proof -
  from assms(1) obtain A B where "s1 = s\<lparr>accounts := A, supplyStore := B, swapStore := st1\<rparr>"
    by (rule swapLedger_frame)
  with assms show ?thesis by (simp add: swapLedger_def)
qed

lemma swapLedger_set:
  assumes "swapLedger s s' f g st"
  shows "swapLedger s (s'\<lparr>swapStore := st'\<rparr>) f g st'"
proof -
  from assms obtain A B where "s' = s\<lparr>accounts := A, supplyStore := B, swapStore := st\<rparr>"
    by (rule swapLedger_frame)
  with assms show ?thesis by (simp add: swapLedger_def)
qed

lemma swapLedger_cong:
  "swapLedger s s' f g st \<Longrightarrow> (\<And>a d. f a d = f' a d) \<Longrightarrow> (\<And>d. g d = g' d) \<Longrightarrow> swapLedger s s' f' g' st"
  by (simp add: swapLedger_def)

lemma swapLedger_simps:
  assumes "swapLedger s s' f g st"
  shows "bankOK s'" "balance s' a d = balance s a d + f a d" "supplyOf s' d = supplyOf s d + g d"
    "swapStore s' = st" "moduleAddr s' md = moduleAddr s md" "swapFeeRate s' = swapFeeRate s"
    "supplyInv s \<Longrightarrow> supplyInv s'" "tokenStore s' = tokenStore s" "blockTime s' = blockTime s"
proof -
  from assms obtain A B where s': "s' = s\<lparr>accounts := A, supplyStore := B, swapStore := st\<rparr>"
    by (rule swapLedger_frame)
  show "bankOK s'" "balance s' a d = balance s a d + f a d" "supplyOf s' d = supplyOf s d + g d"
    "supplyInv s \<Longrightarrow> supplyInv s'" using assms by (simp_all add: swapLedger_def supplyInv_def)
  show "swapStore s' = st" "moduleAddr s' md = moduleAddr s md" "swapFeeRate s' = swapFeeRate s"
    "tokenStore s' = tokenStore s" "blockTime s' = blockTime s"
    by (simp_all add: s' moduleAddr_def)
qed

lemma swapLedger_heldLocked:
  assumes "swapLedger s s' f g st" "heldLocked s off"
  shows "heldLocked s' (\<lambda>d. off d + f (moduleAddr s tokenModule) d)"
proof -
  from assms(1) obtain A B where s': "s' = s\<lparr>accounts := A, supplyStore := B, swapStore := st\<rparr>"
    by (rule swapLedger_frame)
  have "ledger s (s\<lparr>accounts := A, supplyStore := B\<rparr>) f g"
    using assms(1) unfolding swapLedger_def ledger_def by (simp add: s')
  from heldLocked_ledger [OF this assms(2)] show ?thesis by (simp add: s')
qed

text \<open>
  One pool is replaced and coins move: solvency is kept when the module account gains at least what
  the pool gains.
\<close>

lemma swapInv_step:
  assumes inv: "swapInv s" and l: "swapLedger s s' f g (kvSet k p' (swapStore s))"
    and p: "map_of (swapStore s) k = Some p" and ok: "poolOK k p'"
    and chg: "\<And>d. pairAmt p' d - pairAmt p d \<le> f (moduleAddr s swapModule) d"
  shows "swapInv s'"
  unfolding swapInv_def
proof (intro conjI allI)
  have kv: "kvOK (swapStore s)" and all: "\<forall>(k, p)\<in>set (swapStore s). poolOK k p"
    and sol: "\<And>d. sumPairs (swapStore s) d \<le> balance s (moduleAddr s swapModule) d"
    using inv by (auto simp: swapInv_def)
  note s' = swapLedger_simps [OF l]
  show "supplyInv s'" using inv s'(7) by (simp add: swapInv_def)
  show "kvOK (swapStore s')" using kv by (simp add: s')
  show "\<forall>(k, p)\<in>set (swapStore s'). poolOK k p" unfolding s'(4) by (rule kvSet_all [OF all ok])
  show "validateParams (swapFeeRate s')" using inv by (simp add: s' swapInv_def)
  fix d
  show "sumPairs (swapStore s') d \<le> balance s' (moduleAddr s' swapModule) d"
    using sol [of d] chg [of d] by (simp add: s' sumPairs_kvSet [OF kv] p)
qed

subsection \<open>Runs of the operations\<close>

lemma GetSwapTokenPair_Ret [run_simps]:
  "GetSwapTokenPair n s = Ret p s' \<longleftrightarrow> s' = s \<and> poolAt s n = Some p"
  by (auto simp: GetSwapTokenPair_def poolAt_def listOps_def run_simps split: option.splits)

lemma GetSwapTokenPair_Err [run_simps]:
  "GetSwapTokenPair n s = Err e s' \<longleftrightarrow> s' = s \<and> poolAt s n = None \<and> e = ErrNonExistSwapTokenPair"
  by (auto simp: GetSwapTokenPair_def poolAt_def listOps_def bindM_def getM_def failM_def returnM_def
      split: option.splits)

lemma coinSub_Some:
  "coinSub a b = Some c \<longleftrightarrow>
     Denom a = Denom b \<and> c = mkCoin (Denom a) (Amount a - Amount b) \<and>
     \<bar>Amount a - Amount b\<bar> < decLimit \<and> Amount b \<le> Amount a"
  by (auto simp: coinSub_def coinIsNegative_def mkCoin_def Let_def)

lemma NewDecCoinFromDec_Some:
  "NewDecCoinFromDec d a = Some c \<longleftrightarrow> ValidateDenom d \<and> 0 \<le> a \<and> c = mkCoin d a"
  by (auto simp: NewDecCoinFromDec_def)

text \<open>A pool takes in \<open>sold\<close> on one side and pays \<open>buy\<close> on the other.\<close>

definition traded :: "DecCoin \<Rightarrow> DecCoin \<Rightarrow> SwapTokenPair \<Rightarrow> SwapTokenPair \<Rightarrow> bool" where
  "traded sold buy p p' \<longleftrightarrow>
     (Denom (QuotePooledCoin p) = Denom sold \<and> Denom (BasePooledCoin p) = Denom buy \<and>
      Amount buy \<le> Amount (BasePooledCoin p) \<and>
      p' = p\<lparr>QuotePooledCoin := mkCoin (Denom sold) (Amount (QuotePooledCoin p) + Amount sold),
              BasePooledCoin := mkCoin (Denom buy) (Amount (BasePooledCoin p) - Amount buy)\<rparr>) \<or>
     (Denom (BasePooledCoin p) = Denom sold \<and> Denom (QuotePooledCoin p) = Denom buy \<and>
      Amount buy \<le> Amount (QuotePooledCoin p) \<and>
      p' = p\<lparr>QuotePooledCoin := mkCoin (Denom buy) (Amount (QuotePooledCoin p) - Amount buy),
              BasePooledCoin := mkCoin (Denom sold) (Amount (BasePooledCoin p) + Amount sold)\<rparr>)"

lemma traded_pairAmt: "traded sold buy p p' \<Longrightarrow> pairAmt p' d = pairAmt p d + amt [sold] d - amt [buy] d"
  unfolding traded_def by (elim disjE conjE) (simp_all add: pairAmt_def mkCoin_def)

lemma traded_poolOK: "traded sold buy p p' \<Longrightarrow> poolOK k p \<Longrightarrow> 0 \<le> Amount sold \<Longrightarrow> poolOK k p'"
  unfolding traded_def
  by (elim disjE conjE) (simp_all add: poolOK_def TokenPairName_def coinIsValid_def mkCoin_def coinIsNegative_def
    split: if_splits)

text \<open>The store key of a swap.\<close>

abbreviation ttKey :: "MsgTokenToToken \<Rightarrow> bytes" where
  "ttKey msg \<equiv> GetTokenPairKey (ttPairName msg)"

definition swapMoves :: "'x swap_state_scheme \<Rightarrow> MsgTokenToToken \<Rightarrow> DecCoin \<Rightarrow> AccAddress \<Rightarrow> string \<Rightarrow> Dec" where
  "swapMoves s msg buy a d =
     moved (ttSender msg) (moduleAddr s swapModule) [SoldTokenAmount msg] a d +
     moved (moduleAddr s swapModule) (ttRecipient msg) [buy] a d"

lemma updatePair_run:
  assumes "updatePair p buy msg s = Ret r s'"
  shows "\<exists>p'. traded (SoldTokenAmount msg) buy p p' \<and>
    s' = s\<lparr>swapStore := kvSet (ttKey msg) p' (swapStore s)\<rparr>"
  using assms unfolding updatePair_def SetSwapTokenPair_def traded_def
  by (cases "Denom (MinBoughtTokenAmount msg) < Denom (SoldTokenAmount msg)")
    (force simp: coinAdd_Some coinSub_Some run_simps)+

lemma SendFromModule_open:
  "SendCoinsFromModuleToAccount md a c s = Ret r s' \<Longrightarrow> \<not> blacklistedAddrs s a"
  by (auto simp: SendCoinsFromModuleToAccount_def BlacklistedAddr_def run_simps dest: mustModuleAddress_Ret)

lemma nativeSwap_run:
  assumes run: "swapTokenNativeToken p buy msg s = Ret r s'" and ok: "bankOK s"
  shows "\<exists>p'. traded (SoldTokenAmount msg) buy p p' \<and> IsValid [SoldTokenAmount msg] \<and> IsValid [buy] \<and>
    \<not> blacklistedAddrs s (ttRecipient msg) \<and>
    swapLedger s s' (swapMoves s msg buy) (\<lambda>_. 0) (kvSet (ttKey msg) p' (swapStore s))"
proof -
  from run obtain r1 s1 r2 s2 where
    1: "SendCoinsFromAccountToModule (ttSender msg) swapModule [SoldTokenAmount msg] s = Ret r1 s1" and
    2: "SendCoinsFromModuleToAccount swapModule (ttRecipient msg) [buy] s1 = Ret r2 s2" and
    3: "updatePair p buy msg s2 = Ret r s'"
    unfolding swapTokenNativeToken_def SendCoinsToPool_def SendCoinsFromPoolToAccount_def
      seqM_Ret_iff wrapM_Ret_iff by blast
  from updatePair_run [OF 3] obtain p' where
    t: "traded (SoldTokenAmount msg) buy p p'" and
    s': "s' = s2\<lparr>swapStore := kvSet (ttKey msg) p' (swapStore s2)\<rparr>" by blast
  note l1 = module_ledger(1) [OF ok 1 ok]
  note ok1 = ledger_bankOK [OF l1]
  note l2 = module_ledger(2) [OF ok1 2 ok1, unfolded moduleAddr_ledger [OF l1]]
  note l = swapLedger_trans [OF swapLedger_ledger [OF l1] swapLedger_ledger [OF l2]]
  have st: "swapStore s2 = swapStore s"
    using swapLedger_simps(4) [OF l] swapLedger_simps(4) [OF swapLedger_ledger [OF l1]] by simp
  have "blacklistedAddrs s1 = blacklistedAddrs s" by (rule ledger_frame [OF l1]) simp
  with SendFromModule_open [OF 2] have b: "\<not> blacklistedAddrs s (ttRecipient msg)" by simp
  have "swapLedger s s' (swapMoves s msg buy) (\<lambda>_. 0) (kvSet (ttKey msg) p' (swapStore s))"
    unfolding s' st
    by (rule swapLedger_cong [OF swapLedger_set [OF l]]) (simp_all add: swapMoves_def)
  with t b SendToModule_valid [OF 1] SendFromModule_valid [OF 2] show ?thesis by blast
qed

subsection \<open>Swaps as sequences of hops\<close>

lemma pairName_sym: "GetSwapTokenPairName a b = GetSwapTokenPairName b a"
  by (auto simp: GetSwapTokenPairName_def GetBaseQuoteTokenName_def Let_def)

lemma ValidateSwapAmountName_Ret [run_simps]:
  "ValidateSwapAmountName n s = Ret r s' \<longleftrightarrow> s' = s \<and> ValidateDenom n \<and> \<not> NotAllowedOriginSymbol n"
  by (auto simp: ValidateSwapAmountName_def run_simps)

lemma ValidateBaseAndQuoteAmount_Ret [run_simps]:
  "ValidateBaseAndQuoteAmount a b s = Ret r s' \<longleftrightarrow> s' = s \<and> a < b \<and>
     ValidateDenom a \<and> ValidateDenom b \<and> \<not> NotAllowedOriginSymbol a \<and> \<not> NotAllowedOriginSymbol b"
  by (auto simp: ValidateBaseAndQuoteAmount_def run_simps)

lemma TokenToToken_valid:
  assumes "MsgTokenToTokenValidateBasic msg s = Ret r s'"
  shows "s' = s \<and> 0 < Amount (SoldTokenAmount msg) \<and> Denom (SoldTokenAmount msg) \<noteq> Denom (MinBoughtTokenAmount msg) \<and>
    ValidateDenom (Denom (SoldTokenAmount msg)) \<and> ValidateDenom (Denom (MinBoughtTokenAmount msg)) \<and>
    \<not> NotAllowedOriginSymbol (Denom (SoldTokenAmount msg)) \<and>
    \<not> NotAllowedOriginSymbol (Denom (MinBoughtTokenAmount msg))"
  using assms
  by (auto simp: MsgTokenToTokenValidateBasic_def GetBaseQuoteTokenName_def coinIsPositive_def run_simps
      split: if_splits)

text \<open>One hop: the pool of the message is read, the price computed and the swap executed.\<close>

definition hop :: "'x swap_state_scheme \<Rightarrow> 'x swap_state_scheme \<Rightarrow> MsgTokenToToken \<Rightarrow> SwapTokenPair \<Rightarrow> DecCoin \<Rightarrow> bool" where
  "hop s s' msg p buy \<longleftrightarrow>
     poolAt s (ttPairName msg) = Some p \<and> \<not> emptyPool p \<and>
     CalculateTokenToBuy p (SoldTokenAmount msg) (Denom (MinBoughtTokenAmount msg)) (swapFeeRate s) = Some buy \<and>
     swapTokenNativeToken p buy msg s = Ret () s'"

lemma calc_denom: "CalculateTokenToBuy p c d fee = Some buy \<Longrightarrow> Denom buy = d"
  by (auto simp: CalculateTokenToBuy_def NewDecCoinFromDec_Some mkCoin_def split: if_splits)

lemma checkSufficient_Ret: "checkSufficient msg s = Ret r s' \<Longrightarrow> s' = s"
  by (auto simp: checkSufficient_def GetCoins_def run_simps)

lemma swapToken_run:
  "swapToken msg s = Ret r s' \<Longrightarrow>
   \<exists>p buy. hop s s' msg p buy \<and> 0 \<noteq> Amount buy \<and> Amount (MinBoughtTokenAmount msg) \<le> Amount buy"
  by (auto simp: swapToken_def hop_def blockUnix_def swapGetParams_def coinIsZero_def run_simps
      dest!: checkSufficient_Ret)

lemma router_run:
  assumes "swapTokenByRouter msg s = Ret r s'"
  shows "\<exists>p1 p2 native buy s1. hop s s1 (msg\<lparr>MinBoughtTokenAmount := mkCoin DefaultBondDenom 0\<rparr>) p1 native \<and>
    poolAt s (GetSwapTokenPairName (Denom (MinBoughtTokenAmount msg)) DefaultBondDenom) = Some p2 \<and>
    \<not> emptyPool p2 \<and> Amount (MinBoughtTokenAmount msg) \<le> Amount buy \<and> 0 \<noteq> Amount buy \<and>
    CalculateTokenToBuy p2 native (Denom (MinBoughtTokenAmount msg)) (swapFeeRate s) = Some buy \<and>
    swapTokenNativeToken p2 buy (msg\<lparr>SoldTokenAmount := native\<rparr>) s1 = Ret r s'"
  using assms pairName_sym [of DefaultBondDenom]
  unfolding swapTokenByRouter_def
  by (auto simp: hop_def blockUnix_def swapGetParams_def coinIsZero_def Let_def ttPairName_def
      NewDecCoinFromDec_Some mkCoin_def run_simps dest!: checkSufficient_Ret)

definition poolProduct :: "SwapTokenPair \<Rightarrow> Dec" where
  "poolProduct p = Amount (BasePooledCoin p) * Amount (QuotePooledCoin p)"

lemma poolAt_set:
  assumes "kvOK (swapStore s)" "swapStore s' = kvSet (GetTokenPairKey n) p (swapStore s)"
  shows "poolAt s' m = (if m = n then Some p else poolAt s m)"
  using assms by (simp add: poolAt_def map_of_kvSet GetTokenPairKey_def)

lemma poolAt_OK: "swapInv s \<Longrightarrow> poolAt s n = Some p \<Longrightarrow> poolOK (GetTokenPairKey n) p"
  by (auto simp: swapInv_def poolAt_def dest!: map_of_SomeD)

lemma swapInv_bankOK: "swapInv s \<Longrightarrow> bankOK s"
  by (simp add: swapInv_def supplyInv_def)

lemma swapInv_kvOK: "swapInv s \<Longrightarrow> kvOK (swapStore s)"
  by (simp add: swapInv_def)

lemma calc_price:
  assumes "CalculateTokenToBuy p sold d fee = Some buy"
  shows "if d < Denom sold
    then GetInputPrice (Amount sold) (Amount (QuotePooledCoin p)) (Amount (BasePooledCoin p)) fee = Some (Amount buy)
    else GetInputPrice (Amount sold) (Amount (BasePooledCoin p)) (Amount (QuotePooledCoin p)) fee = Some (Amount buy)"
  using assms by (auto simp: CalculateTokenToBuy_def NewDecCoinFromDec_Some mkCoin_def)

lemma price_product:
  assumes "GetInputPrice x i r fee = Some out" "0 \<le> x" "0 < i" "0 \<le> r" "validateParams fee"
  shows "i * r \<le> (i + x) * (r - out)"
proof -
  from GetInputPrice_Some [OF assms] obtain w where "0 \<le> w" "w \<le> 1000 * x"
    and out: "out = w * r div (1000 * i + w)" by blast
  from product_kept(3) [OF assms(2-4) this(1,2)] show ?thesis unfolding out .
qed

text \<open>The price formula never lets the product of the two sides decrease.\<close>

lemma calc_product:
  assumes c: "CalculateTokenToBuy p sold d fee = Some buy" and t: "traded sold buy p p'"
    and p: "\<not> emptyPool p" "poolOK k p" and x: "0 \<le> Amount sold" and fee: "validateParams fee"
  shows "poolProduct p \<le> poolProduct p'"
proof -
  let ?b = "Amount (BasePooledCoin p)" and ?q = "Amount (QuotePooledCoin p)"
  have pos: "0 < ?b" "0 < ?q" and ord: "Denom (BasePooledCoin p) < Denom (QuotePooledCoin p)"
    using p by (auto simp: emptyPool_def coinIsZero_def poolOK_def coinIsValid_def coinIsNegative_def
        split: if_splits)
  from t show ?thesis unfolding traded_def
  proof (elim disjE conjE)
    assume d: "Denom (QuotePooledCoin p) = Denom sold" "Denom (BasePooledCoin p) = Denom buy"
      and p': "p' = p\<lparr>QuotePooledCoin := mkCoin (Denom sold) (?q + Amount sold),
              BasePooledCoin := mkCoin (Denom buy) (?b - Amount buy)\<rparr>"
    have "d < Denom sold" using ord unfolding d calc_denom [OF c] .
    with calc_price [OF c] have "GetInputPrice (Amount sold) ?q ?b fee = Some (Amount buy)" by simp
    note price_product [OF this x pos(2) less_imp_le [OF pos(1)] fee]
    then show ?thesis by (simp add: p' poolProduct_def mkCoin_def mult.commute)
  next
    assume d: "Denom (BasePooledCoin p) = Denom sold" "Denom (QuotePooledCoin p) = Denom buy"
      and p': "p' = p\<lparr>QuotePooledCoin := mkCoin (Denom buy) (?q - Amount buy),
              BasePooledCoin := mkCoin (Denom sold) (?b + Amount sold)\<rparr>"
    have "\<not> d < Denom sold" using ord unfolding d calc_denom [OF c] by (rule order_less_not_sym)
    with calc_price [OF c] have "GetInputPrice (Amount sold) ?b ?q fee = Some (Amount buy)" by simp
    note price_product [OF this x pos(1) less_imp_le [OF pos(2)] fee]
    then show ?thesis by (simp add: p' poolProduct_def mkCoin_def)
  qed
qed

lemma IsValid_single: "IsValid [c] \<longleftrightarrow> ValidateDenom (Denom c) \<and> 0 < Amount c"
  by (auto simp: coinIsPositive_def)

lemma moved_at_target: "a \<noteq> m \<Longrightarrow> moved a m c m d = amt c d"
  by (simp add: moved_def delta_def)

lemma moved_at_source: "positiveCoins c \<Longrightarrow> - amt c d \<le> moved m a c m d"
  using positiveCoins_amt [of c d] by (simp add: moved_def delta_def)

lemma hop_effect:
  assumes h: "hop s s' msg p buy" and inv: "swapInv s" and a: "ttSender msg \<noteq> moduleAddr s swapModule"
  obtains p' where "traded (SoldTokenAmount msg) buy p p'" "swapInv s'" "poolProduct p \<le> poolProduct p'"
    "\<not> blacklistedAddrs s (ttRecipient msg)" "0 < Amount buy" "0 < Amount (SoldTokenAmount msg)"
    "swapLedger s s' (swapMoves s msg buy) (\<lambda>_. 0) (kvSet (ttKey msg) p' (swapStore s))"
proof -
  from h have p: "poolAt s (ttPairName msg) = Some p" "\<not> emptyPool p"
    and c: "CalculateTokenToBuy p (SoldTokenAmount msg) (Denom (MinBoughtTokenAmount msg)) (swapFeeRate s) = Some buy"
    and run: "swapTokenNativeToken p buy msg s = Ret () s'" by (simp_all add: hop_def)
  from nativeSwap_run [OF run swapInv_bankOK [OF inv]] obtain p' where
    t: "traded (SoldTokenAmount msg) buy p p'" and v: "IsValid [SoldTokenAmount msg]" "IsValid [buy]" and
    b: "\<not> blacklistedAddrs s (ttRecipient msg)" and
    l: "swapLedger s s' (swapMoves s msg buy) (\<lambda>_. 0) (kvSet (ttKey msg) p' (swapStore s))" by blast
  note pOK = poolAt_OK [OF inv p(1)]
  have x: "0 \<le> Amount (SoldTokenAmount msg)" using v(1) by (simp add: IsValid_single del: IsValid.simps)
  have fee: "validateParams (swapFeeRate s)" using inv by (simp add: swapInv_def)
  have "pairAmt p' d - pairAmt p d \<le> swapMoves s msg buy (moduleAddr s swapModule) d" for d
    using traded_pairAmt [OF t, of d] moved_at_target [OF a, of "[SoldTokenAmount msg]" d]
      moved_at_source [OF IsValid_positive [OF v(2)], of d "moduleAddr s swapModule" "ttRecipient msg"]
    by (simp add: swapMoves_def)
  from swapInv_step [OF inv l _ traded_poolOK [OF t pOK x] this] p(1) have "swapInv s'"
    by (simp add: poolAt_def)
  with that [OF t _ calc_product [OF c t p(2) pOK x fee] b _ _ l] v show thesis
    by (simp add: IsValid_single del: IsValid.simps)
qed

abbreviation firstHop :: "MsgTokenToToken \<Rightarrow> MsgTokenToToken" where
  "firstHop msg \<equiv> msg\<lparr>MinBoughtTokenAmount := mkCoin DefaultBondDenom 0\<rparr>"

abbreviation secondHop :: "MsgTokenToToken \<Rightarrow> DecCoin \<Rightarrow> MsgTokenToToken" where
  "secondHop msg native \<equiv> msg\<lparr>SoldTokenAmount := native\<rparr>"

lemma traded_denoms:
  "traded a b p p' \<Longrightarrow> {Denom (BasePooledCoin p), Denom (QuotePooledCoin p)} = {Denom a, Denom b}"
  unfolding traded_def by (elim disjE conjE) (simp_all add: insert_commute)

text \<open>
  The second hop of a route reads its pool before the first hop is executed. The two pools are
  different, so what it read is still what the store holds.
\<close>

lemma router_hops:
  assumes run: "swapTokenByRouter msg s = Ret r s'" and inv: "swapInv s"
    and a: "ttSender msg \<noteq> moduleAddr s swapModule"
    and d: "Denom (SoldTokenAmount msg) \<noteq> Denom (MinBoughtTokenAmount msg)"
  obtains p1 p2 native buy s1 where "hop s s1 (firstHop msg) p1 native" "hop s1 s' (secondHop msg native) p2 buy"
    "poolAt s (ttPairName (secondHop msg native)) = Some p2" "Denom native = DefaultBondDenom"
    "Amount (MinBoughtTokenAmount msg) \<le> Amount buy"
proof -
  from router_run [OF run] obtain p1 p2 native buy s1 where h: "hop s s1 (firstHop msg) p1 native" and
    p2: "poolAt s (GetSwapTokenPairName (Denom (MinBoughtTokenAmount msg)) DefaultBondDenom) = Some p2"
      "\<not> emptyPool p2" and min: "Amount (MinBoughtTokenAmount msg) \<le> Amount buy" and
    c2: "CalculateTokenToBuy p2 native (Denom (MinBoughtTokenAmount msg)) (swapFeeRate s) = Some buy" and
    run2: "swapTokenNativeToken p2 buy (secondHop msg native) s1 = Ret r s'" by blast
  have n: "Denom native = DefaultBondDenom"
    using h calc_denom [of p1 "SoldTokenAmount msg" "Denom (mkCoin DefaultBondDenom 0)"]
    by (auto simp: hop_def mkCoin_def)
  from hop_effect [OF h inv] a obtain p1' where t1: "traded (SoldTokenAmount msg) native p1 p1'"
    and l: "swapLedger s s1 (swapMoves s (firstHop msg) native) (\<lambda>_. 0)
        (kvSet (ttKey (firstHop msg)) p1' (swapStore s))" and inv1: "swapInv s1" by auto
  from nativeSwap_run [OF run2 swapInv_bankOK [OF inv1]] obtain p2' where t2: "traded native buy p2 p2'"
    by auto
  have name: "ttPairName (secondHop msg native) = GetSwapTokenPairName (Denom (MinBoughtTokenAmount msg)) DefaultBondDenom"
    by (simp add: ttPairName_def n)
  have "ttPairName (firstHop msg) \<noteq> ttPairName (secondHop msg native)"
  proof
    assume "ttPairName (firstHop msg) = ttPairName (secondHop msg native)"
    with h p2(1) name have "p1 = p2" by (simp add: hop_def)
    with traded_denoms [OF t1] traded_denoms [OF t2]
    have "{Denom (SoldTokenAmount msg), Denom native} = {Denom native, Denom buy}" by simp
    with d calc_denom [OF c2] show False by (auto simp: doubleton_eq_iff)
  qed
  then have "poolAt s1 (ttPairName (secondHop msg native)) = Some p2"
    using poolAt_set [OF swapInv_kvOK [OF inv] swapLedger_simps(4) [OF l]] p2(1) name by simp
  with that [OF h _ _ n min] c2 p2 run2 name swapLedger_simps(6) [OF l] show thesis
    by (simp add: hop_def)
qed

lemma TokenToToken_cases:
  "handleMsgTokenToToken msg s = Ret r s' \<Longrightarrow>
   (poolAt s (ttPairName msg) \<noteq> None \<and> swapToken msg s = Ret r s') \<or>
   (poolAt s (ttPairName msg) = None \<and> swapTokenByRouter msg s = Ret r s')"
  by (auto simp: handleMsgTokenToToken_def run_simps)

text \<open>A relation kept by every hop is kept by the handler.\<close>

lemma TokenToToken_induct:
  assumes run: "handleMsgTokenToToken msg s = Ret r s'" and inv: "swapInv s"
    and a: "ttSender msg \<noteq> moduleAddr s swapModule"
    and d: "Denom (SoldTokenAmount msg) \<noteq> Denom (MinBoughtTokenAmount msg)"
    and step: "\<And>s s' m p buy. hop s s' m p buy \<Longrightarrow> swapInv s \<Longrightarrow> ttSender m \<noteq> moduleAddr s swapModule \<Longrightarrow>
      ttSender m = ttSender msg \<Longrightarrow> ttRecipient m = ttRecipient msg \<Longrightarrow> R s s'"
    and trans: "\<And>s1. R s s1 \<Longrightarrow> R s1 s' \<Longrightarrow> R s s'"
  shows "R s s'"
  using TokenToToken_cases [OF run]
proof (elim disjE conjE)
  assume "swapToken msg s = Ret r s'"
  then show ?thesis using swapToken_run step [OF _ inv a] by blast
next
  assume "swapTokenByRouter msg s = Ret r s'"
  then obtain p1 p2 native buy s1 where h1: "hop s s1 (firstHop msg) p1 native"
    and h2: "hop s1 s' (secondHop msg native) p2 buy" by (rule router_hops [OF _ inv a d])
  from hop_effect [OF h1 inv] a obtain p' where i: "swapInv s1" and
    l: "swapLedger s s1 (swapMoves s (firstHop msg) native) (\<lambda>_. 0) (kvSet (ttKey (firstHop msg)) p' (swapStore s))"
    by auto
  have "R s s1" by (rule step [OF h1 inv]) (use a in simp_all)
  moreover have "R s1 s'" by (rule step [OF h2 i]) (use a in \<open>simp_all add: swapLedger_simps(5) [OF l]\<close>)
  ultimately show ?thesis by (rule trans)
qed

lemma hop_products:
  assumes "hop s s' msg p buy" "swapInv s" "ttSender msg \<noteq> moduleAddr s swapModule" "poolAt s n = Some q"
  shows "\<exists>q'. poolAt s' n = Some q' \<and> poolProduct q \<le> poolProduct q'"
proof -
  from hop_effect [OF assms(1-3)] obtain p' where "poolProduct p \<le> poolProduct p'" and
    l: "swapLedger s s' (swapMoves s msg buy) (\<lambda>_. 0) (kvSet (ttKey msg) p' (swapStore s))" by blast
  with poolAt_set [OF swapInv_kvOK [OF assms(2)] swapLedger_simps(4) [OF l], of n] assms(1,4)
  show ?thesis by (auto simp: hop_def)
qed

subsection \<open>Liquidity\<close>

lemma amt_coinSort: "\<forall>c\<in>set cs. 0 \<le> Amount c \<Longrightarrow> amt (coinSort cs) d = amt cs d"
proof -
  assume "\<forall>c\<in>set cs. 0 \<le> Amount c"
  then have "amt (filter (\<lambda>c. 0 < Amount c) cs) d = amt cs d" by (induction cs) auto
  then show ?thesis by (simp add: coinSort_def)
qed

lemma supplyOf_nonneg: "swapInv s \<Longrightarrow> 0 \<le> supplyOf s d"
  by (simp add: swapInv_def supplyInv_def totalOf_def sum_nonneg balance_nonneg)

lemma poolOK_nonneg: "poolOK k p \<Longrightarrow> 0 \<le> Amount (BasePooledCoin p) \<and> 0 \<le> Amount (QuotePooledCoin p)"
  by (auto simp: poolOK_def coinIsValid_def coinIsNegative_def split: if_splits)

text \<open>What a deposit of \<open>quote\<close> into the pool \<open>p\<close> costs in base tokens and earns in pool tokens.\<close>

definition depositTerms :: "SwapTokenPair \<Rightarrow> Dec \<Rightarrow> Dec \<Rightarrow> Dec \<Rightarrow> Dec \<Rightarrow> Dec \<Rightarrow> bool" where
  "depositTerms p supply maxBase quote b l \<longleftrightarrow>
     (let B = Amount (BasePooledCoin p); Q = Amount (QuotePooledCoin p) in
      (B = 0 \<and> Q = 0 \<and> b = maxBase \<and> l = NewDec 1) \<or>
      (0 < B \<and> 0 < Q \<and> 0 < supply \<and> 0 < l \<and> l = quote * supply div Q \<and>
       b = (if quote * B div Q = 0 then 1 else quote * B div Q)))"

lemma addAmounts_Ret:
  assumes "addLiquidityAmounts msg p s = Ret (b, l) s'" "poolOK k p" "swapInv s" "0 < Amount (QuoteAmount msg)"
  shows "s' = s \<and>
    depositTerms p (supplyOf s (PoolTokenName p)) (Amount (MaxBaseAmount msg)) (Amount (QuoteAmount msg)) b l"
proof (cases "Amount (QuotePooledCoin p) = 0 \<and> Amount (BasePooledCoin p) = 0")
  case True
  with assms(1) show ?thesis by (auto simp: addLiquidityAmounts_def depositTerms_def Let_def run_simps)
next
  case False
  have one: "NewDecWithPrec 1 (int Precision) = Some 1"
    by (simp add: NewDecWithPrec_def precisionMultiplier_def)
  from assms(1) False obtain b0 where pos: "0 < Amount (BasePooledCoin p)" "0 < Amount (QuotePooledCoin p)"
    and b0: "MulAndQuo (Amount (QuoteAmount msg)) (Amount (BasePooledCoin p)) (Amount (QuotePooledCoin p)) = Some b0"
    and b: "b = (if b0 = 0 then 1 else b0)" and s: "s' = s" "supplyOf s (PoolTokenName p) \<noteq> 0" "l \<noteq> 0"
    and l: "MulAndQuo (Amount (QuoteAmount msg)) (supplyOf s (PoolTokenName p)) (Amount (QuotePooledCoin p)) = Some l"
    by (auto simp: addLiquidityAmounts_def Let_def GetPoolTokenAmount_def GetSupplyByDenom_def coinIsPositive_def
        one run_simps split: if_splits)
  note S = supplyOf_nonneg [OF assms(3), of "PoolTokenName p"]
  note l0 = MulAndQuo_nonneg [OF l less_imp_le [OF assms(4)] S less_imp_le [OF pos(2)]]
  show ?thesis
    using b0 l pos assms(4) S l0 s b
    by (simp add: MulAndQuo_Some depositTerms_def Let_def)
qed

lemma mintToUser_ledger:
  assumes "MintPoolCoinsToUser c a s = Ret r s'" "bankOK s"
  shows "ledger s s' (delta a c) (amt c)"
proof -
  from assms(1) obtain r1 s1 where "MintCoins swapModule c s = Ret r1 s1"
    "SendCoinsFromModuleToAccount swapModule a c s1 = Ret r s'"
    by (auto simp: MintPoolCoinsToUser_def run_simps)
  from mint_send_ledger [OF this assms(2)] show ?thesis .
qed

lemma burnFromUser_ledger:
  assumes "BurnPoolCoinsFromUser c a s = Ret r s'" "bankOK s"
  shows "ledger s s' (\<lambda>x d. - delta a c x d) (\<lambda>d. - amt c d)"
proof -
  from assms(1) obtain r1 s1 where "SendCoinsFromAccountToModule a swapModule c s = Ret r1 s1"
    "BurnCoins swapModule c s1 = Ret r s'"
    by (auto simp: BurnPoolCoinsFromUser_def run_simps)
  from send_burn_ledger [OF this assms(2)] show ?thesis .
qed

text \<open>Coins move, the pool is written, and pool tokens are minted or burned.\<close>

lemma liquidity_ledger:
  assumes l1: "ledger s s1 f g" and s2: "s2 = s1\<lparr>swapStore := kvSet k p' (swapStore s1)\<rparr>"
    and l2: "ledger s2 s' f' g'"
  shows "swapLedger s s' (\<lambda>a d. f a d + f' a d) (\<lambda>d. g d + g' d) (kvSet k p' (swapStore s))"
proof -
  note w1 = swapLedger_ledger [OF l1]
  note w2 = swapLedger_set [OF w1, of "kvSet k p' (swapStore s1)"]
  have st: "swapStore s1 = swapStore s" by (rule swapLedger_simps(4) [OF w1])
  from swapLedger_trans [OF w2 [folded s2] swapLedger_ledger [OF l2]]
  show ?thesis by (simp add: s2 st)
qed

abbreviation poolSymbol :: "'x swap_state_scheme \<Rightarrow> SwapTokenPair \<Rightarrow> string" where
  "poolSymbol s p \<equiv> tkSymbol (case tokenStore s (PoolTokenName p) of None \<Rightarrow> emptyToken | Some t \<Rightarrow> t)"

definition deposited :: "SwapTokenPair \<Rightarrow> Dec \<Rightarrow> Dec \<Rightarrow> SwapTokenPair" where
  "deposited p b q = p\<lparr>
     QuotePooledCoin := mkCoin (Denom (QuotePooledCoin p)) (Amount (QuotePooledCoin p) + q),
     BasePooledCoin := mkCoin (Denom (BasePooledCoin p)) (Amount (BasePooledCoin p) + b)\<rparr>"

lemma GetPoolTokenInfo_Ret [run_simps]:
  "GetPoolTokenInfo n s = Ret t s' \<longleftrightarrow>
   s' = s \<and> t = (case tokenStore s n of None \<Rightarrow> emptyToken | Some t \<Rightarrow> t) \<and> tkOwner t \<noteq> []"
  by (auto simp: GetPoolTokenInfo_def GetTokenInfo_def run_simps)

lemma addAmounts_state: "addLiquidityAmounts msg p s = Ret x s' \<Longrightarrow> s' = s"
  by (auto simp: addLiquidityAmounts_def Let_def GetPoolTokenAmount_def GetSupplyByDenom_def run_simps
      split: if_splits)

lemma AddLiquidity_steps:
  assumes "handleMsgAddLiquidity msg s = Ret r s'"
  shows "\<exists>p b l r1 s1. poolAt s (alPairName msg) = Some p \<and> addLiquidityAmounts msg p s = Ret (b, l) s \<and>
    Denom (QuotePooledCoin p) = Denom (QuoteAmount msg) \<and> Denom (BasePooledCoin p) = Denom (MaxBaseAmount msg) \<and>
    b \<le> Amount (MaxBaseAmount msg) \<and> MinLiquidity msg \<le> l \<and>
    SendCoinsFromAccountToModule (alSender msg) swapModule
      (coinSort [QuoteAmount msg, mkCoin (Denom (MaxBaseAmount msg)) b]) s = Ret r1 s1 \<and>
    MintPoolCoinsToUser [mkCoin (poolSymbol s p) l] (alSender msg)
      (s1\<lparr>swapStore := kvSet (GetTokenPairKey (alPairName msg)) (deposited p b (Amount (QuoteAmount msg)))
        (swapStore s1)\<rparr>) = Ret r s'"
proof -
  from assms obtain p b0 b l s0 r1 s1 q' b' c where
    p: "poolAt s (alPairName msg) = Some p" and b0: "NewDecCoinFromDec (Denom (MaxBaseAmount msg)) ZeroDec = Some b0" and
    a: "addLiquidityAmounts msg p s = Ret (b, l) s0" and
    le: "b \<le> Amount (MaxBaseAmount msg)" "MinLiquidity msg \<le> l" and
    send: "SendCoinsFromAccountToModule (alSender msg) swapModule (coinSort [QuoteAmount msg, b0\<lparr>Amount := b\<rparr>]) s0
      = Ret r1 s1" and
    add: "coinAdd (QuotePooledCoin p) (QuoteAmount msg) = Some q'" "coinAdd (BasePooledCoin p) (b0\<lparr>Amount := b\<rparr>) = Some b'" and
    c: "NewDecCoinFromDec (poolSymbol s p) l = Some c" and
    mint: "MintPoolCoinsToUser [c] (alSender msg)
      (s1\<lparr>swapStore := kvSet (GetTokenPairKey (alPairName msg)) (p\<lparr>QuotePooledCoin := q', BasePooledCoin := b'\<rparr>)
        (swapStore s1)\<rparr>) = Ret r s'"
    unfolding handleMsgAddLiquidity_def
    by (auto simp: blockUnix_def SendCoinsToPool_def SetSwapTokenPair_def Let_def not_less run_simps)
  have [simp]: "s0 = s" by (rule addAmounts_state [OF a])
  have b0': "b0\<lparr>Amount := b\<rparr> = mkCoin (Denom (MaxBaseAmount msg)) b"
    using b0 by (simp add: NewDecCoinFromDec_Some mkCoin_def)
  have "p\<lparr>QuotePooledCoin := q', BasePooledCoin := b'\<rparr> = deposited p b (Amount (QuoteAmount msg))"
    "Denom (QuotePooledCoin p) = Denom (QuoteAmount msg)" "Denom (BasePooledCoin p) = Denom (MaxBaseAmount msg)"
    using add b0' by (simp_all add: coinAdd_Some deposited_def mkCoin_def)
  moreover have "c = mkCoin (poolSymbol s p) l" using c by (simp add: NewDecCoinFromDec_Some)
  ultimately show ?thesis using p a le send mint b0' by auto
qed

lemma AddLiquidity_valid:
  "MsgAddLiquidityValidateBasic msg s = Ret r s' \<Longrightarrow>
   s' = s \<and> 0 < Amount (MaxBaseAmount msg) \<and> 0 < Amount (QuoteAmount msg)"
  by (auto simp: MsgAddLiquidityValidateBasic_def coinIsPositive_def run_simps)

lemma depositTerms_pos:
  "depositTerms p S m q b l \<Longrightarrow> 0 < m \<Longrightarrow> 0 < q \<Longrightarrow> 0 < b \<and> 0 < l"
  using pos_imp_zdiv_nonneg_iff [of "Amount (QuotePooledCoin p)" "q * Amount (BasePooledCoin p)"]
  by (auto simp: depositTerms_def Let_def NewDec_def order_less_le split: if_splits)

definition addMoves :: "'x swap_state_scheme \<Rightarrow> MsgAddLiquidity \<Rightarrow> SwapTokenPair \<Rightarrow> Dec \<Rightarrow> Dec \<Rightarrow>
    AccAddress \<Rightarrow> string \<Rightarrow> Dec" where
  "addMoves s msg p b l a d =
     moved (alSender msg) (moduleAddr s swapModule) (coinSort [QuoteAmount msg, mkCoin (Denom (MaxBaseAmount msg)) b]) a d +
     delta (alSender msg) [mkCoin (poolSymbol s p) l] a d"

lemma deposited_pairAmt:
  "pairAmt (deposited p b q) d =
   pairAmt p d + amt [mkCoin (Denom (QuotePooledCoin p)) q, mkCoin (Denom (BasePooledCoin p)) b] d"
  by (simp add: pairAmt_def deposited_def mkCoin_def)

lemma deposited_poolOK: "poolOK k p \<Longrightarrow> 0 \<le> b \<Longrightarrow> 0 \<le> q \<Longrightarrow> poolOK k (deposited p b q)"
  by (auto simp: poolOK_def deposited_def TokenPairName_def coinIsValid_def coinIsNegative_def mkCoin_def
      split: if_splits)

lemma AddLiquidity_effect:
  assumes run: "handleMsgAddLiquidity msg s = Ret r s'" and v: "MsgAddLiquidityValidateBasic msg s = Ret () s"
    and inv: "swapInv s" and a: "alSender msg \<noteq> moduleAddr s swapModule"
  obtains p b l where "poolAt s (alPairName msg) = Some p"
    "depositTerms p (supplyOf s (PoolTokenName p)) (Amount (MaxBaseAmount msg)) (Amount (QuoteAmount msg)) b l"
    "Denom (QuotePooledCoin p) = Denom (QuoteAmount msg)" "Denom (BasePooledCoin p) = Denom (MaxBaseAmount msg)"
    "swapLedger s s' (addMoves s msg p b l) (amt [mkCoin (poolSymbol s p) l])
       (kvSet (GetTokenPairKey (alPairName msg)) (deposited p b (Amount (QuoteAmount msg))) (swapStore s))"
    "swapInv s'"
proof -
  let ?M = "moduleAddr s swapModule" and ?k = "GetTokenPairKey (alPairName msg)"
  let ?q = "Amount (QuoteAmount msg)"
  from AddLiquidity_steps [OF run] obtain p b l r1 s1 where p: "poolAt s (alPairName msg) = Some p"
    and t: "addLiquidityAmounts msg p s = Ret (b, l) s"
    and d: "Denom (QuotePooledCoin p) = Denom (QuoteAmount msg)" "Denom (BasePooledCoin p) = Denom (MaxBaseAmount msg)"
    and send: "SendCoinsFromAccountToModule (alSender msg) swapModule
      (coinSort [QuoteAmount msg, mkCoin (Denom (MaxBaseAmount msg)) b]) s = Ret r1 s1"
    and mint: "MintPoolCoinsToUser [mkCoin (poolSymbol s p) l] (alSender msg)
      (s1\<lparr>swapStore := kvSet ?k (deposited p b ?q) (swapStore s1)\<rparr>) = Ret r s'" by blast
  have pos: "0 < Amount (MaxBaseAmount msg)" "0 < ?q" using AddLiquidity_valid [OF v] by auto
  note ok = poolAt_OK [OF inv p] and bank = swapInv_bankOK [OF inv]
  from addAmounts_Ret [OF t ok inv pos(2)]
  have terms: "depositTerms p (supplyOf s (PoolTokenName p)) (Amount (MaxBaseAmount msg)) ?q b l" ..
  have b: "0 < b" using depositTerms_pos [OF terms pos] by simp
  note l1 = module_ledger(1) [OF bank send bank]
  have bank1: "bankOK (s1\<lparr>swapStore := kvSet ?k (deposited p b ?q) (swapStore s1)\<rparr>)"
    using ledger_bankOK [OF l1] by simp
  note l = liquidity_ledger [OF l1 refl mintToUser_ledger [OF mint bank1]]
  have l': "swapLedger s s' (addMoves s msg p b l) (amt [mkCoin (poolSymbol s p) l])
       (kvSet ?k (deposited p b ?q) (swapStore s))"
    by (rule swapLedger_cong [OF l]) (simp_all add: addMoves_def)
  have "pairAmt (deposited p b ?q) e - pairAmt p e \<le> addMoves s msg p b l ?M e" for e
    using a pos b d by (simp add: deposited_pairAmt addMoves_def moved_at_target [OF a] amt_coinSort delta_def mkCoin_def)
  from swapInv_step [OF inv l' _ deposited_poolOK [OF ok] this] p b pos have "swapInv s'"
    by (simp add: poolAt_def)
  with that [OF p terms d l'] show thesis .
qed

lemma RemoveLiquidity_steps:
  assumes "handleMsgRemoveLiquidity msg s = Ret r s'"
  shows "\<exists>p b q r1 s1. poolAt s (rlPairName msg) = Some p \<and> Liquidity msg \<le> supplyOf s (PoolTokenName p) \<and>
    MulAndQuo (Amount (BasePooledCoin p)) (Liquidity msg) (supplyOf s (PoolTokenName p)) = Some b \<and>
    MulAndQuo (Amount (QuotePooledCoin p)) (Liquidity msg) (supplyOf s (PoolTokenName p)) = Some q \<and>
    Amount (MinBaseAmount msg) \<le> b \<and> Amount (MinQuoteAmount msg) \<le> q \<and>
    0 \<le> b \<and> b \<le> Amount (BasePooledCoin p) \<and> 0 \<le> q \<and> q \<le> Amount (QuotePooledCoin p) \<and>
    SendCoinsFromModuleToAccount swapModule (rlSender msg)
      (coinSort [mkCoin (Denom (BasePooledCoin p)) b, mkCoin (Denom (QuotePooledCoin p)) q]) s = Ret r1 s1 \<and>
    BurnPoolCoinsFromUser [mkCoin (PoolTokenName p) (Liquidity msg)] (rlSender msg)
      (s1\<lparr>swapStore := kvSet (GetTokenPairKey (rlPairName msg)) (deposited p (- b) (- q)) (swapStore s1)\<rparr>)
      = Ret r s'"
proof -
  from assms obtain p cb cq r1 s1 q' b' c where
    p: "poolAt s (rlPairName msg) = Some p" and S: "Liquidity msg \<le> supplyOf s (PoolTokenName p)" and
    red: "redeemAmounts p (Liquidity msg) (supplyOf s (PoolTokenName p)) = Some (cb, cq)" and
    lt: "coinIsLT cb (MinBaseAmount msg) = Some False" "coinIsLT cq (MinQuoteAmount msg) = Some False" and
    send: "SendCoinsFromModuleToAccount swapModule (rlSender msg) (coinSort [cb, cq]) s = Ret r1 s1" and
    sub: "coinSub (QuotePooledCoin p) cq = Some q'" "coinSub (BasePooledCoin p) cb = Some b'" and
    c: "NewDecCoinFromDec (PoolTokenName p) (Liquidity msg) = Some c" and
    burn: "BurnPoolCoinsFromUser [c] (rlSender msg)
      (s1\<lparr>swapStore := kvSet (GetTokenPairKey (rlPairName msg)) (p\<lparr>QuotePooledCoin := q', BasePooledCoin := b'\<rparr>)
        (swapStore s1)\<rparr>) = Ret r s'"
    unfolding handleMsgRemoveLiquidity_def
    by (auto simp: blockUnix_def SendCoinsFromPoolToAccount_def SetSwapTokenPair_def GetPoolTokenAmount_def
        GetSupplyByDenom_def not_less run_simps)
  from red obtain b q where m:
    "MulAndQuo (Amount (BasePooledCoin p)) (Liquidity msg) (supplyOf s (PoolTokenName p)) = Some b"
    "MulAndQuo (Amount (QuotePooledCoin p)) (Liquidity msg) (supplyOf s (PoolTokenName p)) = Some q"
    "0 \<le> b" "0 \<le> q" "cb = mkCoin (Denom (BasePooledCoin p)) b" "cq = mkCoin (Denom (QuotePooledCoin p)) q"
    by (auto simp: redeemAmounts_def NewDecCoinFromDec_Some)
  have le: "b \<le> Amount (BasePooledCoin p)" "q \<le> Amount (QuotePooledCoin p)"
    using sub by (simp_all add: coinSub_Some m mkCoin_def)
  have "p\<lparr>QuotePooledCoin := q', BasePooledCoin := b'\<rparr> = deposited p (- b) (- q)"
    using sub by (simp add: coinSub_Some deposited_def m mkCoin_def)
  moreover have "Amount (MinBaseAmount msg) \<le> b" "Amount (MinQuoteAmount msg) \<le> q"
    using lt by (simp_all add: coinIsLT_def m mkCoin_def split: if_splits)
  moreover have "c = mkCoin (PoolTokenName p) (Liquidity msg)" using c by (simp add: NewDecCoinFromDec_Some)
  ultimately show ?thesis using p S m le send burn by auto
qed

definition removeMoves :: "'x swap_state_scheme \<Rightarrow> MsgRemoveLiquidity \<Rightarrow> SwapTokenPair \<Rightarrow> Dec \<Rightarrow> Dec \<Rightarrow>
    AccAddress \<Rightarrow> string \<Rightarrow> Dec" where
  "removeMoves s msg p b q a d =
     moved (moduleAddr s swapModule) (rlSender msg)
       (coinSort [mkCoin (Denom (BasePooledCoin p)) b, mkCoin (Denom (QuotePooledCoin p)) q]) a d -
     delta (rlSender msg) [mkCoin (PoolTokenName p) (Liquidity msg)] a d"

lemma withdrawn_poolOK:
  "poolOK k p \<Longrightarrow> b \<le> Amount (BasePooledCoin p) \<Longrightarrow> q \<le> Amount (QuotePooledCoin p) \<Longrightarrow>
   poolOK k (deposited p (- b) (- q))"
  by (auto simp: poolOK_def deposited_def TokenPairName_def coinIsValid_def coinIsNegative_def mkCoin_def
      split: if_splits)

lemma RemoveLiquidity_effect:
  assumes run: "handleMsgRemoveLiquidity msg s = Ret r s'" and liq: "0 < Liquidity msg"
    and inv: "swapInv s" and a: "rlSender msg \<noteq> moduleAddr s swapModule"
  obtains p b q where "poolAt s (rlPairName msg) = Some p" "Liquidity msg \<le> supplyOf s (PoolTokenName p)"
    "b = Amount (BasePooledCoin p) * Liquidity msg div supplyOf s (PoolTokenName p)" "0 \<le> b"
    "q = Amount (QuotePooledCoin p) * Liquidity msg div supplyOf s (PoolTokenName p)" "0 \<le> q"
    "\<not> blacklistedAddrs s (rlSender msg)"
    "swapLedger s s' (removeMoves s msg p b q) (\<lambda>d. - amt [mkCoin (PoolTokenName p) (Liquidity msg)] d)
       (kvSet (GetTokenPairKey (rlPairName msg)) (deposited p (- b) (- q)) (swapStore s))"
    "swapInv s'"
proof -
  let ?M = "moduleAddr s swapModule" and ?k = "GetTokenPairKey (rlPairName msg)"
  let ?coins = "\<lambda>p b q. coinSort [mkCoin (Denom (BasePooledCoin p)) b, mkCoin (Denom (QuotePooledCoin p)) q]"
  from RemoveLiquidity_steps [OF run] obtain p b q r1 s1 where p: "poolAt s (rlPairName msg) = Some p"
    and S: "Liquidity msg \<le> supplyOf s (PoolTokenName p)"
    and m: "MulAndQuo (Amount (BasePooledCoin p)) (Liquidity msg) (supplyOf s (PoolTokenName p)) = Some b"
      "MulAndQuo (Amount (QuotePooledCoin p)) (Liquidity msg) (supplyOf s (PoolTokenName p)) = Some q"
    and bnd: "0 \<le> b" "b \<le> Amount (BasePooledCoin p)" "0 \<le> q" "q \<le> Amount (QuotePooledCoin p)"
    and send: "SendCoinsFromModuleToAccount swapModule (rlSender msg) (?coins p b q) s = Ret r1 s1"
    and burn: "BurnPoolCoinsFromUser [mkCoin (PoolTokenName p) (Liquidity msg)] (rlSender msg)
      (s1\<lparr>swapStore := kvSet ?k (deposited p (- b) (- q)) (swapStore s1)\<rparr>) = Ret r s'" by blast
  note ok = poolAt_OK [OF inv p] and bank = swapInv_bankOK [OF inv]
  have eq: "b = Amount (BasePooledCoin p) * Liquidity msg div supplyOf s (PoolTokenName p)"
    "q = Amount (QuotePooledCoin p) * Liquidity msg div supplyOf s (PoolTokenName p)"
    using m poolOK_nonneg [OF ok] S liq by (auto simp: MulAndQuo_Some)
  note l1 = module_ledger(2) [OF bank send bank]
  have bank1: "bankOK (s1\<lparr>swapStore := kvSet ?k (deposited p (- b) (- q)) (swapStore s1)\<rparr>)"
    using ledger_bankOK [OF l1] by simp
  note l = liquidity_ledger [OF l1 refl burnFromUser_ledger [OF burn bank1]]
  have l': "swapLedger s s' (removeMoves s msg p b q) (\<lambda>d. - amt [mkCoin (PoolTokenName p) (Liquidity msg)] d)
       (kvSet ?k (deposited p (- b) (- q)) (swapStore s))"
    by (rule swapLedger_cong [OF l]) (simp_all add: removeMoves_def)
  have "moved ?M (rlSender msg) c ?M e = - amt c e" for c e using a by (simp add: moved_def delta_def)
  then have "pairAmt (deposited p (- b) (- q)) e - pairAmt p e \<le> removeMoves s msg p b q ?M e" for e
    using a bnd by (simp add: deposited_pairAmt removeMoves_def amt_coinSort delta_def mkCoin_def)
  from swapInv_step [OF inv l' _ withdrawn_poolOK [OF ok bnd(2,4)] this] p have "swapInv s'"
    by (simp add: poolAt_def)
  with that [OF p S eq(1) bnd(1) eq(2) bnd(3) SendFromModule_open [OF send] l'] show thesis .
qed

lemma RemoveLiquidity_valid:
  "MsgRemoveLiquidityValidateBasic msg s = Ret r s' \<Longrightarrow> s' = s \<and> 0 < Liquidity msg"
  by (auto simp: MsgRemoveLiquidityValidateBasic_def run_simps)

lemma CreateExchange_valid:
  "MsgCreateExchangeValidateBasic msg s = Ret r s' \<Longrightarrow> s' = s \<and> Token0Name msg \<noteq> Token1Name msg"
  by (auto simp: MsgCreateExchangeValidateBasic_def run_simps)

lemma IsTokenExist_Ret: "IsTokenExist t s = Ret r s' \<Longrightarrow> s' = s"
  by (auto simp: IsTokenExist_def TokenExist_def GetTokenInfo_def run_simps)

lemma GetPoolTokenInfo_Err [run_simps]:
  "GetPoolTokenInfo n s = Err e s' \<longleftrightarrow>
   s' = s \<and> e = ErrNonExistPoolToken \<and> tkOwner (case tokenStore s n of None \<Rightarrow> emptyToken | Some t \<Rightarrow> t) = []"
  by (auto simp: GetPoolTokenInfo_def GetTokenInfo_def bindM_def seqM_def getM_def failIf_def failM_def returnM_def)

lemma NewSwapPair_OK:
  assumes "NewSwapPair a b = Some p" "a \<noteq> b"
  shows "poolOK (GetTokenPairKey (GetSwapTokenPairName a b)) p \<and> pairAmt p d = 0"
  using assms
  by (cases "a < b") (auto simp: NewSwapPair_def GetBaseQuoteTokenName_def GetSwapTokenPairName_def GetPoolTokenName_def
      poolOK_def pairAmt_def TokenPairName_def NewDecCoinFromDec_Some mkCoin_def coinIsValid_def coinIsNegative_def Let_def)

lemma CreateExchange_steps:
  assumes "handleMsgCreateExchange msg s = Ret r s'"
  shows "\<exists>p T U N. poolAt s (cePairName msg) = None \<and> NewSwapPair (Token0Name msg) (Token1Name msg) = Some p \<and>
    s' = s\<lparr>tokenStore := T, userTokens := U, tokenNumber := N,
           swapStore := kvSet (GetTokenPairKey (cePairName msg)) p (swapStore s)\<rparr>"
  using assms unfolding handleMsgCreateExchange_def
  by (auto simp: Let_def NewPoolToken_def NewToken_def SetSwapTokenPair_def run_simps dest!: IsTokenExist_Ret)

lemma CreateExchange_inv:
  assumes run: "handleMsgCreateExchange msg s = Ret r s'" and d: "Token0Name msg \<noteq> Token1Name msg" and inv: "swapInv s"
  shows "swapInv s'"
proof -
  let ?k = "GetTokenPairKey (cePairName msg)"
  from CreateExchange_steps [OF run] obtain p T U N where n: "poolAt s (cePairName msg) = None"
    and p: "NewSwapPair (Token0Name msg) (Token1Name msg) = Some p"
    and s': "s' = s\<lparr>tokenStore := T, userTokens := U, tokenNumber := N, swapStore := kvSet ?k p (swapStore s)\<rparr>" by blast
  have ok: "poolOK ?k p" and z: "\<And>d. pairAmt p d = 0" using NewSwapPair_OK [OF p d] by (simp_all add: cePairName_def)
  have all: "\<forall>(k, p)\<in>set (swapStore s). poolOK k p" using inv by (simp add: swapInv_def)
  have "sumPairs (kvSet ?k p (swapStore s)) d = sumPairs (swapStore s) d" for d
    using sumPairs_kvSet [OF swapInv_kvOK [OF inv]] n z by (simp add: poolAt_def)
  with kvSet_all [OF all ok] inv show ?thesis by (simp add: swapInv_def s')
qed

subsection \<open>The chain of swap messages\<close>

text \<open>A message is checked without state, then handled.\<close>

fun swapValidateBasic :: "SwapMsg \<Rightarrow> ('s, unit) action" where
  "swapValidateBasic (AddLiquidityMsg msg) = MsgAddLiquidityValidateBasic msg"
| "swapValidateBasic (RemoveLiquidityMsg msg) = MsgRemoveLiquidityValidateBasic msg"
| "swapValidateBasic (CreateExchangeMsg msg) = MsgCreateExchangeValidateBasic msg"
| "swapValidateBasic (TokenToTokenMsg msg) = MsgTokenToTokenValidateBasic msg"
| "swapValidateBasic OtherSwapMsg = returnM ()"

definition runSwap :: "SwapMsg \<Rightarrow> ('x swap_state_scheme, unit) action" where
  "runSwap msg = seqM (swapValidateBasic msg) (swapHandler msg)"

fun swapSigner :: "SwapMsg \<Rightarrow> AccAddress" where
  "swapSigner (AddLiquidityMsg msg) = alSender msg"
| "swapSigner (RemoveLiquidityMsg msg) = rlSender msg"
| "swapSigner (CreateExchangeMsg msg) = ceSender msg"
| "swapSigner (TokenToTokenMsg msg) = ttSender msg"
| "swapSigner OtherSwapMsg = []"

text \<open>Module accounts have no key: nobody signs for them.\<close>

definition userSigned :: "'x swap_state_scheme \<Rightarrow> SwapMsg \<Rightarrow> bool" where
  "userSigned s msg \<longleftrightarrow> swapSigner msg \<noteq> moduleAddr s swapModule \<and> swapSigner msg \<noteq> moduleAddr s tokenModule"

text \<open>The token module's invariant, and that the two modules have different accounts.\<close>

definition tokenSide :: "'x swap_state_scheme \<Rightarrow> bool" where
  "tokenSide s \<longleftrightarrow> tokenInv s \<and> tokenEnv s \<and> moduleAddr s swapModule \<noteq> moduleAddr s tokenModule"

lemma tokenSide_ledger:
  assumes "swapLedger s s' f g st" "tokenSide s" "\<And>d. f (moduleAddr s tokenModule) d = 0"
  shows "tokenSide s'"
proof -
  from assms(1) obtain A B where s': "s' = s\<lparr>accounts := A, supplyStore := B, swapStore := st\<rparr>"
    by (rule swapLedger_frame)
  have m: "moduleAddr s' md = moduleAddr s md" for md by (simp add: s' moduleAddr_def)
  have e: "blacklistedAddrs s' = blacklistedAddrs s" "feeCollectorName s' = feeCollectorName s" by (simp_all add: s')
  from assms(2) have "heldLocked s (\<lambda>_. 0)" by (simp add: tokenSide_def tokenInv_def)
  from swapLedger_heldLocked [OF assms(1) this] assms(2,3) show ?thesis
    by (simp add: tokenSide_def tokenInv_def tokenEnv_def m e)
qed

lemma hop_tokenSide:
  assumes h: "hop s s' m p buy" and inv: "swapInv s" and a: "ttSender m \<noteq> moduleAddr s swapModule"
    and t: "ttSender m \<noteq> moduleAddr s tokenModule" "tokenSide s"
  shows "tokenSide s' \<and> moduleAddr s' = moduleAddr s \<and> swapInv s'"
proof -
  from hop_effect [OF h inv a] obtain p' where b: "\<not> blacklistedAddrs s (ttRecipient m)" and i: "swapInv s'" and
    l: "swapLedger s s' (swapMoves s m buy) (\<lambda>_. 0) (kvSet (ttKey m) p' (swapStore s))" by blast
  have "swapMoves s m buy (moduleAddr s tokenModule) d = 0" for d
    using b t unfolding swapMoves_def tokenSide_def tokenEnv_def
    by (subst (1 2) moved_elsewhere) auto
  from tokenSide_ledger [OF l t(2) this] i swapLedger_simps(5) [OF l] show ?thesis by auto
qed

lemma AddLiquidity_side:
  assumes h: "handleMsgAddLiquidity m s = Ret r s'" and v: "MsgAddLiquidityValidateBasic m s = Ret () s"
    and inv: "swapInv s" and t: "tokenSide s"
    and a: "alSender m \<noteq> moduleAddr s swapModule" "alSender m \<noteq> moduleAddr s tokenModule"
  shows "swapInv s' \<and> tokenSide s' \<and> moduleAddr s' = moduleAddr s"
proof (rule AddLiquidity_effect [OF h v inv a(1)])
  fix p b l
  assume i: "swapInv s'" and l: "swapLedger s s' (addMoves s m p b l) (amt [mkCoin (poolSymbol s p) l])
       (kvSet (GetTokenPairKey (alPairName m)) (deposited p b (Amount (QuoteAmount m))) (swapStore s))"
  have "addMoves s m p b l (moduleAddr s tokenModule) d = 0" for d
    using a t unfolding addMoves_def tokenSide_def by (subst moved_elsewhere) (auto simp: delta_def)
  from tokenSide_ledger [OF l t this] i swapLedger_simps(5) [OF l] show ?thesis by auto
qed

lemma RemoveLiquidity_side:
  assumes h: "handleMsgRemoveLiquidity m s = Ret r s'" and v: "0 < Liquidity m"
    and inv: "swapInv s" and t: "tokenSide s"
    and a: "rlSender m \<noteq> moduleAddr s swapModule" "rlSender m \<noteq> moduleAddr s tokenModule"
  shows "swapInv s' \<and> tokenSide s' \<and> moduleAddr s' = moduleAddr s"
proof (rule RemoveLiquidity_effect [OF h v inv a(1)])
  fix p b q
  assume i: "swapInv s'" and
    l: "swapLedger s s' (removeMoves s m p b q) (\<lambda>d. - amt [mkCoin (PoolTokenName p) (Liquidity m)] d)
       (kvSet (GetTokenPairKey (rlPairName m)) (deposited p (- b) (- q)) (swapStore s))"
  have "removeMoves s m p b q (moduleAddr s tokenModule) d = 0" for d
    using a t unfolding removeMoves_def tokenSide_def by (subst moved_elsewhere) (auto simp: delta_def)
  from tokenSide_ledger [OF l t this] i swapLedger_simps(5) [OF l] show ?thesis by auto
qed

lemma swapValidateBasic_state: "swapValidateBasic msg s = Ret r s' \<Longrightarrow> s' = s"
  by (cases msg) (auto simp: run_simps dest: AddLiquidity_valid RemoveLiquidity_valid CreateExchange_valid
      TokenToToken_valid)

lemma runSwap_steps:
  assumes "runSwap msg s = Ret r s'"
  shows "swapValidateBasic msg s = Ret () s \<and> swapHandler msg s = Ret r s'"
proof -
  from assms obtain s1 where v: "swapValidateBasic msg s = Ret () s1" and h: "swapHandler msg s1 = Ret r s'"
    by (auto simp: runSwap_def run_simps)
  from swapValidateBasic_state [OF v] v h show ?thesis by simp
qed

lemma runSwap_inv:
  assumes run: "runSwap msg s = Ret r s'" and inv: "swapInv s" and t: "tokenSide s" and u: "userSigned s msg"
  shows "swapInv s' \<and> tokenSide s' \<and> moduleAddr s' = moduleAddr s"
proof (cases msg)
  case (AddLiquidityMsg m)
  with runSwap_steps [OF run] u show ?thesis
    by (intro AddLiquidity_side [of m, OF _ _ inv t]) (simp_all add: userSigned_def)
next
  case (RemoveLiquidityMsg m)
  with runSwap_steps [OF run] have v: "MsgRemoveLiquidityValidateBasic m s = Ret () s"
    and h: "handleMsgRemoveLiquidity m s = Ret r s'" by simp_all
  from RemoveLiquidity_valid [OF v] RemoveLiquidityMsg u show ?thesis
    by (intro RemoveLiquidity_side [OF h _ inv t]) (simp_all add: userSigned_def)
next
  case (CreateExchangeMsg m)
  with runSwap_steps [OF run] have v: "MsgCreateExchangeValidateBasic m s = Ret () s"
    and h: "handleMsgCreateExchange m s = Ret r s'" by simp_all
  from CreateExchange_steps [OF h] obtain p T U N where
    s': "s' = s\<lparr>tokenStore := T, userTokens := U, tokenNumber := N,
           swapStore := kvSet (GetTokenPairKey (cePairName m)) p (swapStore s)\<rparr>" by blast
  have "moduleAddr s' = moduleAddr s" by (rule ext) (simp add: s')
  with t CreateExchange_inv [OF h _ inv] CreateExchange_valid [OF v] show ?thesis
    by (simp add: tokenSide_def tokenInv_def tokenEnv_def s')
next
  case (TokenToTokenMsg m)
  with runSwap_steps [OF run] have v: "MsgTokenToTokenValidateBasic m s = Ret () s"
    and h: "handleMsgTokenToToken m s = Ret r s'" by simp_all
  from u TokenToTokenMsg have a: "ttSender m \<noteq> moduleAddr s swapModule" "ttSender m \<noteq> moduleAddr s tokenModule"
    by (simp_all add: userSigned_def)
  have d: "Denom (SoldTokenAmount m) \<noteq> Denom (MinBoughtTokenAmount m)" using TokenToToken_valid [OF v] by blast
  let ?R = "\<lambda>s s'. swapInv s \<and> tokenSide s \<and> ttSender m \<noteq> moduleAddr s tokenModule \<longrightarrow>
    swapInv s' \<and> tokenSide s' \<and> moduleAddr s' = moduleAddr s"
  have "?R s s'"
  proof (rule TokenToToken_induct [OF h inv a(1) d])
    fix x x' m' p buy
    assume "hop x x' m' p buy" "swapInv x" "ttSender m' \<noteq> moduleAddr x swapModule" "ttSender m' = ttSender m"
    with hop_tokenSide [of x x' m' p buy] show "?R x x'" by simp
  qed auto
  with inv t a(2) show ?thesis by blast
next
  case OtherSwapMsg
  with runSwap_steps [OF run] show ?thesis by (simp add: run_simps)
qed

text \<open>
  States reached from \<open>s\<close>: users' messages are delivered, blocks begin and the fee rate is set.
\<close>

inductive swapReach :: "'x swap_state_scheme \<Rightarrow> 'x swap_state_scheme \<Rightarrow> bool" for s where
  start: "swapReach s s"
| message: "swapReach s s' \<Longrightarrow> userSigned s' msg \<Longrightarrow> swapReach s (deliver (runSwap msg) s')"
| block: "swapReach s s' \<Longrightarrow> swapReach s (s'\<lparr>blockTime := t\<rparr>)"
| params: "swapReach s s' \<Longrightarrow> swapReach s (deliver (swapSetParams f) s')"

lemma swapInv_fields [simp]:
  "swapInv (s\<lparr>blockTime := t\<rparr>) = swapInv s" "tokenSide (s\<lparr>blockTime := t\<rparr>) = tokenSide s"
  "validateParams f \<Longrightarrow> swapInv s \<Longrightarrow> swapInv (s\<lparr>swapFeeRate := f\<rparr>)"
  "tokenSide (s\<lparr>swapFeeRate := f\<rparr>) = tokenSide s"
  by (simp_all add: swapInv_def tokenSide_def tokenInv_def tokenEnv_def heldLocked_def lockedTotal_def
      supplyInv_def bankOK_def totalOf_def balance_def coinsOf_def supplyOf_def moduleAddr_def)

lemma swapReach_inv: "swapReach s s' \<Longrightarrow> swapInv s \<Longrightarrow> tokenSide s \<Longrightarrow> swapInv s' \<and> tokenSide s'"
proof (induction rule: swapReach.induct)
  case (message s' msg)
  then show ?case by (cases "runSwap msg s'") (auto simp: deliver_def dest: runSwap_inv)
next
  case (params s' f)
  then show ?case
    by (cases "validateParams f")
      (auto simp: deliver_def swapSetParams_def seqM_def bindM_def panicIf_def panicM_def returnM_def modifyM_def)
qed simp_all

subsection \<open>Deposits and withdrawals\<close>

text \<open>The share of \<open>k\<close> of the \<open>l\<close> pool tokens that a deposit earned is at most the deposit.\<close>

lemma div_le: "0 < (c :: int) \<Longrightarrow> a < (x + 1) * c \<Longrightarrow> a div c \<le> x"
  using div_bounds(1) [of c a] mult_less_cancel_right_pos [of c "a div c" "x + 1"] by linarith

lemma share_le_deposit:
  assumes t: "depositTerms p S m q b l" and pos: "0 < m" "0 < q" "0 \<le> S" and k: "0 \<le> k" "k \<le> l"
  shows "(Amount (BasePooledCoin p) + b) * k div (S + l) \<le> b"
    and "(Amount (QuotePooledCoin p) + q) * k div (S + l) \<le> q"
proof -
  define B Q where "B = Amount (BasePooledCoin p)" and "Q = Amount (QuotePooledCoin p)"
  have b: "0 < b" and l: "0 < l" using depositTerms_pos [OF t pos(1,2)] by simp_all
  have d: "0 < S + l" using l pos by simp
  consider "B = 0" "Q = 0" | "0 < B" "0 < Q" "0 < S" "l = q * S div Q" "q * B div Q \<le> b"
    using t by (auto simp: depositTerms_def Let_def B_def Q_def split: if_splits)
  then have "(B + b) * l < (b + 1) * (S + l) \<and> (Q + q) * l < (q + 1) * (S + l)"
  proof cases
    case 1
    have "0 \<le> b * S" "0 \<le> q * S" using b pos by simp_all
    with 1 d show ?thesis by (simp add: algebra_simps)
  next
    case 2
    have lQ: "l * Q \<le> q * S" using div_bounds(1) [of Q "q * S"] 2 by simp
    have "q * B < (q * B div Q + 1) * Q" using div_bounds(2) [of Q "q * B"] 2 by simp
    also have "\<dots> \<le> (b + 1) * Q" using 2 by (intro mult_right_mono) simp_all
    finally have qB: "q * B * S < (b + 1) * Q * S" using 2 by simp
    have "B * l * Q \<le> q * B * S" using mult_left_mono [OF lQ, of B] 2 by (simp add: ac_simps)
    with qB have "B * l * Q < (b + 1) * S * Q" by (simp add: ac_simps)
    then have "B * l < (b + 1) * S" using 2 by simp
    with lQ l pos(3) show ?thesis by (simp add: algebra_simps)
  qed
  moreover have "(B + b) * k \<le> (B + b) * l" "(Q + q) * k \<le> (Q + q) * l"
    using t b pos k by (auto simp: depositTerms_def Let_def B_def Q_def intro!: mult_left_mono)
  ultimately show "(Amount (BasePooledCoin p) + b) * k div (S + l) \<le> b"
    "(Amount (QuotePooledCoin p) + q) * k div (S + l) \<le> q"
    using d by (auto simp: B_def [symmetric] Q_def [symmetric] intro!: div_le)
qed

subsection \<open>Quotes\<close>

abbreviation buyQuery :: "MsgTokenToToken \<Rightarrow> QueryBuyAmountParams" where
  "buyQuery msg \<equiv> \<lparr>SoldToken = SoldTokenAmount msg, TokenToBuy = Denom (MinBoughtTokenAmount msg)\<rparr>"

lemma direct_quote:
  assumes inv: "swapInv s" and a: "ttSender msg \<noteq> moduleAddr s swapModule"
    and v: "MsgTokenToTokenValidateBasic msg s = Ret () s" and run: "swapToken msg s = Ret () s'"
  shows "\<exists>buy. queryBuyAmount (buyQuery msg) s = Ret (Amount buy) s \<and>
      Denom buy = Denom (MinBoughtTokenAmount msg) \<and> Amount (MinBoughtTokenAmount msg) \<le> Amount buy \<and>
      (\<forall>x d. balance s' x d = balance s x d + swapMoves s msg buy x d)"
proof -
  from swapToken_run [OF run] obtain p buy where h: "hop s s' msg p buy"
    and min: "Amount (MinBoughtTokenAmount msg) \<le> Amount buy" by blast
  from h have c: "poolAt s (ttPairName msg) = Some p" "\<not> emptyPool p"
    "CalculateTokenToBuy p (SoldTokenAmount msg) (Denom (MinBoughtTokenAmount msg)) (swapFeeRate s) = Some buy"
    by (simp_all add: hop_def)
  have "GetSwapTokenPairName (Denom (SoldTokenAmount msg)) (Denom (MinBoughtTokenAmount msg)) = ttPairName msg"
    by (simp add: ttPairName_def pairName_sym)
  then have q: "queryBuyAmount (buyQuery msg) s = Ret (Amount buy) s"
    using c TokenToToken_valid [OF v] by (simp add: queryBuyAmount_def swapGetParams_def run_simps)
  from hop_effect [OF h inv a] obtain p' where
    l: "swapLedger s s' (swapMoves s msg buy) (\<lambda>_. 0) (kvSet (ttKey msg) p' (swapStore s))" by blast
  show ?thesis
    by (intro exI [of _ buy] conjI allI q min calc_denom [OF c(3)] swapLedger_simps(2) [OF l])
qed

lemma routed_quote:
  assumes inv: "swapInv s" and a: "ttSender msg \<noteq> moduleAddr s swapModule"
    and v: "MsgTokenToTokenValidateBasic msg s = Ret () s" and n: "poolAt s (ttPairName msg) = None"
    and run: "swapTokenByRouter msg s = Ret () s'"
  shows "\<exists>buy native. queryBuyAmount (buyQuery msg) s = Ret (Amount buy) s \<and>
      Denom buy = Denom (MinBoughtTokenAmount msg) \<and> Amount (MinBoughtTokenAmount msg) \<le> Amount buy \<and>
      Denom native = DefaultBondDenom \<and> 0 < Amount native \<and>
      (\<forall>x d. balance s' x d = balance s x d + swapMoves s (firstHop msg) native x d +
         swapMoves s (secondHop msg native) buy x d)"
proof -
  note val = TokenToToken_valid [OF v]
  then have d: "Denom (SoldTokenAmount msg) \<noteq> Denom (MinBoughtTokenAmount msg)" by blast
  obtain p1 p2 native buy s1 where h1: "hop s s1 (firstHop msg) p1 native"
    and h2: "hop s1 s' (secondHop msg native) p2 buy"
    and p2: "poolAt s (ttPairName (secondHop msg native)) = Some p2" and nat: "Denom native = DefaultBondDenom"
    and min: "Amount (MinBoughtTokenAmount msg) \<le> Amount buy" by (rule router_hops [OF run inv a d])
  have a1: "ttSender (firstHop msg) \<noteq> moduleAddr s swapModule" using a by simp
  obtain p1' where pos: "0 < Amount native" and inv1: "swapInv s1" and
    l1: "swapLedger s s1 (swapMoves s (firstHop msg) native) (\<lambda>_. 0) (kvSet (ttKey (firstHop msg)) p1' (swapStore s))"
    using hop_effect [OF h1 inv a1] by metis
  note e1 = swapLedger_simps [OF l1]
  have a2: "ttSender (secondHop msg native) \<noteq> moduleAddr s1 swapModule" using a by (simp add: e1(5))
  obtain st where l2: "swapLedger s1 s' (swapMoves s1 (secondHop msg native) buy) (\<lambda>_. 0) st"
    using hop_effect [OF h2 inv1 a2] by metis
  have names: "ttPairName (firstHop msg) = GetSwapTokenPairName (Denom (SoldTokenAmount msg)) DefaultBondDenom"
    "ttPairName (secondHop msg native) = GetSwapTokenPairName (Denom (MinBoughtTokenAmount msg)) DefaultBondDenom"
    "ttPairName msg = GetSwapTokenPairName (Denom (SoldTokenAmount msg)) (Denom (MinBoughtTokenAmount msg))"
    by (simp_all add: ttPairName_def nat mkCoin_def pairName_sym)
  have c2: "CalculateTokenToBuy p2 native (Denom (MinBoughtTokenAmount msg)) (swapFeeRate s) = Some buy" "\<not> emptyPool p2"
    using h2 e1(6) by (simp_all add: hop_def)
  have q: "queryBuyAmount (buyQuery msg) s = Ret (Amount buy) s"
    using h1 c2 p2 n val unfolding names hop_def
    by (simp add: queryBuyAmount_def fundedPair_def swapGetParams_def mkCoin_def run_simps)
  have "balance s' x d = balance s x d + swapMoves s (firstHop msg) native x d + swapMoves s (secondHop msg native) buy x d"
    for x d unfolding swapLedger_simps(2) [OF l2] e1(2) swapMoves_def e1(5) by simp
  with q min calc_denom [OF c2(1)] nat pos show ?thesis by blast
qed

subsection \<open>Redemption\<close>

lemma swapSet_sound [simp]:
  "bankSound (s\<lparr>swapStore := x\<rparr>) = bankSound s" "moduleReady (s\<lparr>swapStore := x\<rparr>) md = moduleReady s md"
  by (simp_all add: bankSound_def coinsOf_def moduleReady_def moduleAddr_def)

lemma burn_defined:
  assumes s: "bankSound s" "supplyInv s" "moduleReady s swapModule" and a: "a \<noteq> moduleAddr s swapModule"
    and m: "positiveCoins [mkCoin d l]" "namesOK [mkCoin d l]" and l: "l \<le> balance s a d"
  shows "\<exists>s'. BurnPoolCoinsFromUser [mkCoin d l] a s = Ret () s'"
proof -
  let ?M = "moduleAddr s swapModule"
  have "amt [mkCoin d l] e \<le> balance s a e" for e
    using l balance_nonneg [of s a e] s(1) by (auto simp: mkCoin_def bankSound_def)
  then obtain s1 where run1: "SendCoins a ?M [mkCoin d l] s = Ret () s1" and s1: "bankSound s1" "moduleReady s1 swapModule"
    and led: "ledger s s1 (moved a ?M [mkCoin d l]) (\<lambda>_. 0)"
    by (rule sendReady [OF s(1,3) a m])
  have M: "moduleAddr s1 swapModule = ?M" by (rule moduleAddr_ledger [OF led])
  from moduleReady_account [OF s(3)] have
    send: "SendCoinsFromAccountToModule a swapModule [mkCoin d l] s = Ret () s1"
    using run1 by (auto simp: SendCoinsFromAccountToModule_def run_simps)
  from moduleReady_account [OF s1(2)] obtain acc where acc: "mustModuleAccount swapModule s1 = Ret (?M, acc) s1"
    "HasPermission (accPermissions acc) Burner" unfolding M by blast
  have ok1: "bankOK s1" and n1: "namesOK (coinsOf s1 ?M)" using s1 by (simp_all add: bankSound_def)
  have bal: "amt [mkCoin d l] e \<le> balance s1 ?M e" for e
    using led a balance_nonneg [of s ?M e] s(1) by (simp add: ledger_def moved_def delta_def bankSound_def)
  have lim: "balance s1 x e < decLimit" for x e
    using balance_le_total [OF ok1, of x e] s1 by (auto simp: bankSound_def intro: le_less_trans)
  from subtract_defined [OF ok1 n1 m(2,1) bal lim] obtain c where
    c: "subtractCoins ?M (accounts s1 ?M) [mkCoin d l] s1 = Ret c (setCoinsOf ?M c s1)" by blast
  have v: "IsValid [mkCoin d l]" by (rule IsValidI [OF m])
  have S: "supplyOf s1 d = totalOf s1 d" using ledger_supplyInv [OF led s(2)] by (simp add: supplyInv_def)
  have "l \<le> totalOf s1 d" using bal [of d] balance_le_total [OF ok1, of ?M d] by (simp add: mkCoin_def)
  moreover have "totalOf s1 d < decLimit" using s1 by (simp add: bankSound_def)
  moreover have "0 < l" using m by (simp add: positiveCoins_def mkCoin_def)
  ultimately have "deflate d l (setCoinsOf ?M c s1) = Ret () ((setCoinsOf ?M c s1)\<lparr>supplyStore :=
      (supplyStore s1)(d \<mapsto> totalOf s1 d - l)\<rparr>)"
    using S by (simp add: deflate_def GetSupplyByDenom_def setTokenSupplyAmount_def supplyOf_def run_simps)
  with c acc v send show ?thesis
    by (simp add: BurnPoolCoinsFromUser_def BurnCoins_def SubtractCoins_def GetAccount_def run_simps mkCoin_def
        del: IsValid.simps)
qed

lemma sumPairs_ge:
  assumes "\<forall>(k, p)\<in>set ps. poolOK k p" "(k, p) \<in> set ps"
  shows "pairAmt p d \<le> sumPairs ps d"
proof -
  have "0 \<le> pairAmt q d" if "(k', q) \<in> set ps" for k' q
    using assms(1) that poolOK_nonneg [of k' q] by (auto simp: pairAmt_def)
  then have nn: "\<forall>x\<in>set (map (\<lambda>e. pairAmt (snd e) d) ps). 0 \<le> x" by auto
  have "pairAmt p d \<in> set (map (\<lambda>e. pairAmt (snd e) d) ps)" using assms(2) by force
  with nn show ?thesis unfolding sumPairs_def by (metis member_le_sum_list)
qed

lemma MulAndQuo_share:
  assumes "0 \<le> x" "0 < l" "l \<le> S" "x * precisionReuse < decLimit" "x * S < decLimit"
  shows "MulAndQuo x l S = Some (x * l div S)" "0 \<le> x * l div S" "x * l div S \<le> x"
proof -
  have S: "0 < S" using assms by simp
  have xl: "x * l \<le> x * S" using assms by (intro mult_left_mono) auto
  have "x * l * precisionReuse div S \<le> x * S * precisionReuse div S"
    using xl S by (intro zdiv_mono1 mult_right_mono) auto
  also have "\<dots> = x * precisionReuse" using S by (simp add: ac_simps)
  finally show "MulAndQuo x l S = Some (x * l div S)" using assms xl S by (simp add: MulAndQuo_Some)
  show "0 \<le> x * l div S" using assms S by (simp add: pos_imp_zdiv_nonneg_iff)
  have "x * l div S \<le> x * S div S" using xl S by (intro zdiv_mono1)
  then show "x * l div S \<le> x" using S by simp
qed

lemma payout_coins:
  assumes "a < b" "0 \<le> x" "0 \<le> y" "namesOK [mkCoin a 0, mkCoin b 0]"
  defines "c \<equiv> coinSort [mkCoin a x, mkCoin b y]"
  shows "positiveCoins c" "namesOK c" "amt c d = amt [mkCoin a x, mkCoin b y] d"
proof -
  have "sortedCoins (filter (\<lambda>c. 0 < Amount c) [mkCoin a x, mkCoin b y])"
    using assms(1) by (simp add: mkCoin_def)
  then have c: "c = filter (\<lambda>c. 0 < Amount c) [mkCoin a x, mkCoin b y]"
    unfolding c_def coinSort_def by (rule SortCoins_sorted)
  show "positiveCoins c" "namesOK c" using assms(1,4) by (auto simp: c positiveCoins_def namesOK_def mkCoin_def)
  show "amt c d = amt [mkCoin a x, mkCoin b y] d"
    unfolding c_def using assms(2,3) by (intro amt_coinSort) (simp add: mkCoin_def)
qed

text \<open>A withdrawal that the holder is entitled to, at minima that the pool can meet.\<close>

definition entitled :: "'x swap_state_scheme \<Rightarrow> MsgRemoveLiquidity \<Rightarrow> SwapTokenPair \<Rightarrow> bool" where
  "entitled s msg p \<longleftrightarrow>
     poolAt s (rlPairName msg) = Some p \<and> blockTime s div 10 ^ 9 \<le> rlDeadline msg \<and>
     0 < Liquidity msg \<and> Liquidity msg \<le> balance s (rlSender msg) (PoolTokenName p) \<and>
     rlSender msg \<noteq> moduleAddr s swapModule \<and> \<not> blacklistedAddrs s (rlSender msg) \<and>
     Denom (MinBaseAmount msg) = Denom (BasePooledCoin p) \<and> Denom (MinQuoteAmount msg) = Denom (QuotePooledCoin p) \<and>
     Amount (MinBaseAmount msg) \<le> Amount (BasePooledCoin p) * Liquidity msg div supplyOf s (PoolTokenName p) \<and>
     Amount (MinQuoteAmount msg) \<le> Amount (QuotePooledCoin p) * Liquidity msg div supplyOf s (PoolTokenName p)"

text \<open>The amounts of a pool are far enough from the limit of decimals.\<close>

definition poolBounded :: "'x swap_state_scheme \<Rightarrow> SwapTokenPair \<Rightarrow> bool" where
  "poolBounded s p \<longleftrightarrow> (\<forall>x\<in>{Amount (BasePooledCoin p), Amount (QuotePooledCoin p)}.
     x * precisionReuse < decLimit \<and> x * supplyOf s (PoolTokenName p) < decLimit)"

lemma redeem_payout:
  assumes inv: "swapInv s" and e: "entitled s msg p" and bnd: "poolBounded s p"
    and names: "namesOK [mkCoin (Denom (BasePooledCoin p)) 0, mkCoin (Denom (QuotePooledCoin p)) 0]"
  obtains b q where "b = Amount (BasePooledCoin p) * Liquidity msg div supplyOf s (PoolTokenName p)"
    "q = Amount (QuotePooledCoin p) * Liquidity msg div supplyOf s (PoolTokenName p)"
    "MulAndQuo (Amount (BasePooledCoin p)) (Liquidity msg) (supplyOf s (PoolTokenName p)) = Some b"
    "MulAndQuo (Amount (QuotePooledCoin p)) (Liquidity msg) (supplyOf s (PoolTokenName p)) = Some q"
    "0 \<le> b" "b \<le> Amount (BasePooledCoin p)" "0 \<le> q" "q \<le> Amount (QuotePooledCoin p)"
    "positiveCoins (coinSort [mkCoin (Denom (BasePooledCoin p)) b, mkCoin (Denom (QuotePooledCoin p)) q])"
    "namesOK (coinSort [mkCoin (Denom (BasePooledCoin p)) b, mkCoin (Denom (QuotePooledCoin p)) q])"
    "\<forall>d. amt (coinSort [mkCoin (Denom (BasePooledCoin p)) b, mkCoin (Denom (QuotePooledCoin p)) q]) d
       \<le> balance s (moduleAddr s swapModule) d"
    "Liquidity msg \<le> supplyOf s (PoolTokenName p)"
proof -
  let ?l = "Liquidity msg" and ?S = "supplyOf s (PoolTokenName p)"
  let ?dB = "Denom (BasePooledCoin p)" and ?dQ = "Denom (QuotePooledCoin p)"
  define b q where "b = Amount (BasePooledCoin p) * ?l div ?S" and "q = Amount (QuotePooledCoin p) * ?l div ?S"
  have p: "poolAt s (rlPairName msg) = Some p" and l: "0 < ?l" "?l \<le> balance s (rlSender msg) (PoolTokenName p)"
    using e by (simp_all add: entitled_def)
  have bank: "bankOK s" and sup: "supplyInv s" using inv by (auto simp: swapInv_def supplyInv_def)
  note ok = poolAt_OK [OF inv p]
  have nn: "0 \<le> Amount (BasePooledCoin p)" "0 \<le> Amount (QuotePooledCoin p)" and ord: "?dB < ?dQ"
    using poolOK_nonneg [OF ok] ok by (auto simp: poolOK_def)
  have lS: "?l \<le> ?S"
    using l(2) balance_le_total [OF bank, of "rlSender msg" "PoolTokenName p"] sup by (simp add: supplyInv_def)
  have base: "MulAndQuo (Amount (BasePooledCoin p)) ?l ?S = Some b" "0 \<le> b" "b \<le> Amount (BasePooledCoin p)"
    using MulAndQuo_share [OF nn(1) l(1) lS] bnd by (simp_all add: poolBounded_def b_def)
  have quote: "MulAndQuo (Amount (QuotePooledCoin p)) ?l ?S = Some q" "0 \<le> q" "q \<le> Amount (QuotePooledCoin p)"
    using MulAndQuo_share [OF nn(2) l(1) lS] bnd by (simp_all add: poolBounded_def q_def)
  note c = payout_coins [OF ord base(2) quote(2) names]
  have "amt (coinSort [mkCoin ?dB b, mkCoin ?dQ q]) d \<le> pairAmt p d" for d
    unfolding c(3) using base quote by (simp add: pairAmt_def mkCoin_def)
  moreover have "pairAmt p d \<le> sumPairs (swapStore s) d" for d
    using p inv by (intro sumPairs_ge) (auto simp: swapInv_def poolAt_def dest: map_of_SomeD)
  moreover have "sumPairs (swapStore s) d \<le> balance s (moduleAddr s swapModule) d" for d
    using inv by (simp add: swapInv_def)
  ultimately have "amt (coinSort [mkCoin ?dB b, mkCoin ?dQ q]) d \<le> balance s (moduleAddr s swapModule) d" for d
    by (meson order_trans)
  with that [OF b_def q_def base(1) quote(1) base(2,3) quote(2,3) c(1,2) _ lS] show thesis by blast
qed

lemma RemoveLiquidity_intro:
  assumes "poolAt s (rlPairName msg) = Some p" "blockTime s div 10 ^ 9 \<le> rlDeadline msg"
    "Liquidity msg \<le> supplyOf s (PoolTokenName p)"
    "redeemAmounts p (Liquidity msg) (supplyOf s (PoolTokenName p)) = Some (cb, cq)"
    "coinIsLT cb (MinBaseAmount msg) = Some False" "coinIsLT cq (MinQuoteAmount msg) = Some False"
    "SendCoinsFromModuleToAccount swapModule (rlSender msg) (coinSort [cb, cq]) s = Ret () s1"
    "coinSub (QuotePooledCoin p) cq = Some q'" "coinSub (BasePooledCoin p) cb = Some b'"
    "NewDecCoinFromDec (PoolTokenName p) (Liquidity msg) = Some c"
    "BurnPoolCoinsFromUser [c] (rlSender msg)
      (s1\<lparr>swapStore := kvSet (GetTokenPairKey (rlPairName msg)) (p\<lparr>QuotePooledCoin := q', BasePooledCoin := b'\<rparr>)
        (swapStore s1)\<rparr>) = Ret () s2"
  shows "handleMsgRemoveLiquidity msg s = Ret () s2"
  using assms unfolding handleMsgRemoveLiquidity_def
  by (simp add: blockUnix_def SendCoinsFromPoolToAccount_def SetSwapTokenPair_def GetPoolTokenAmount_def
      GetSupplyByDenom_def run_simps) blast

lemma pooled_limit:
  assumes inv: "swapInv s" and sound: "bankSound s" and p: "poolAt s n = Some p"
  shows "Amount (BasePooledCoin p) < decLimit" "Amount (QuotePooledCoin p) < decLimit"
proof -
  have "pairAmt p d < decLimit" for d
  proof -
    have "pairAmt p d \<le> sumPairs (swapStore s) d"
      using p inv by (intro sumPairs_ge) (auto simp: swapInv_def poolAt_def dest: map_of_SomeD)
    also have "\<dots> \<le> balance s (moduleAddr s swapModule) d" using inv by (simp add: swapInv_def)
    also have "\<dots> \<le> totalOf s d" by (rule balance_le_total [OF swapInv_bankOK [OF inv]])
    also have "\<dots> < decLimit" using sound by (simp add: bankSound_def)
    finally show ?thesis .
  qed
  from this [of "Denom (BasePooledCoin p)"] this [of "Denom (QuotePooledCoin p)"] poolAt_OK [OF inv p]
    poolOK_nonneg [OF poolAt_OK [OF inv p]]
  show "Amount (BasePooledCoin p) < decLimit" "Amount (QuotePooledCoin p) < decLimit"
    by (auto simp: pairAmt_def split: if_splits)
qed

lemma redeem_runs:
  assumes inv: "swapInv s" and sound: "bankSound s" and ready: "moduleReady s swapModule"
    and e: "entitled s msg p" and bnd: "poolBounded s p"
    and names: "namesOK [mkCoin (Denom (BasePooledCoin p)) 0, mkCoin (Denom (QuotePooledCoin p)) 0]"
      "namesOK [mkCoin (PoolTokenName p) (Liquidity msg)]"
  shows "\<exists>s'. handleMsgRemoveLiquidity msg s = Ret () s'"
proof -
  let ?M = "moduleAddr s swapModule" and ?a = "rlSender msg" and ?l = "Liquidity msg" and ?P = "PoolTokenName p"
  let ?dB = "Denom (BasePooledCoin p)" and ?dQ = "Denom (QuotePooledCoin p)"
  obtain b q where bq: "b = Amount (BasePooledCoin p) * ?l div supplyOf s ?P"
      "q = Amount (QuotePooledCoin p) * ?l div supplyOf s ?P"
    and m: "MulAndQuo (Amount (BasePooledCoin p)) ?l (supplyOf s ?P) = Some b"
      "MulAndQuo (Amount (QuotePooledCoin p)) ?l (supplyOf s ?P) = Some q"
    and r: "0 \<le> b" "b \<le> Amount (BasePooledCoin p)" "0 \<le> q" "q \<le> Amount (QuotePooledCoin p)"
    and c: "positiveCoins (coinSort [mkCoin ?dB b, mkCoin ?dQ q])" "namesOK (coinSort [mkCoin ?dB b, mkCoin ?dQ q])"
    and cover: "\<forall>d. amt (coinSort [mkCoin ?dB b, mkCoin ?dQ q]) d \<le> balance s ?M d"
    and lS: "?l \<le> supplyOf s ?P"
    by (rule redeem_payout [OF inv e bnd names(1)])
  from e have p: "poolAt s (rlPairName msg) = Some p" and a: "?M \<noteq> ?a" "\<not> blacklistedAddrs s ?a"
    and l: "0 < ?l" "?l \<le> balance s ?a ?P" by (auto simp: entitled_def)
  obtain s1 where run1: "SendCoins ?M ?a (coinSort [mkCoin ?dB b, mkCoin ?dQ q]) s = Ret () s1"
    and s1: "bankSound s1" "moduleReady s1 swapModule"
    and led: "ledger s s1 (moved ?M ?a (coinSort [mkCoin ?dB b, mkCoin ?dQ q])) (\<lambda>_. 0)"
    by (rule sendReady [OF sound ready a(1) c cover [rule_format]])
  have send: "SendCoinsFromModuleToAccount swapModule ?a (coinSort [mkCoin ?dB b, mkCoin ?dQ q]) s = Ret () s1"
    using run1 ready a(2) by (auto simp: SendCoinsFromModuleToAccount_def BlacklistedAddr_def mustModuleAddress_def
        GetModuleAddress_def moduleReady_def run_simps)
  let ?s1 = "s1\<lparr>swapStore := kvSet (GetTokenPairKey (rlPairName msg)) (p\<lparr>
      QuotePooledCoin := mkCoin ?dQ (Amount (QuotePooledCoin p) - q),
      BasePooledCoin := mkCoin ?dB (Amount (BasePooledCoin p) - b)\<rparr>) (swapStore s1)\<rparr>"
  have "supplyInv s1" using ledger_supplyInv [OF led] inv by (simp add: swapInv_def)
  moreover have "?l \<le> balance s1 ?a ?P"
    using led l(2) a(1) positiveCoins_amt [OF c(1), of ?P] by (simp add: ledger_def moved_def delta_def)
  moreover have "positiveCoins [mkCoin ?P ?l]" using l(1) by (simp add: positiveCoins_def mkCoin_def)
  ultimately obtain s2 where burn: "BurnPoolCoinsFromUser [mkCoin ?P ?l] ?a ?s1 = Ret () s2"
    using burn_defined [of ?s1 ?a ?P ?l] s1 a(1) names(2) moduleAddr_ledger [OF led, of swapModule] by auto
  have valid: "ValidateDenom ?dB" "ValidateDenom ?dQ" "ValidateDenom ?P" using names by (simp_all add: namesOK_def mkCoin_def)
  have redeem: "redeemAmounts p ?l (supplyOf s ?P) = Some (mkCoin ?dB b, mkCoin ?dQ q)"
    using m r valid by (simp add: redeemAmounts_def NewDecCoinFromDec_def)
  have lim: "Amount (BasePooledCoin p) < decLimit" "Amount (QuotePooledCoin p) < decLimit"
    using pooled_limit [OF inv sound p] by simp_all
  have sub: "coinSub (QuotePooledCoin p) (mkCoin ?dQ q) = Some (mkCoin ?dQ (Amount (QuotePooledCoin p) - q))"
    "coinSub (BasePooledCoin p) (mkCoin ?dB b) = Some (mkCoin ?dB (Amount (BasePooledCoin p) - b))"
    using r lim by (simp_all add: coinSub_Some mkCoin_def)
  have "Amount (MinBaseAmount msg) \<le> b" "Amount (MinQuoteAmount msg) \<le> q" "Denom (MinBaseAmount msg) = ?dB"
    "Denom (MinQuoteAmount msg) = ?dQ" and dl: "blockTime s div 10 ^ 9 \<le> rlDeadline msg"
    using e unfolding bq entitled_def by blast+
  then have lt: "coinIsLT (mkCoin ?dB b) (MinBaseAmount msg) = Some False"
    "coinIsLT (mkCoin ?dQ q) (MinQuoteAmount msg) = Some False"
    by (simp_all add: coinIsLT_def mkCoin_def)
  have "NewDecCoinFromDec ?P ?l = Some (mkCoin ?P ?l)" using valid l(1) by (simp add: NewDecCoinFromDec_Some)
  from RemoveLiquidity_intro [OF p dl lS redeem lt send sub this burn] show ?thesis by blast
qed

section \<open>Properties\<close>

text \<open>
  C5. The constant product rule. A swap that is executed, directly or by way of the native token, keeps
  every pool, and in no pool does the product of the two sides decrease.
\<close>

theorem constant_product:
  assumes inv: "swapInv s" and a: "ttSender msg \<noteq> moduleAddr s swapModule"
    and v: "MsgTokenToTokenValidateBasic msg s = Ret () s"
    and run: "handleMsgTokenToToken msg s = Ret () s'"
    and q: "poolAt s n = Some q"
  shows "\<exists>q'. poolAt s' n = Some q' \<and> poolProduct q \<le> poolProduct q'"
proof -
  have d: "Denom (SoldTokenAmount msg) \<noteq> Denom (MinBoughtTokenAmount msg)"
    using TokenToToken_valid [OF v] by blast
  have "\<forall>q. poolAt s n = Some q \<longrightarrow> (\<exists>q'. poolAt s' n = Some q' \<and> poolProduct q \<le> poolProduct q')"
    by (rule TokenToToken_induct [OF run inv a d]) (use hop_products in blast, meson order_trans)
  with q show ?thesis by blast
qed

text \<open>
  C4. Solvency. From a state in which the recorded supply equals the coins held, every pool is well
  formed and the module account holds at least what all pools together claim, every state that users'
  messages, new blocks and changes of the fee rate lead to is such a state again. The locks of the
  token module stay covered, too.
\<close>

theorem swap_solvent:
  assumes "swapInv s" "tokenSide s" "swapReach s s'"
  shows "swapInv s' \<and> tokenInv s' \<and> sumPairs (swapStore s') d \<le> balance s' (moduleAddr s' swapModule) d"
  using swapReach_inv [OF assms(3,1,2)] by (simp add: swapInv_def tokenSide_def)

text \<open>
  C6. No profit from liquidity alone. An account that deposits and then withdraws at most the pool
  tokens that the deposit minted ends with at most the coins it had, in every denomination but the
  pool token.
\<close>

theorem add_remove_no_profit:
  assumes inv: "swapInv s" and a: "alSender add \<noteq> moduleAddr s swapModule" "rlSender rem = alSender add"
    and v: "MsgAddLiquidityValidateBasic add s = Ret () s" "0 < Liquidity rem"
    and names: "rlPairName rem = alPairName add"
    and run: "handleMsgAddLiquidity add s = Ret () s1" "handleMsgRemoveLiquidity rem s1 = Ret () s2"
    and p: "poolAt s (alPairName add) = Some p" "tokenStore s (PoolTokenName p) = Some t"
      "tkSymbol t = PoolTokenName p"
    and k: "Liquidity rem \<le> supplyOf s1 (PoolTokenName p) - supplyOf s (PoolTokenName p)"
    and d: "d \<noteq> PoolTokenName p"
  shows "balance s2 (alSender add) d \<le> balance s (alSender add) d"
proof (rule AddLiquidity_effect [OF run(1) v(1) inv a(1)])
  let ?q = "Amount (QuoteAmount add)" and ?S = "supplyOf s (PoolTokenName p)" and ?k = "Liquidity rem"
  fix p0 b l
  assume "poolAt s (alPairName add) = Some p0" and
    t0: "depositTerms p0 (supplyOf s (PoolTokenName p0)) (Amount (MaxBaseAmount add)) ?q b l" and
    den0: "Denom (QuotePooledCoin p0) = Denom (QuoteAmount add)" "Denom (BasePooledCoin p0) = Denom (MaxBaseAmount add)" and
    l0: "swapLedger s s1 (addMoves s add p0 b l) (amt [mkCoin (poolSymbol s p0) l])
       (kvSet (GetTokenPairKey (alPairName add)) (deposited p0 b ?q) (swapStore s))" and inv1: "swapInv s1"
  with p have [simp]: "p0 = p" by simp
  note e1 = swapLedger_simps [OF l0]
  have pool1: "poolAt s1 (rlPairName rem) = Some (deposited p b ?q)"
    using poolAt_set [OF swapInv_kvOK [OF inv] e1(4)] by (simp add: names)
  have S1: "supplyOf s1 (PoolTokenName p) = ?S + l" using p by (simp add: e1(3) mkCoin_def)
  have pos: "0 < Amount (MaxBaseAmount add)" "0 < ?q" using AddLiquidity_valid [OF v(1)] by auto
  have b: "0 < b" using depositTerms_pos [OF t0 pos] by simp
  have a1: "rlSender rem \<noteq> moduleAddr s1 swapModule" using a by (simp add: e1(5))
  show ?thesis
  proof (rule RemoveLiquidity_effect [OF run(2) v(2) inv1 a1])
    fix p1 b' q'
    assume "poolAt s1 (rlPairName rem) = Some p1" and
      eq: "b' = Amount (BasePooledCoin p1) * ?k div supplyOf s1 (PoolTokenName p1)" "0 \<le> b'"
        "q' = Amount (QuotePooledCoin p1) * ?k div supplyOf s1 (PoolTokenName p1)" "0 \<le> q'" and
      l1: "swapLedger s1 s2 (removeMoves s1 rem p1 b' q') (\<lambda>d. - amt [mkCoin (PoolTokenName p1) ?k] d)
       (kvSet (GetTokenPairKey (rlPairName rem)) (deposited p1 (- b') (- q')) (swapStore s1))"
    with pool1 have p1: "p1 = deposited p b ?q" by simp
    have fields: "PoolTokenName p1 = PoolTokenName p" "Amount (BasePooledCoin p1) = Amount (BasePooledCoin p) + b"
      "Amount (QuotePooledCoin p1) = Amount (QuotePooledCoin p) + ?q"
      "Denom (BasePooledCoin p1) = Denom (BasePooledCoin p)" "Denom (QuotePooledCoin p1) = Denom (QuotePooledCoin p)"
      by (simp_all add: p1 deposited_def mkCoin_def)
    have le: "b' \<le> b" "q' \<le> ?q"
      using share_le_deposit [OF t0 [simplified] pos supplyOf_nonneg [OF inv], of ?k] k v(2)
      by (simp_all add: eq fields S1)
    have "moved x y c x e = - amt c e" "moved y x c x e = amt c e" if "x \<noteq> y" for x y c e
      using that by (simp_all add: moved_def delta_def)
    then have "addMoves s add p b l (alSender add) d + removeMoves s1 rem p1 b' q' (alSender add) d =
        amt [mkCoin (Denom (BasePooledCoin p)) (b' - b), mkCoin (Denom (QuotePooledCoin p)) (q' - ?q)] d"
      using a p d b pos eq(2,4) den0
      by (simp add: addMoves_def removeMoves_def amt_coinSort delta_def mkCoin_def fields e1(5))
    with le swapLedger_simps(2) [OF l1, of "alSender add" d] e1(2) [of "alSender add" d]
    show ?thesis by (simp add: mkCoin_def split: if_splits)
  qed
qed

text \<open>
  C7. A swap pays what the query promises. When a swap is executed, \<open>queryBuyAmount\<close> asked just before
  answers the amount bought, which is at least the minimum of the message. In a direct swap the sender
  pays the tokens sold and the recipient gets the tokens bought. In a routed swap the recipient gets
  the tokens bought and also the native tokens of the first hop, and it is the sender who pays the
  native tokens for the second hop.
\<close>

theorem swap_pays_quote:
  assumes inv: "swapInv s" and a: "ttSender msg \<noteq> moduleAddr s swapModule"
    and v: "MsgTokenToTokenValidateBasic msg s = Ret () s"
    and run: "handleMsgTokenToToken msg s = Ret () s'"
  shows "\<exists>buy. queryBuyAmount \<lparr>SoldToken = SoldTokenAmount msg, TokenToBuy = Denom (MinBoughtTokenAmount msg)\<rparr> s
        = Ret (Amount buy) s \<and>
      Denom buy = Denom (MinBoughtTokenAmount msg) \<and> Amount (MinBoughtTokenAmount msg) \<le> Amount buy \<and>
      (if poolAt s (ttPairName msg) \<noteq> None
       then \<forall>x d. balance s' x d = balance s x d +
         moved (ttSender msg) (moduleAddr s swapModule) [SoldTokenAmount msg] x d +
         moved (moduleAddr s swapModule) (ttRecipient msg) [buy] x d
       else \<exists>native. Denom native = DefaultBondDenom \<and> 0 < Amount native \<and>
        (\<forall>x d. balance s' x d = balance s x d +
         moved (ttSender msg) (moduleAddr s swapModule) [SoldTokenAmount msg] x d +
         moved (moduleAddr s swapModule) (ttRecipient msg) [native] x d +
         moved (ttSender msg) (moduleAddr s swapModule) [native] x d +
         moved (moduleAddr s swapModule) (ttRecipient msg) [buy] x d))"
  using TokenToToken_cases [OF run]
proof (elim disjE conjE)
  assume n: "poolAt s (ttPairName msg) \<noteq> None" and r: "swapToken msg s = Ret () s'"
  from direct_quote [OF inv a v r] n show ?thesis by (simp add: swapMoves_def add.assoc)
next
  assume n: "poolAt s (ttPairName msg) = None" and r: "swapTokenByRouter msg s = Ret () s'"
  from routed_quote [OF inv a v n r] n show ?thesis by (simp add: swapMoves_def add.assoc)
qed

text \<open>
  C8. Pool tokens can always be redeemed. When the module account exists and may burn, names and amounts
  are proper and the pool is bounded, a holder's withdrawal of part of the holder's pool tokens, at
  minima that the share meets, is executed. The holder gets the share of both sides, rounded down, for
  the pool tokens.
\<close>

theorem redeem_live:
  assumes inv: "swapInv s" and sound: "bankSound s" and ready: "moduleReady s swapModule"
    and e: "entitled s msg p" and bnd: "poolBounded s p"
    and names: "namesOK [mkCoin (Denom (BasePooledCoin p)) 0, mkCoin (Denom (QuotePooledCoin p)) 0]"
      "namesOK [mkCoin (PoolTokenName p) (Liquidity msg)]"
  shows "\<exists>s'. handleMsgRemoveLiquidity msg s = Ret () s' \<and>
    (\<forall>d. balance s' (rlSender msg) d = balance s (rlSender msg) d +
      amt [mkCoin (Denom (BasePooledCoin p)) (Amount (BasePooledCoin p) * Liquidity msg div supplyOf s (PoolTokenName p)),
           mkCoin (Denom (QuotePooledCoin p)) (Amount (QuotePooledCoin p) * Liquidity msg div supplyOf s (PoolTokenName p))] d -
      amt [mkCoin (PoolTokenName p) (Liquidity msg)] d)"
proof -
  from e have p: "poolAt s (rlPairName msg) = Some p" and l: "0 < Liquidity msg"
    and a: "rlSender msg \<noteq> moduleAddr s swapModule" by (simp_all add: entitled_def)
  from redeem_runs [OF assms] obtain s' where run: "handleMsgRemoveLiquidity msg s = Ret () s'" by blast
  show ?thesis
  proof (rule RemoveLiquidity_effect [OF run l inv a])
    fix p0 b q
    assume "poolAt s (rlPairName msg) = Some p0"
      and bq: "b = Amount (BasePooledCoin p0) * Liquidity msg div supplyOf s (PoolTokenName p0)" "0 \<le> b"
        "q = Amount (QuotePooledCoin p0) * Liquidity msg div supplyOf s (PoolTokenName p0)" "0 \<le> q"
      and led: "swapLedger s s' (removeMoves s msg p0 b q) (\<lambda>d. - amt [mkCoin (PoolTokenName p0) (Liquidity msg)] d)
       (kvSet (GetTokenPairKey (rlPairName msg)) (deposited p0 (- b) (- q)) (swapStore s))"
    with p have [simp]: "p0 = p" by simp
    have c: "amt (coinSort [mkCoin (Denom (BasePooledCoin p)) b, mkCoin (Denom (QuotePooledCoin p)) q]) d =
        amt [mkCoin (Denom (BasePooledCoin p)) b, mkCoin (Denom (QuotePooledCoin p)) q] d" for d
      using bq(2,4) by (intro amt_coinSort) (simp add: mkCoin_def)
    have "balance s' (rlSender msg) d = balance s (rlSender msg) d +
      amt [mkCoin (Denom (BasePooledCoin p)) b, mkCoin (Denom (QuotePooledCoin p)) q] d -
      amt [mkCoin (PoolTokenName p) (Liquidity msg)] d" for d
      using a swapLedger_simps(2) [OF led, of "rlSender msg" d] unfolding c [symmetric]
      by (simp add: removeMoves_def moved_def delta_def)
    with run show ?thesis unfolding bq(1,3) by auto
  qed
qed

text \<open>Witnesses: two pools, with the native token on one side of each, and a depositor.\<close>

definition exPool :: "string \<Rightarrow> Dec \<Rightarrow> string \<Rightarrow> Dec \<Rightarrow> SwapTokenPair" where
  "exPool b x q y = \<lparr>QuotePooledCoin = mkCoin q y, BasePooledCoin = mkCoin b x,
     PoolTokenName = ''ammswap_'' @ b @ ''_'' @ q\<rparr>"

definition exSwap :: swap_state where
  "exSwap = \<lparr>accounts = [''alice'' \<mapsto> \<lparr>AccCoins = [mkCoin ''abc'' 500, mkCoin ''ammswap_abc_okt'' 1000, mkCoin ''okt'' 500], AccModule = None\<rparr>,
       ''addr-swap'' \<mapsto> \<lparr>AccCoins = [mkCoin ''abc'' 1000, mkCoin ''okt'' 4000, mkCoin ''xyz'' 3000],
          AccModule = Some (''ammswap'', [''minter'', ''burner''])\<rparr>],
     sendEnabled = True, blacklistedAddrs = (\<lambda>x. x = ''addr-token'' \<or> x = ''addr-swap''),
     supplyStore = [''abc'' \<mapsto> 1500, ''ammswap_abc_okt'' \<mapsto> 1000, ''okt'' \<mapsto> 4500, ''xyz'' \<mapsto> 3000],
     permAddrs = [''token'' \<mapsto> (''addr-token'', [''minter'', ''burner'']), ''fee'' \<mapsto> (''addr-fee'', []),
       ''ammswap'' \<mapsto> (''addr-swap'', [''minter'', ''burner''])],
     tokenStore = [''ammswap_abc_okt'' \<mapsto> InitPoolToken ''addr-swap'' ''ammswap_abc_okt''],
     userTokens = (\<lambda>_ _. False), tokenNumber = 1,
     confirmStore = Map.empty, lockStore = Map.empty, lockFeeStore = Map.empty, tokenParams = exParams,
     feeCollectorName = ''fee'', contractAddrs = (\<lambda>_. False), blockTime = 0, txHashHex = ''ABCDEF'',
     swapStore = [(GetTokenPairKey ''abc_okt'', exPool ''abc'' 1000 ''okt'' 2000),
       (GetTokenPairKey ''okt_xyz'', exPool ''okt'' 2000 ''xyz'' 3000)],
     swapFeeRate = 3000000000000000\<rparr>"

definition exTrade :: "string \<Rightarrow> MsgTokenToToken" where
  "exTrade d = \<lparr>SoldTokenAmount = mkCoin ''abc'' 100, MinBoughtTokenAmount = mkCoin d 1, ttDeadline = 0,
     ttRecipient = ''bob'', ttSender = ''alice''\<rparr>"

definition exAdd :: MsgAddLiquidity where
  "exAdd = \<lparr>MinLiquidity = 0, MaxBaseAmount = mkCoin ''abc'' 100, QuoteAmount = mkCoin ''okt'' 50,
     alDeadline = 0, alSender = ''alice''\<rparr>"

definition exRemove :: MsgRemoveLiquidity where
  "exRemove = \<lparr>Liquidity = 25, MinBaseAmount = mkCoin ''abc'' 0, MinQuoteAmount = mkCoin ''okt'' 0,
     rlDeadline = 0, rlSender = ''alice''\<rparr>"

lemma exSwap_bankOK: "bankOK exSwap"
  by (auto simp: bankOK_def exSwap_def coinsOf_def accountCoins_def positiveCoins_def)

lemma exSwap_supply: "supplyInv exSwap"
  using exSwap_bankOK by (auto simp: supplyInv_def exSwap_def supplyOf_def totalOf_def balance_def coinsOf_def accountCoins_def)

lemma exSwap_pools:
  "poolAt exSwap ''abc_okt'' = Some (exPool ''abc'' 1000 ''okt'' 2000)"
  "poolAt exSwap ''okt_xyz'' = Some (exPool ''okt'' 2000 ''xyz'' 3000)"
  "poolAt exSwap ''abc_xyz'' = None"
  by code_simp+

lemma exSwap_inv: "swapInv exSwap"
proof -
  have kv: "kvOK (swapStore exSwap)" by code_simp
  have pools: "\<forall>(k, p)\<in>set (swapStore exSwap). poolOK k p" by code_simp
  have fee: "validateParams (swapFeeRate exSwap)" by code_simp
  have "sumPairs (swapStore exSwap) d \<le> balance exSwap (moduleAddr exSwap swapModule) d" for d
    by (simp add: sumPairs_def pairAmt_def exSwap_def exPool_def balance_def coinsOf_def accountCoins_def moduleAddr_def
        swapModule_def mkCoin_def)
  with kv pools fee exSwap_supply show ?thesis by (simp add: swapInv_def)
qed

lemma exSwap_side: "tokenSide exSwap"
  using exSwap_supply
  by (simp add: tokenSide_def tokenInv_def tokenEnv_def heldLocked_def locksWf_def lockedTotal_def lockedIn_def balance_def
        coinsOf_def accountCoins_def exSwap_def moduleAddr_def tokenModule_def swapModule_def)

lemma exSwap_addrs:
  "moduleAddr exSwap swapModule = ''addr-swap''" "moduleAddr exSwap tokenModule = ''addr-token''"
  by code_simp+

lemma exTrade_valid: "MsgTokenToTokenValidateBasic (exTrade ''xyz'') exSwap = Ret () exSwap"
  by (simp add: MsgTokenToTokenValidateBasic_def GetBaseQuoteTokenName_def run_simps exTrade_def) code_simp

lemma exTrade_sender: "ttSender (exTrade d) \<noteq> moduleAddr exSwap swapModule"
  by (simp add: exSwap_addrs exTrade_def)

lemma exTrade_run: obtains s' where "handleMsgTokenToToken (exTrade ''xyz'') exSwap = Ret () s'"
proof -
  have "succeeds (handleMsgTokenToToken (exTrade ''xyz'') exSwap)" by code_simp
  then show thesis using that by (auto elim: succeedsE)
qed

theorem constant_product_witness:
  "\<exists>s' q'. handleMsgTokenToToken (exTrade ''xyz'') exSwap = Ret () s' \<and> poolAt s' ''abc_okt'' = Some q' \<and>
    2000000 \<le> poolProduct q'"
proof -
  obtain s' where s': "handleMsgTokenToToken (exTrade ''xyz'') exSwap = Ret () s'" by (rule exTrade_run)
  from constant_product [OF exSwap_inv exTrade_sender exTrade_valid s' exSwap_pools(1)] s'
  show ?thesis by (simp add: poolProduct_def exPool_def mkCoin_def)
qed

theorem swap_solvent_witness:
  "swapInv (deliver (runSwap (TokenToTokenMsg (exTrade ''okt''))) exSwap) \<and>
   tokenInv (deliver (runSwap (TokenToTokenMsg (exTrade ''okt''))) exSwap)"
proof -
  have "swapReach exSwap (deliver (runSwap (TokenToTokenMsg (exTrade ''okt''))) exSwap)"
    by (rule swapReach.message [OF swapReach.start]) (simp add: userSigned_def exSwap_addrs exTrade_def)
  from swap_solvent [OF exSwap_inv exSwap_side this] show ?thesis by simp
qed

theorem swap_pays_quote_witness:
  "\<exists>s' native. handleMsgTokenToToken (exTrade ''xyz'') exSwap = Ret () s' \<and> 0 < native \<and>
     balance s' ''alice'' ''okt'' = 500 - native \<and> balance s' ''bob'' ''okt'' = native"
proof -
  obtain s' where s': "handleMsgTokenToToken (exTrade ''xyz'') exSwap = Ret () s'" by (rule exTrade_run)
  have n: "poolAt exSwap (ttPairName (exTrade ''xyz'')) = None" by code_simp
  have b: "balance exSwap ''alice'' ''okt'' = 500" "balance exSwap ''bob'' ''okt'' = 0" by code_simp+
  from swap_pays_quote [OF exSwap_inv exTrade_sender exTrade_valid s'] n obtain buy native where
    nat: "Denom native = DefaultBondDenom" "0 < Amount native" and buy: "Denom buy = ''xyz''" and
    bal: "\<forall>x d. balance s' x d = balance exSwap x d +
         moved ''alice'' ''addr-swap'' [mkCoin ''abc'' 100] x d + moved ''addr-swap'' ''bob'' [native] x d +
         moved ''alice'' ''addr-swap'' [native] x d + moved ''addr-swap'' ''bob'' [buy] x d"
    by (auto simp: exTrade_def exSwap_addrs mkCoin_def)
  have "balance s' ''alice'' ''okt'' = 500 - Amount native" "balance s' ''bob'' ''okt'' = Amount native"
    using bal b nat buy by (simp_all add: moved_def delta_def mkCoin_def DefaultBondDenom_def)
  with s' nat show ?thesis by blast
qed

text \<open>States with these denominations and small supplies are sound.\<close>

lemma exSound:
  assumes "swapInv s" "\<And>a d. d \<notin> {''abc'', ''ammswap_abc_okt'', ''okt'', ''xyz''} \<Longrightarrow> balance s a d = 0"
    and "\<And>d. supplyOf s d \<le> 5000"
  shows "bankSound s"
proof (rule bankSoundI)
  show "bankOK s" by (rule swapInv_bankOK [OF assms(1)])
  have "(5000 :: int) < decLimit" by code_simp
  then show "totalOf s d < decLimit" for d
    using assms(1) assms(3) [of d] by (simp add: swapInv_def supplyInv_def)
  have "list_all (\<lambda>d. ValidateDenom d \<and> ToLower d = d) [''abc'', ''ammswap_abc_okt'', ''okt'', ''xyz'']" by code_simp
  then show "ValidateDenom d \<and> ToLower d = d" if "balance s a d \<noteq> 0" for a d
    using that assms(2) [of d a] by (auto simp: list_all_iff)
qed

lemma exSwap_balance0: "d \<notin> {''abc'', ''ammswap_abc_okt'', ''okt'', ''xyz''} \<Longrightarrow> balance exSwap a d = 0"
  by (auto simp: balance_def coinsOf_def accountCoins_def exSwap_def mkCoin_def)

lemma exSwap_supplies: "supplyOf exSwap d \<le> 4500"
  by (simp add: exSwap_def supplyOf_def)

lemma exSwap_sound: "bankSound exSwap"
  by (rule exSound [OF exSwap_inv exSwap_balance0]) (simp_all add: order_trans [OF exSwap_supplies])

lemma exSwap_ready: "moduleReady exSwap swapModule"
  unfolding moduleReady_def exSwap_addrs
  by (simp add: exSwap_def swapModule_def accPermissions_def HasPermission_def Burner_def)

lemma exRemove_names:
  "namesOK [mkCoin ''abc'' x, mkCoin ''okt'' y]" "namesOK [mkCoin ''ammswap_abc_okt'' z]"
proof -
  have "list_all (\<lambda>d. ValidateDenom d \<and> ToLower d = d) [''abc'', ''ammswap_abc_okt'', ''okt'']" by code_simp
  then show "namesOK [mkCoin ''abc'' x, mkCoin ''okt'' y]" "namesOK [mkCoin ''ammswap_abc_okt'' z]"
    by (simp_all add: namesOK_def mkCoin_def)
qed

lemma exRemove_entitled: "entitled exSwap exRemove (exPool ''abc'' 1000 ''okt'' 2000)"
  unfolding entitled_def by code_simp

theorem redeem_live_witness:
  "\<exists>s'. handleMsgRemoveLiquidity exRemove exSwap = Ret () s' \<and> balance s' ''alice'' ''abc'' = 525"
proof -
  have bnd: "poolBounded exSwap (exPool ''abc'' 1000 ''okt'' 2000)" unfolding poolBounded_def by code_simp
  have b: "balance exSwap ''alice'' ''abc'' = 500" "supplyOf exSwap ''ammswap_abc_okt'' = 1000" by code_simp+
  have n: "namesOK [mkCoin (Denom (BasePooledCoin (exPool ''abc'' 1000 ''okt'' 2000))) 0,
      mkCoin (Denom (QuotePooledCoin (exPool ''abc'' 1000 ''okt'' 2000))) 0]"
    "namesOK [mkCoin (PoolTokenName (exPool ''abc'' 1000 ''okt'' 2000)) (Liquidity exRemove)]"
    using exRemove_names by (simp_all add: exPool_def mkCoin_def)
  from redeem_live [OF exSwap_inv exSwap_sound exSwap_ready exRemove_entitled bnd n]
  obtain s' where s': "handleMsgRemoveLiquidity exRemove exSwap = Ret () s'" and
    bal: "\<forall>d. balance s' ''alice'' d = balance exSwap ''alice'' d + amt [mkCoin ''abc'' 25, mkCoin ''okt'' 50] d -
      amt [mkCoin ''ammswap_abc_okt'' 25] d"
    by (auto simp: exPool_def exRemove_def mkCoin_def b)
  from spec [OF bal, of "''abc''"] s' show ?thesis by (simp add: b mkCoin_def)
qed

lemma exAdd_valid: "MsgAddLiquidityValidateBasic exAdd exSwap = Ret () exSwap"
  by (simp add: MsgAddLiquidityValidateBasic_def run_simps exAdd_def) code_simp

lemma exAdd_run:
  obtains s1 where "handleMsgAddLiquidity exAdd exSwap = Ret () s1" "moduleReady s1 swapModule" "swapInv s1"
    "\<And>a d. balance s1 a d = balance exSwap a d + addMoves exSwap exAdd (exPool ''abc'' 1000 ''okt'' 2000) 25 25 a d"
    "\<And>d. supplyOf s1 d = supplyOf exSwap d + amt [mkCoin ''ammswap_abc_okt'' 25] d"
    "poolAt s1 ''abc_okt'' = Some (exPool ''abc'' 1025 ''okt'' 2050)"
    "moduleAddr s1 swapModule = ''addr-swap''" "blockTime s1 = 0" "blacklistedAddrs s1 = blacklistedAddrs exSwap"
proof -
  let ?p = "exPool ''abc'' 1000 ''okt'' 2000"
  have "case handleMsgAddLiquidity exAdd exSwap of
      Ret _ s1 \<Rightarrow> (case accounts s1 ''addr-swap'' of Some acc \<Rightarrow> HasPermission (accPermissions acc) Burner | None \<Rightarrow> False)
    | _ \<Rightarrow> False" by code_simp
  then obtain s1 acc where run: "handleMsgAddLiquidity exAdd exSwap = Ret () s1"
    and acc: "accounts s1 ''addr-swap'' = Some acc" "HasPermission (accPermissions acc) Burner"
    by (auto split: outcome.splits option.splits)
  have a: "alSender exAdd \<noteq> moduleAddr exSwap swapModule" by (simp add: exAdd_def exSwap_addrs)
  have name: "alPairName exAdd = ''abc_okt''" by code_simp
  show thesis
  proof (rule AddLiquidity_effect [OF run exAdd_valid exSwap_inv a])
    fix p b l
    assume "poolAt exSwap (alPairName exAdd) = Some p" and
      t: "depositTerms p (supplyOf exSwap (PoolTokenName p)) (Amount (MaxBaseAmount exAdd)) (Amount (QuoteAmount exAdd)) b l" and
      led: "swapLedger exSwap s1 (addMoves exSwap exAdd p b l) (amt [mkCoin (poolSymbol exSwap p) l])
       (kvSet (GetTokenPairKey (alPairName exAdd)) (deposited p b (Amount (QuoteAmount exAdd))) (swapStore exSwap))" and
      inv: "swapInv s1"
    then have [simp]: "p = ?p" using exSwap_pools(1) by (simp add: name)
    have S: "supplyOf exSwap ''ammswap_abc_okt'' = 1000" by code_simp
    have [simp]: "b = 25" "l = 25" using t by (simp_all add: depositTerms_def exPool_def exAdd_def mkCoin_def S)
    have sym: "poolSymbol exSwap ?p = ''ammswap_abc_okt''" by code_simp
    from led obtain A B st where s1: "s1 = exSwap\<lparr>accounts := A, supplyStore := B, swapStore := st\<rparr>"
      by (rule swapLedger_frame)
    have perm: "permAddrs s1 swapModule = Some (''addr-swap'', [''minter'', ''burner''])"
      by (simp add: s1 exSwap_def swapModule_def)
    then have "moduleReady s1 swapModule" using acc by (simp add: moduleReady_def moduleAddr_def)
    moreover have "poolAt s1 ''abc_okt'' = Some (deposited ?p 25 (Amount (QuoteAmount exAdd)))"
      using poolAt_set [OF swapInv_kvOK [OF exSwap_inv] swapLedger_simps(4) [OF led], of "''abc_okt''"]
      by (simp add: name)
    moreover have "deposited ?p 25 (Amount (QuoteAmount exAdd)) = exPool ''abc'' 1025 ''okt'' 2050" by code_simp
    moreover have "moduleAddr s1 swapModule = ''addr-swap''" by (simp add: moduleAddr_def perm)
    moreover have "blockTime s1 = 0" "blacklistedAddrs s1 = blacklistedAddrs exSwap" by (simp_all add: s1 exSwap_def)
    ultimately show thesis
      using that [OF run _ inv] swapLedger_simps(2,3) [OF led] sym by simp
  qed
qed

theorem add_remove_no_profit_witness:
  "\<exists>s1 s2. handleMsgAddLiquidity exAdd exSwap = Ret () s1 \<and> handleMsgRemoveLiquidity exRemove s1 = Ret () s2 \<and>
    balance s2 ''alice'' ''okt'' \<le> 500"
proof (rule exAdd_run)
  let ?p = "exPool ''abc'' 1000 ''okt'' 2000" and ?p1 = "exPool ''abc'' 1025 ''okt'' 2050" and ?P = "''ammswap_abc_okt''"
  fix s1
  assume run: "handleMsgAddLiquidity exAdd exSwap = Ret () s1" and ready: "moduleReady s1 swapModule" and inv: "swapInv s1"
    and bal: "\<And>a d. balance s1 a d = balance exSwap a d + addMoves exSwap exAdd ?p 25 25 a d"
    and sup: "\<And>d. supplyOf s1 d = supplyOf exSwap d + amt [mkCoin ?P 25] d"
    and p1: "poolAt s1 ''abc_okt'' = Some ?p1"
    and env: "moduleAddr s1 swapModule = ''addr-swap''" "blockTime s1 = 0" "blacklistedAddrs s1 = blacklistedAddrs exSwap"
  have sym: "poolSymbol exSwap ?p = ?P" and S: "supplyOf exSwap ?P = 1000"
    and name: "rlPairName exRemove = ''abc_okt''" "alPairName exAdd = ''abc_okt''"
    and b0: "balance exSwap ''alice'' ?P = 1000" "balance exSwap ''alice'' ''okt'' = 500" by code_simp+
  have "addMoves exSwap exAdd ?p 25 25 a d =
      moved ''alice'' ''addr-swap'' (coinSort [mkCoin ''okt'' 50, mkCoin ''abc'' 25]) a d + delta ''alice'' [mkCoin ?P 25] a d" for a d
    unfolding addMoves_def sym exSwap_addrs by (simp add: exAdd_def mkCoin_def)
  then have mv: "addMoves exSwap exAdd ?p 25 25 a d =
      (if a = ''addr-swap'' then amt [mkCoin ''okt'' 50, mkCoin ''abc'' 25] d else 0) +
      (if a = ''alice'' then amt [mkCoin ?P 25] d - amt [mkCoin ''okt'' 50, mkCoin ''abc'' 25] d else 0)" for a d
    by (simp add: moved_def delta_def amt_coinSort mkCoin_def)
  have "supplyOf s1 d \<le> 5000" for d using exSwap_supplies [of d] by (simp add: sup mkCoin_def)
  then have "bankSound s1" by (intro exSound [OF inv]) (auto simp: bal mv exSwap_balance0 mkCoin_def)
  moreover have held: "balance s1 ''alice'' ?P = 1025" and S1: "supplyOf s1 ?P = 1025"
    by (simp_all add: bal mv sup S b0 mkCoin_def)
  have black: "\<not> blacklistedAddrs s1 ''alice''" unfolding env by (simp add: exSwap_def)
  have "entitled s1 exRemove ?p1"
    unfolding entitled_def name using p1 black
    by (simp add: env(1,2) exRemove_def exPool_def mkCoin_def held S1)
  moreover have "poolBounded s1 ?p1" unfolding poolBounded_def by (simp add: exPool_def mkCoin_def S1) code_simp
  ultimately obtain s2 where run2: "handleMsgRemoveLiquidity exRemove s1 = Ret () s2"
    using redeem_runs [OF inv _ ready, of exRemove ?p1] exRemove_names by (auto simp: exPool_def mkCoin_def)
  have P: "PoolTokenName ?p = ?P" by (simp add: exPool_def)
  have p: "poolAt exSwap (alPairName exAdd) = Some ?p" unfolding name by (rule exSwap_pools(1))
  have t: "tokenStore exSwap (PoolTokenName ?p) = Some (InitPoolToken ''addr-swap'' ?P)"
    unfolding P by (simp add: exSwap_def)
  have "balance s2 (alSender exAdd) ''okt'' \<le> balance exSwap (alSender exAdd) ''okt''"
    by (rule add_remove_no_profit [OF exSwap_inv _ _ exAdd_valid _ _ run run2 p t])
      (unfold P name exSwap_addrs S S1, simp_all add: exAdd_def exRemove_def InitPoolToken_def)
  with run run2 b0 show ?thesis by (auto simp: exAdd_def)
qed

end
