(* ===== verification/Spec2Isabelle.thy ===== *)
theory Spec2Isabelle
  imports Prelude Decimal DecString Coins Bank Supply Token OrderTypes Auction
    KVStore Iavl CacheKV StoreStack PrefixStore GasStore Transfers Swap SwapPools
begin

text \<open>
  A verification library for the exchange chain of this repository (a Cosmos SDK chain with its own
  modules under \<open>x/\<close> and forks of the SDK, the IAVL tree and Tendermint under \<open>libs/\<close>).

  \<^bold>\<open>The program.\<close> A block is a list of transactions. Each transaction carries messages; a message is
  first checked without state (\<open>ValidateBasic\<close>) and then executed by the handler of its module on a
  cache of the state, which is written only when the message succeeds. Modules keep their state in
  key-value stores: an IAVL tree per module, below a cache per block, per transaction and per message,
  each read through a store that charges gas and often through a prefix. All amounts are fixed-point
  decimals with 18 digits. The bank holds the coins of accounts, the supply module adds module
  accounts, minting and burning; the token module issues tokens and locks coins for orders; the order
  module matches orders in a periodic auction; the swap module runs constant-product pools whose
  shares are tokens of the token module.

  \<^bold>\<open>Conventions.\<close> Pure code that may panic returns an \<^typ>\<open>'a option\<close>. Code that works on state is an
  \<^typ>\<open>('s, 'a) action\<close>: it returns a value, returns an error with the state at that moment, or panics
  (\<open>Prelude\<close>). \<^const>\<open>deliver\<close> runs a message and keeps the old state unless it succeeds. Big integers
  are \<^typ>\<open>int\<close> with the bit-length checks of the code written out; gas is a 64-bit word; indices,
  heights and sizes of the tree that have a machine width wrap explicitly. Byte strings are lists of
  characters, ordered bytewise.

  \<^bold>\<open>Theories.\<close>

  \<^item> \<open>Prelude\<close>: actions, their rules (the collection \<open>run_simps\<close>), loops and delivery.

  \<^item> \<open>Decimal\<close>, \<open>DecString\<close>: \<open>Dec\<close> and \<open>Int\<close> of \<open>libs/cosmos-sdk/types/decimal.go\<close> and \<open>int.go\<close>. Every
    rounding mode is characterised against the exact result; the powers are correct on whole numbers;
    printing and parsing are inverse for values that fit in 255 bits. The root loop runs at most
    \<open>maxApproxRootIterations\<close> times, as in the code, so no fuel is chosen.

  \<^item> \<open>Coins\<close>: coin sets of \<open>coin.go\<close> and \<open>dec_coin.go\<close> as sorted lists. A coin set is a finite map from
    denominations to amounts (\<^const>\<open>amt\<close>); merging, subtraction, comparison and binary search are
    shown to be the pointwise operations.

  \<^item> \<open>Bank\<close>, \<open>Supply\<close>: \<open>x/bank\<close> and \<open>x/supply\<close> of the SDK. Each operation is described by what it does to
    balances and supply (\<^const>\<open>transfers\<close>, \<^const>\<open>ledger\<close>); totals are conserved, and the recorded
    supply equals the coins held. The interface of operations that only move coins is a locale that is
    interpreted on the bank's operations.

  \<^item> \<open>Transfers\<close>: when transfers cannot fail, for liveness.

  \<^item> \<open>Token\<close>: the keeper, messages and handlers of \<open>x/token\<close>. The module account always equals the locked
    coins; every message refines an abstract specification of tokens; a token in the black hole never
    changes; supplies stay below their bound.

  \<^item> \<open>OrderTypes\<close>, \<open>Auction\<close>: orders, identifiers and the depth book of \<open>x/order/types\<close>, and the price of the
    periodic auction in \<open>x/order/match/periodicauction/match.go\<close>. The book summarises the open orders
    exactly; the auction price maximises the executed quantity with the least imbalance.

  \<^item> \<open>KVStore\<close>: the store interface of the SDK as a record of operations, a reference store (a sorted
    association list), and the locale \<open>kv_store\<close>: a store that shows a view and behaves like the
    reference store on it. Clients are proved against the locale, providers interpret it.

  \<^item> \<open>Iavl\<close>: the working tree of \<open>libs/iavl\<close> (nodes, insertion, removal, rotations, both traversals) and
    \<open>store/iavl\<close> on top of it. The tree is ordered and balanced, its height fits 8 bits below \<open>2 ^ 63\<close>
    entries, and the store implements the reference store.

  \<^item> \<open>CacheKV\<close>, \<open>PrefixStore\<close>, \<open>GasStore\<close>, \<open>StoreStack\<close>: the cache, prefix and gas stores under
    \<open>libs/cosmos-sdk/store\<close>. Each is proved over any store of the locale, and \<open>StoreStack\<close> composes them
    over the tree: caches are transparent until written, writing installs what they showed in any order
    of the map of pending writes, snapshots revert, prefixes show exactly their keys. A metered run
    costs exactly the specified gas or panics with the right error. Loops over entries are structural;
    the merge iterator terminates by the number of entries left.

  \<^item> \<open>Swap\<close>, \<open>SwapPools\<close>: \<open>x/ammswap\<close>. The state extends that of the token module by the pools and the fee
    rate. \<open>Swap\<close> has every message, handler, keeper operation, query and the genesis functions;
    \<open>SwapPools\<close> shows what each handler does to balances, supply and pools, and from it that the module is
    solvent in every reachable state, that no swap lowers the product of a pool, that deposits followed
    by withdrawals make no profit, that swaps pay what the query promises, and that pool tokens can be
    redeemed.

  \<^bold>\<open>Assumptions.\<close> Nobody signs for a module account. Module accounts have different addresses and are on
  the bank's blacklist. Arithmetic that would exceed the limit of decimals panics in the code and in
  the model; where a property says that an operation succeeds, its bound on amounts is a hypothesis.

  \<^bold>\<open>Not modelled.\<close>

  \<^item> Encodings (amino, JSON, protobuf): stores of modules keep the values themselves.

  \<^item> The EVM and WebAssembly modules (\<open>x/evm\<close>, \<open>x/erc20\<close>, \<open>x/wasm\<close>, \<open>x/vmbridge\<close>, \<open>x/feesplit\<close>): they run machines
    that are external libraries.

  \<^item> Consensus, networking, databases, RPC servers and command lines (\<open>libs/tendermint\<close>, \<open>libs/tm-db\<close>, \<open>app\<close>):
    input and output, and concurrent code.

  \<^item> Hashes and proofs of the tree, its versions on disk and pruning: they need a model of the hash
    function and of the database.

  \<^item> The keeper of \<open>x/order\<close> and the filling of the book, \<open>x/dex\<close>, \<open>x/farm\<close>, \<open>x/staking\<close>, \<open>x/distribution\<close>,
    \<open>x/slashing\<close>, \<open>x/gov\<close> and the mint module: left out because of their size. They rest on the bank,
    supply, token and store components that are modelled.

  \<^item> Vesting accounts, the caches of accounts and fees in the ante handler, and observers of the indexing
    back end.
\<close>

end
